(* ===== verification/Prelude.thy ===== *)
theory Prelude
  imports Main "HOL-Library.Multiset" "HOL-Library.Word" "HOL-Library.Signed_Division"
begin

unbundle bit_operations_syntax

text \<open>
  Shared vocabulary of the TradeCore development: the machine integers of the C++ sources, the
  ordered map and the unordered map of the C++ standard library as the sources use them, and the
  lemmas about them that the component theories rely on.

  \<^item> Signed 64-bit values (\<open>std::int64_t\<close>) are HOL integers; every arithmetic operation of the
    source that can leave the range is wrapped by \<open>i64\<close>, two's complement reduction. A stored
    value is in range when \<open>in64\<close> holds of it.
  \<^item> Unsigned values are words of their width.
  \<^item> \<open>std::map\<close> is an association list kept sorted by its comparator (\<open>omap_find\<close>,
    \<open>omap_put\<close>, \<open>omap_erase\<close>); its laws are proved once in the locale \<open>comparator\<close> and
    interpreted for \<open>std::less\<close> and \<open>std::greater\<close> on prices.
  \<^item> \<open>std::unordered_map\<close> is a HOL map where the code never iterates over it, and an association
    list with distinct keys where it does.
\<close>

section \<open>Collections of rewrite rules\<close>

named_theorems i64_simps \<open>reduction laws of the signed 64-bit wrap-around\<close>

section \<open>Signed 64-bit integers\<close>

type_synonym u8 = "8 word"
type_synonym u16 = "16 word"
type_synonym u32 = "32 word"
type_synonym u64 = "64 word"

text \<open>Two's complement reduction of an integer to the range of \<open>std::int64_t\<close>.\<close>

definition i64 :: "int \<Rightarrow> int" where
  "i64 x = (x + 2 ^ 63) mod 2 ^ 64 - 2 ^ 63"

definition in64 :: "int \<Rightarrow> bool" where
  "in64 x \<longleftrightarrow> - (2 ^ 63) \<le> x \<and> x < 2 ^ 63"

text \<open>The same for \<open>std::int32_t\<close>, which the configuration structs use.\<close>

definition i32 :: "int \<Rightarrow> int" where
  "i32 x = (x + 2 ^ 31) mod 2 ^ 32 - 2 ^ 31"

definition in32 :: "int \<Rightarrow> bool" where
  "in32 x \<longleftrightarrow> - (2 ^ 31) \<le> x \<and> x < 2 ^ 31"

lemma i64_id [simp]: "in64 x \<Longrightarrow> i64 x = x"
  by (simp add: i64_def in64_def)

lemma in64_i64 [simp]: "in64 (i64 x)"
  unfolding in64_def i64_def
  using pos_mod_bound [of "2 ^ 64" "x + 2 ^ 63"] pos_mod_sign [of "2 ^ 64" "x + 2 ^ 63"] by simp

lemma i64_idem [simp]: "i64 (i64 x) = i64 x"
  by simp

text \<open>The value of \<open>i64\<close> is fixed by the residue modulo \<open>2 ^ 64\<close>.\<close>

lemma i64_mod: "i64 x mod 2 ^ 64 = x mod 2 ^ 64"
  unfolding i64_def by (simp add: mod_diff_left_eq)

lemma i64_cong: "x mod 2 ^ 64 = y mod 2 ^ 64 \<Longrightarrow> i64 x = i64 y"
  unfolding i64_def by (metis mod_add_left_eq)

lemma i64_add_left [i64_simps]: "i64 (i64 x + y) = i64 (x + y)"
  by (rule i64_cong) (metis i64_mod mod_add_left_eq)

lemma i64_add_right [i64_simps]: "i64 (x + i64 y) = i64 (x + y)"
  by (rule i64_cong) (metis i64_mod mod_add_right_eq)

lemma i64_diff_left [i64_simps]: "i64 (i64 x - y) = i64 (x - y)"
  by (rule i64_cong) (metis i64_mod mod_diff_left_eq)

lemma i64_diff_right [i64_simps]: "i64 (x - i64 y) = i64 (x - y)"
  by (rule i64_cong) (metis i64_mod mod_diff_right_eq)

lemma i64_mult_left [i64_simps]: "i64 (i64 x * y) = i64 (x * y)"
  by (rule i64_cong) (metis i64_mod mod_mult_left_eq)

lemma i64_mult_right [i64_simps]: "i64 (x * i64 y) = i64 (x * y)"
  by (rule i64_cong) (metis i64_mod mod_mult_right_eq)

lemma i64_add_diff [i64_simps]: "i64 (i64 x + y - z) = i64 (x + y - z)"
  by (metis add_diff_eq i64_add_left)

lemma i64_add_diff_right [i64_simps]: "i64 (x + i64 y - z) = i64 (x + y - z)"
  by (metis add.commute i64_add_diff)

lemma in64_zero [simp]: "in64 0" and in64_one [simp]: "in64 1"
  by (simp_all add: in64_def)

lemma i64_zero [simp]: "i64 0 = 0"
  by simp

lemma in64_between: "in64 a \<Longrightarrow> in64 b \<Longrightarrow> a \<le> x \<Longrightarrow> x \<le> b \<Longrightarrow> in64 x"
  by (auto simp: in64_def)

lemma in64_min [simp]: "in64 a \<Longrightarrow> in64 b \<Longrightarrow> in64 (min a b)"
  by (auto simp: min_def)

lemma in64_sub_pos: "in64 a \<Longrightarrow> 0 \<le> b \<Longrightarrow> b \<le> a \<Longrightarrow> in64 (a - b)"
  by (auto simp: in64_def)

lemma i64_sub_pos: "in64 a \<Longrightarrow> 0 \<le> b \<Longrightarrow> b \<le> a \<Longrightarrow> i64 (a - b) = a - b"
  by (simp add: in64_sub_pos)

text \<open>\<open>std::llabs\<close>: the magnitude, again in 64 bits.\<close>

definition llabs :: "int \<Rightarrow> int" where
  "llabs x = i64 \<bar>x\<bar>"

lemma llabs_eq: "in64 x \<Longrightarrow> x \<noteq> - (2 ^ 63) \<Longrightarrow> llabs x = \<bar>x\<bar>"
  by (auto simp: llabs_def in64_def intro!: i64_id)

section \<open>Ordered maps: \<open>std::map\<close>\<close>

text \<open>
  A map with comparator \<open>lt\<close> is the list of its entries in iteration order. \<open>omap_put\<close> stores
  the value under the key whether or not the key is there; \<open>omap_erase\<close> removes the entry.
\<close>

fun omap_find :: "'k \<Rightarrow> ('k \<times> 'v) list \<Rightarrow> 'v option" where
  "omap_find k [] = None"
| "omap_find k ((k', v) # xs) = (if k = k' then Some v else omap_find k xs)"

fun omap_put :: "('k \<Rightarrow> 'k \<Rightarrow> bool) \<Rightarrow> 'k \<Rightarrow> 'v \<Rightarrow> ('k \<times> 'v) list \<Rightarrow> ('k \<times> 'v) list" where
  "omap_put lt k v [] = [(k, v)]"
| "omap_put lt k v ((k', v') # xs) =
     (if k = k' then (k, v) # xs
      else if lt k k' then (k, v) # (k', v') # xs
      else (k', v') # omap_put lt k v xs)"

fun omap_erase :: "'k \<Rightarrow> ('k \<times> 'v) list \<Rightarrow> ('k \<times> 'v) list" where
  "omap_erase k [] = []"
| "omap_erase k ((k', v) # xs) = (if k = k' then xs else (k', v) # omap_erase k xs)"

definition osorted :: "('k \<Rightarrow> 'k \<Rightarrow> bool) \<Rightarrow> ('k \<times> 'v) list \<Rightarrow> bool" where
  "osorted lt xs \<longleftrightarrow> sorted_wrt lt (map fst xs)"

lemma osorted_Nil [simp]: "osorted lt []"
  by (simp add: osorted_def)

lemma osorted_Cons [simp]:
  "osorted lt ((k, v) # xs) \<longleftrightarrow> (\<forall>k' \<in> fst ` set xs. lt k k') \<and> osorted lt xs"
  by (auto simp: osorted_def)

lemma fst_set_omap_put: "fst ` set (omap_put lt k v xs) = insert k (fst ` set xs)"
  by (induction lt k v xs rule: omap_put.induct) auto

lemma set_omap_erase_subset: "set (omap_erase k xs) \<subseteq> set xs"
  by (induction k xs rule: omap_erase.induct) auto

lemma omap_find_SomeD: "omap_find k xs = Some v \<Longrightarrow> (k, v) \<in> set xs"
  by (induction k xs rule: omap_find.induct) (auto split: if_splits)

lemma omap_find_None_iff: "omap_find k xs = None \<longleftrightarrow> k \<notin> fst ` set xs"
  by (induction k xs rule: omap_find.induct) auto

text \<open>A comparator in the sense of the C++ standard that is total on distinct keys.\<close>

locale comparator =
  fixes lt :: "'k \<Rightarrow> 'k \<Rightarrow> bool"
  assumes lt_irrefl: "\<not> lt a a"
    and lt_trans: "lt a b \<Longrightarrow> lt b c \<Longrightarrow> lt a c"
    and lt_total: "a \<noteq> b \<Longrightarrow> lt a b \<or> lt b a"
begin

lemma sorted_put: "osorted lt xs \<Longrightarrow> osorted lt (omap_put lt k v xs)"
proof (induction xs)
  case Nil
  then show ?case by simp
next
  case (Cons x xs)
  obtain k' v' where x: "x = (k', v')" by (cases x)
  show ?case
    using Cons lt_total [of k k'] unfolding x
    by (auto simp: fst_set_omap_put dest: lt_trans)
qed

lemma sorted_erase: "osorted lt xs \<Longrightarrow> osorted lt (omap_erase k xs)"
proof (induction xs)
  case Nil
  then show ?case by simp
next
  case (Cons x xs)
  then show ?case
    using set_omap_erase_subset [of k xs] by (cases x) (auto dest!: subsetD)
qed

lemma find_put: "osorted lt xs \<Longrightarrow> omap_find k (omap_put lt j v xs) = (if k = j then Some v else omap_find k xs)"
  by (induction xs) auto

lemma find_erase: "osorted lt xs \<Longrightarrow> omap_find k (omap_erase j xs) = (if k = j then None else omap_find k xs)"
proof (induction xs)
  case Nil
  then show ?case by simp
next
  case (Cons x xs)
  then show ?case
    using lt_irrefl by (cases x) (fastforce simp: omap_find_None_iff image_iff)
qed

end

interpretation asc: comparator "(<) :: int \<Rightarrow> int \<Rightarrow> bool"
  by unfold_locales auto

interpretation desc: comparator "(>) :: int \<Rightarrow> int \<Rightarrow> bool"
  by unfold_locales auto

section \<open>Unordered maps: \<open>std::unordered_map\<close>\<close>

text \<open>
  An unordered map that the code iterates over is the list of its entries in some iteration order,
  with distinct keys. A store under a present key keeps its place, a new key comes last; results
  that depend on the entries only must not depend on this order, which the components prove.
\<close>

fun umap_find :: "'k \<Rightarrow> ('k \<times> 'v) list \<Rightarrow> 'v option" where
  "umap_find k [] = None"
| "umap_find k ((k', v) # xs) = (if k = k' then Some v else umap_find k xs)"

fun umap_put :: "'k \<Rightarrow> 'v \<Rightarrow> ('k \<times> 'v) list \<Rightarrow> ('k \<times> 'v) list" where
  "umap_put k v [] = [(k, v)]"
| "umap_put k v ((k', v') # xs) = (if k = k' then (k, v) # xs else (k', v') # umap_put k v xs)"

definition umap_erase :: "'k \<Rightarrow> ('k \<times> 'v) list \<Rightarrow> ('k \<times> 'v) list" where
  "umap_erase k xs = filter (\<lambda>(k', _). k' \<noteq> k) xs"

text \<open>The laws of a container of values under keys, whatever its iteration order.\<close>

locale dictionary =
  fixes find_in :: "'k \<Rightarrow> 'm \<Rightarrow> 'v option"
    and put_in :: "'k \<Rightarrow> 'v \<Rightarrow> 'm \<Rightarrow> 'm"
    and erase_in :: "'k \<Rightarrow> 'm \<Rightarrow> 'm"
    and wf_map :: "'m \<Rightarrow> bool"
  assumes find_put: "wf_map m \<Longrightarrow> find_in k (put_in j v m) = (if k = j then Some v else find_in k m)"
    and find_erase: "wf_map m \<Longrightarrow> find_in k (erase_in j m) = (if k = j then None else find_in k m)"
    and wf_put: "wf_map m \<Longrightarrow> wf_map (put_in j v m)"
    and wf_erase: "wf_map m \<Longrightarrow> wf_map (erase_in j m)"
begin

lemma put_put: "wf_map m \<Longrightarrow> find_in k (put_in j v (put_in j w m)) = find_in k (put_in j v m)"
  by (simp add: find_put wf_put)

lemma put_commute:
  "wf_map m \<Longrightarrow> i \<noteq> j \<Longrightarrow> find_in k (put_in i v (put_in j w m)) = find_in k (put_in j w (put_in i v m))"
  by (simp add: find_put wf_put)

lemma erase_put: "wf_map m \<Longrightarrow> find_in k (erase_in j (put_in j v m)) = find_in k (erase_in j m)"
  by (simp add: find_put find_erase wf_put)

end

lemma umap_find_put [simp]: "umap_find k (umap_put j v xs) = (if k = j then Some v else umap_find k xs)"
  by (induction xs) auto

lemma umap_find_erase [simp]: "umap_find k (umap_erase j xs) = (if k = j then None else umap_find k xs)"
  unfolding umap_erase_def by (induction xs) auto

lemma umap_find_None: "umap_find k xs = None \<longleftrightarrow> k \<notin> fst ` set xs"
  by (induction k xs rule: umap_find.induct) simp_all

lemma umap_find_in: "umap_find k xs = Some v \<Longrightarrow> (k, v) \<in> set xs"
  by (induction xs) (auto split: if_splits)

lemma umap_put_keys: "fst ` set (umap_put k v xs) = insert k (fst ` set xs)"
  by (induction k v xs rule: umap_put.induct) (simp_all add: insert_commute)

lemma umap_put_new: "k \<notin> fst ` set xs \<Longrightarrow> umap_put k v xs = xs @ [(k, v)]"
  by (induction xs) auto

lemma umap_put_split:
  "k \<notin> fst ` set xs \<Longrightarrow> umap_put k v (xs @ (k, w) # ys) = xs @ (k, v) # ys"
  by (induction xs) auto

lemma umap_put_distinct [simp]: "distinct (map fst xs) \<Longrightarrow> distinct (map fst (umap_put k v xs))"
  by (induction xs) (auto simp: umap_put_keys)

lemma umap_erase_distinct [simp]: "distinct (map fst xs) \<Longrightarrow> distinct (map fst (umap_erase k xs))"
  unfolding umap_erase_def by (induction xs) auto

lemma umap_find_mset:
  assumes "mset xs = mset ys" and "distinct (map fst xs)"
  shows "umap_find k xs = umap_find k ys"
proof -
  have "distinct (map fst ys)" using assms by (metis mset_eq_imp_distinct_iff mset_map)
  moreover have "map_of zs = (\<lambda>k. umap_find k zs)" for zs :: "('a \<times> 'b) list"
    by (induction zs) (auto simp: fun_eq_iff)
  ultimately show ?thesis
    using assms map_of_inject_set [of xs ys] mset_eq_setD by metis
qed

lemma umap_put_put [simp]: "umap_put k v (umap_put k w xs) = umap_put k v xs"
  by (induction xs) auto

text \<open>Every stored value has a property.\<close>

definition umap_all :: "('v \<Rightarrow> bool) \<Rightarrow> ('k \<times> 'v) list \<Rightarrow> bool" where
  "umap_all P xs \<longleftrightarrow> list_all (\<lambda>(k, v). P v) xs"

lemma umap_all_Nil [simp]: "umap_all P []"
  by (simp add: umap_all_def)

lemma umap_all_put [simp]: "umap_all P xs \<Longrightarrow> P v \<Longrightarrow> umap_all P (umap_put k v xs)"
  unfolding umap_all_def by (induction k v xs rule: umap_put.induct) auto

lemma umap_all_find: "umap_all P xs \<Longrightarrow> umap_find k xs = Some v \<Longrightarrow> P v"
  unfolding umap_all_def by (induction k xs rule: umap_find.induct) (auto split: if_splits)

interpretation umap: dictionary umap_find umap_put umap_erase "\<lambda>xs. distinct (map fst xs)"
  by unfold_locales simp_all

interpretation price_map: dictionary omap_find "omap_put ((<) :: int \<Rightarrow> int \<Rightarrow> bool)" omap_erase "osorted (<)"
  by unfold_locales (simp_all add: asc.find_put asc.find_erase asc.sorted_put asc.sorted_erase)

section \<open>Simulation\<close>

text \<open>
  Runs of a component over a sequence of inputs: of an implementation whose step may fail, and of a
  specification whose step is total.
\<close>

fun run_impl :: "('i \<Rightarrow> 'c \<Rightarrow> ('o \<times> 'c) option) \<Rightarrow> 'i list \<Rightarrow> 'c \<Rightarrow> ('o list \<times> 'c) option" where
  "run_impl step [] c = Some ([], c)"
| "run_impl step (i # is) c =
     (case step i c of
        None \<Rightarrow> None
      | Some (out, c1) \<Rightarrow>
          (case run_impl step is c1 of None \<Rightarrow> None | Some (outs, c2) \<Rightarrow> Some (out # outs, c2)))"

fun run_spec :: "('i \<Rightarrow> 'a \<Rightarrow> 'o \<times> 'a) \<Rightarrow> 'i list \<Rightarrow> 'a \<Rightarrow> 'o list \<times> 'a" where
  "run_spec step [] a = ([], a)"
| "run_spec step (i # is) a =
     (let (out, a1) = step i a; (outs, a2) = run_spec step is a1 in (out # outs, a2))"

text \<open>
  The contract between an implementation and its specification: on related states and admissible
  inputs the implementation's step succeeds with the specified output and stays related.
\<close>

locale simulation =
  fixes rep :: "'c \<Rightarrow> 'a \<Rightarrow> bool"
    and cstep :: "'i \<Rightarrow> 'c \<Rightarrow> ('o \<times> 'c) option"
    and astep :: "'i \<Rightarrow> 'a \<Rightarrow> 'o \<times> 'a"
    and ok :: "'i \<Rightarrow> bool"
  assumes sim: "rep c a \<Longrightarrow> ok i \<Longrightarrow>
      \<exists>c'. cstep i c = Some (fst (astep i a), c') \<and> rep c' (snd (astep i a))"
begin

lemma run_refines:
  "rep c a \<Longrightarrow> list_all ok is \<Longrightarrow>
     \<exists>c'. run_impl cstep is c = Some (fst (run_spec astep is a), c') \<and> rep c' (snd (run_spec astep is a))"
proof (induction "is" arbitrary: c a)
  case Nil
  then show ?case by simp
next
  case (Cons i "is")
  obtain c1 where c1: "cstep i c = Some (fst (astep i a), c1)" "rep c1 (snd (astep i a))"
    using sim Cons.prems by fastforce
  with Cons.IH [of c1 "snd (astep i a)"] Cons.prems show ?case
    by (auto simp: Let_def split: prod.splits)
qed

lemma step_result: "rep c a \<Longrightarrow> ok i \<Longrightarrow> cstep i c = Some (out, c') \<Longrightarrow>
    out = fst (astep i a) \<and> rep c' (snd (astep i a))"
  using sim by fastforce

end

end
