(* ===== verification/Types.thy ===== *)
theory Types
  imports Prelude
begin

text \<open>
  The shared types of \<open>libs/common/include/tradecore/common/types.hpp\<close>: sides, time in force, order
  flags and order identifiers with their 64-bit packing, together with the inverse packing
  \<open>decode_order_id\<close> of \<open>apps/tradecored/src/main.cpp\<close>. The lemmas show that the packing is a
  bijection, which is what makes the packed value usable as a key of the order store.
\<close>

type_synonym MarketId = u16
type_synonym SessionId = u16
type_synonym SequenceId = u32
type_synonym AccountId = u64
type_synonym TimestampNs = int

text \<open>
  \<open>enum class Side : std::uint8_t\<close>. The decoders cast an unchecked byte to this type, and a C++
  enumeration with a fixed underlying type holds every value of that type: \<open>Side_raw\<close> stands for
  the values that have no name.
\<close>

datatype Side = kBuy | kSell | Side_raw u8

fun side_to_byte :: "Side \<Rightarrow> u8" where
  "side_to_byte kBuy = 0"
| "side_to_byte kSell = 1"
| "side_to_byte (Side_raw b) = b"

definition side_of_byte :: "u8 \<Rightarrow> Side" where
  "side_of_byte b = (if b = 0 then kBuy else if b = 1 then kSell else Side_raw b)"

datatype TimeInForce = kGtc | kIoc | kFok | kGoodTilBlock | kGoodTilTime

text \<open>\<open>enum OrderFlags : std::uint16_t\<close>.\<close>

definition kFlagsNone :: u16 where "kFlagsNone = 0"
definition kPostOnly :: u16 where "kPostOnly = push_bit 0 1"
definition kReduceOnly :: u16 where "kReduceOnly = push_bit 1 1"
definition kHidden :: u16 where "kHidden = push_bit 2 1"
definition kIceberg :: u16 where "kIceberg = push_bit 3 1"

definition HasFlag :: "u16 \<Rightarrow> u16 \<Rightarrow> bool" where
  "HasFlag flags flag \<longleftrightarrow> flags AND flag \<noteq> 0"

record OrderId =
  oid_market :: MarketId
  oid_session :: SessionId
  oid_local :: SequenceId

definition order_key :: "OrderId \<Rightarrow> u64" where
  "order_key oid =
     (push_bit 48 (ucast (oid_market oid)) OR push_bit 32 (ucast (oid_session oid)))
       OR ucast (oid_local oid)"

definition decode_order_id :: "u64 \<Rightarrow> OrderId" where
  "decode_order_id encoded =
     \<lparr>oid_market = ucast (drop_bit 48 encoded),
      oid_session = ucast (drop_bit 32 encoded AND 0xffff),
      oid_local = ucast (encoded AND 0xffffffff)\<rparr>"

section \<open>The packing is a bijection\<close>

lemma HasFlag_bits:
  "HasFlag flags kPostOnly = bit flags 0" "HasFlag flags kReduceOnly = bit flags 1"
  "HasFlag flags kHidden = bit flags 2" "HasFlag flags kIceberg = bit flags 3"
proof -
  have *: "flags AND push_bit n 1 \<noteq> 0 \<longleftrightarrow> bit flags n" for n
    by (simp add: bit_iff_and_push_bit_not_eq_0)
  show "HasFlag flags kPostOnly = bit flags 0" "HasFlag flags kReduceOnly = bit flags 1"
    "HasFlag flags kHidden = bit flags 2" "HasFlag flags kIceberg = bit flags 3"
    unfolding HasFlag_def kPostOnly_def kReduceOnly_def kHidden_def kIceberg_def by (simp_all only: *)
qed

lemma bit_order_key:
  "bit (order_key oid) n \<longleftrightarrow>
     n < 32 \<and> bit (oid_local oid) n
     \<or> 32 \<le> n \<and> n < 48 \<and> bit (oid_session oid) (n - 32)
     \<or> 48 \<le> n \<and> n < 64 \<and> bit (oid_market oid) (n - 48)"
  unfolding order_key_def by (auto simp: bit_simps dest: bit_imp_le_length)

lemma and_low16: "(x :: u64) AND 0xffff = take_bit 16 x"
  and and_low32: "(x :: u64) AND 0xffffffff = take_bit 32 x"
  by (simp_all add: take_bit_eq_mask mask_eq_exp_minus_1)

lemma decode_order_key [simp]: "decode_order_id (order_key oid) = oid"
proof -
  have "ucast (drop_bit 48 (order_key oid)) = oid_market oid"
    by (rule bit_eqI) (simp add: bit_simps bit_order_key)
  moreover have "ucast (drop_bit 32 (order_key oid) AND 0xffff) = oid_session oid"
    by (rule bit_eqI) (simp add: bit_simps bit_order_key and_low16)
  moreover have "ucast (order_key oid AND 0xffffffff) = oid_local oid"
    by (rule bit_eqI) (simp add: bit_simps bit_order_key and_low32)
  ultimately show ?thesis by (simp add: decode_order_id_def)
qed

lemma order_key_decode [simp]: "order_key (decode_order_id v) = v"
proof (rule bit_word_eqI)
  fix n
  assume n: "n < LENGTH(64)"
  consider "n < 32" | "32 \<le> n" "n < 48" | "48 \<le> n" by linarith
  then show "bit (order_key (decode_order_id v)) n = bit v n"
    using n by cases (auto simp: bit_order_key decode_order_id_def bit_simps and_low16 and_low32)
qed

lemma order_key_inject [simp]: "order_key a = order_key b \<longleftrightarrow> a = b"
  by (metis decode_order_key)

text \<open>
  Packing an order identifier into its 64-bit key and unpacking it again are inverse to each
  other: the key \<open>OrderId::value()\<close> that indexes the order store identifies the order, and the
  daemon's \<open>decode_order_id\<close> recovers market, session and local sequence from a wire key.
\<close>

lemma order_id_roundtrip:
  "decode_order_id (order_key oid) = oid \<and> order_key (decode_order_id v) = v"
  by simp

lemma side_byte_roundtrip [simp]: "side_to_byte (side_of_byte b) = b"
  by (simp add: side_of_byte_def)

lemma side_of_byte_is_buy: "side_of_byte b = kBuy \<longleftrightarrow> b = 0"
  by (simp add: side_of_byte_def)

end
