(* ===== verification/Matching_Engine.thy ===== *)
theory Matching_Engine
  imports Types "HOL-Library.Monad_Syntax"
begin

text \<open>
  The price-time matching engine of \<open>libs/matcher\<close>, translated operation by operation.

  The C++ keeps every resting order in a node of an unordered map (\<open>book_orders\<close>, keyed by the packed
  order identifier) and threads the orders of one price through those nodes by raw \<open>prev\<close>/\<open>next\<close>
  pointers; a price level holds the ends of that list and two aggregate quantities. Nodes of an
  unordered map do not move, so a pointer to an order is modelled by the key of its node, a pointer
  to a price level by the book and the price of its node, and the pointer structure by an explicit
  store that every operation reads and updates. A read or write through a pointer to a node that is
  not there is undefined behaviour: it is \<open>None\<close> in the model, and so is a matching loop that never
  ends. The theory \<open>Matching_Refinement\<close> shows that neither can happen.

  Memory for the nodes comes from an arena that grows on demand; allocation failure is not modelled.
\<close>

section \<open>Data\<close>

record FillEvent =
  fe_maker_order :: OrderId
  fe_taker_order :: OrderId
  fe_quantity :: int
  fe_price :: int

record OrderRequest =
  rq_id :: OrderId
  rq_account :: AccountId
  rq_side :: Side
  rq_quantity :: int
  rq_price :: int
  rq_display_quantity :: int
  rq_tif :: TimeInForce
  rq_flags :: u16

record CancelRequest =
  cr_id :: OrderId

record ReplaceRequest =
  rp_id :: OrderId
  rp_new_quantity :: int
  rp_new_price :: int
  rp_new_display_quantity :: int
  rp_new_tif :: TimeInForce
  rp_new_flags :: u16

record OrderResult =
  accepted :: bool
  fully_filled :: bool
  resting :: bool
  reject_code :: u16
  fills :: "FillEvent list"

record CancelResult =
  cancelled :: bool
  cancel_reject_code :: u16

record ReplaceResult =
  rr_accepted :: bool
  rr_resting :: bool
  rr_reject_code :: u16
  rr_fills :: "FillEvent list"

definition empty_order_result :: OrderResult where
  "empty_order_result =
     \<lparr>accepted = False, fully_filled = False, resting = False, reject_code = 0, fills = []\<rparr>"

definition kRejectUnknownMarket :: u16 where "kRejectUnknownMarket = 1001"
definition kRejectInsufficientLiquidity :: u16 where "kRejectInsufficientLiquidity = 1002"
definition kRejectPostOnlyWouldCross :: u16 where "kRejectPostOnlyWouldCross = 1003"
definition kRejectOrderNotFound :: u16 where "kRejectOrderNotFound = 1004"
definition kRejectInvalidQuantity :: u16 where "kRejectInvalidQuantity = 1005"
definition kRejectDuplicateOrderId :: u16 where "kRejectDuplicateOrderId = 1006"
definition kRejectInvalidDisplayQuantity :: u16 where "kRejectInvalidDisplayQuantity = 1007"

lemmas reject_code_defs =
  kRejectUnknownMarket_def kRejectInsufficientLiquidity_def kRejectPostOnlyWouldCross_def
  kRejectOrderNotFound_def kRejectInvalidQuantity_def kRejectDuplicateOrderId_def
  kRejectInvalidDisplayQuantity_def

text \<open>The two books of a market; with a price, the address of a price level.\<close>

datatype Book = Bids | Asks

type_synonym OrderPtr = u64
type_synonym LevelPtr = "Book \<times> int"

record OrderRecord =
  rec_request :: OrderRequest
  remaining :: int
  display_remaining :: int
  display_size :: int
  rec_level :: "LevelPtr option"
  rec_prev :: "OrderPtr option"
  rec_next :: "OrderPtr option"
  fifo_seq :: u64

record PriceLevel =
  level_head :: "OrderPtr option"
  level_tail :: "OrderPtr option"
  total_qty :: int
  visible_qty :: int

type_synonym OrderStore = "OrderPtr \<rightharpoonup> OrderRecord"
type_synonym LevelMap = "(int \<times> PriceLevel) list"

record MarketShard =
  book_orders :: OrderStore
  bids :: LevelMap
  asks :: LevelMap
  next_sequence :: u64

definition new_shard :: MarketShard where
  "new_shard = \<lparr>book_orders = Map.empty, bids = [], asks = [], next_sequence = 1\<rparr>"

definition empty_level :: PriceLevel where
  "empty_level = \<lparr>level_head = None, level_tail = None, total_qty = 0, visible_qty = 0\<rparr>"

type_synonym MatchingEngine = "MarketId \<rightharpoonup> MarketShard"

section \<open>Order records\<close>

definition is_hidden :: "OrderRecord \<Rightarrow> bool" where
  "is_hidden r = HasFlag (rq_flags (rec_request r)) kHidden"

definition is_iceberg :: "OrderRecord \<Rightarrow> bool" where
  "is_iceberg r = HasFlag (rq_flags (rec_request r)) kIceberg"

definition refresh_display :: "OrderRecord \<Rightarrow> OrderRecord" where
  "refresh_display r =
     (if is_hidden r then r\<lparr>display_remaining := 0\<rparr>
      else if is_iceberg r \<and> display_size r > 0
        then r\<lparr>display_remaining := min (display_size r) (remaining r)\<rparr>
      else r\<lparr>display_remaining := remaining r\<rparr>)"

section \<open>Price levels: an intrusive doubly linked list\<close>

text \<open>A write through a pointer: \<open>None\<close> when the pointer dangles.\<close>

definition write_record :: "OrderPtr \<Rightarrow> (OrderRecord \<Rightarrow> OrderRecord) \<Rightarrow> OrderStore \<Rightarrow> OrderStore option" where
  "write_record p f st = (case st p of None \<Rightarrow> None | Some r \<Rightarrow> Some (st(p \<mapsto> f r)))"

definition push_back ::
  "LevelPtr \<Rightarrow> OrderPtr \<Rightarrow> PriceLevel \<Rightarrow> OrderStore \<Rightarrow> (PriceLevel \<times> OrderStore) option" where
  "push_back this p lvl st = do {
     st1 \<leftarrow> write_record p (\<lambda>r. r\<lparr>rec_prev := level_tail lvl, rec_next := None\<rparr>) st;
     (lvl2, st2) \<leftarrow> (case level_tail lvl of
         Some t \<Rightarrow> do { st' \<leftarrow> write_record t (\<lambda>r. r\<lparr>rec_next := Some p\<rparr>) st1; Some (lvl, st') }
       | None \<Rightarrow> Some (lvl\<lparr>level_head := Some p\<rparr>, st1));
     st3 \<leftarrow> write_record p (\<lambda>r. r\<lparr>rec_level := Some this\<rparr>) st2;
     r \<leftarrow> st3 p;
     Some (lvl2\<lparr>level_tail := Some p,
                total_qty := i64 (total_qty lvl2 + remaining r),
                visible_qty := i64 (visible_qty lvl2 + display_remaining r)\<rparr>, st3)
   }"

definition level_remove ::
  "OrderPtr \<Rightarrow> PriceLevel \<Rightarrow> OrderStore \<Rightarrow> (PriceLevel \<times> OrderStore) option" where
  "level_remove p lvl st = do {
     r \<leftarrow> st p;
     let lvl1 = lvl\<lparr>total_qty := i64 (total_qty lvl - remaining r),
                    visible_qty := i64 (visible_qty lvl - display_remaining r)\<rparr>;
     (lvl2, st2) \<leftarrow> (case rec_prev r of
         Some q \<Rightarrow> do { st' \<leftarrow> write_record q (\<lambda>x. x\<lparr>rec_next := rec_next r\<rparr>) st; Some (lvl1, st') }
       | None \<Rightarrow> Some (lvl1\<lparr>level_head := rec_next r\<rparr>, st));
     (lvl3, st3) \<leftarrow> (case rec_next r of
         Some q \<Rightarrow> do { st' \<leftarrow> write_record q (\<lambda>x. x\<lparr>rec_prev := rec_prev r\<rparr>) st2; Some (lvl2, st') }
       | None \<Rightarrow> Some (lvl2\<lparr>level_tail := rec_prev r\<rparr>, st2));
     st4 \<leftarrow> write_record p (\<lambda>x. x\<lparr>rec_prev := None, rec_next := None, rec_level := None\<rparr>) st3;
     Some (lvl3, st4)
   }"

definition update_after_fill ::
  "OrderPtr \<Rightarrow> int \<Rightarrow> PriceLevel \<Rightarrow> OrderStore \<Rightarrow> (PriceLevel \<times> OrderStore) option" where
  "update_after_fill p filled_qty lvl st = do {
     r \<leftarrow> st p;
     let total1 = i64 (total_qty lvl - filled_qty);
     let old_display = display_remaining r;
     st1 \<leftarrow> write_record p refresh_display st;
     r1 \<leftarrow> st1 p;
     let new_display = display_remaining r1;
     Some (lvl\<lparr>total_qty := total1,
               visible_qty := i64 (i64 (visible_qty lvl - old_display) + new_display)\<rparr>, st1)
   }"

definition level_empty :: "PriceLevel \<Rightarrow> bool" where
  "level_empty lvl \<longleftrightarrow> level_head lvl = None"

section \<open>Matching\<close>

definition crosses :: "Side \<Rightarrow> int \<Rightarrow> int \<Rightarrow> bool" where
  "crosses side taker_price maker_price =
     (if side = kBuy then maker_price \<le> taker_price else maker_price \<ge> taker_price)"

text \<open>The loop of \<open>fillable_quantity\<close> over the opposite book, in its order, with the running total.\<close>

fun fillable_loop :: "OrderRequest \<Rightarrow> int \<Rightarrow> LevelMap \<Rightarrow> int" where
  "fillable_loop req acc [] = acc"
| "fillable_loop req acc ((price, lvl) # rest) =
     (if \<not> crosses (rq_side req) (rq_price req) price then acc
      else let acc' = i64 (acc + total_qty lvl)
           in if acc' \<ge> rq_quantity req then acc' else fillable_loop req acc' rest)"

definition fillable_quantity :: "MarketShard \<Rightarrow> OrderRequest \<Rightarrow> int" where
  "fillable_quantity shard req =
     (if rq_side req = kBuy then fillable_loop req 0 (asks shard) else fillable_loop req 0 (bids shard))"

text \<open>
  The variables the matching loop of one level works on: the order store, the level, the taker's
  local record and the fills so far.
\<close>

record MatchState =
  ms_orders :: OrderStore
  ms_level :: PriceLevel
  ms_taker :: OrderRecord
  ms_fills :: "FillEvent list"

text \<open>
  One iteration of the inner loop of \<open>match_order\<close> at a non-null maker: trade, update the level,
  record the fill, and unlink the maker when it is exhausted. The result is the next maker.
\<close>

definition match_step :: "int \<Rightarrow> OrderPtr \<Rightarrow> MatchState \<Rightarrow> (OrderPtr option \<times> MatchState) option" where
  "match_step maker_price p ms = do {
     m \<leftarrow> ms_orders ms p;
     let taker = ms_taker ms;
     let traded = min (remaining taker) (remaining m);
     let taker1 = taker\<lparr>remaining := i64 (remaining taker - traded)\<rparr>;
     st1 \<leftarrow> write_record p (\<lambda>r. r\<lparr>remaining := i64 (remaining r - traded)\<rparr>) (ms_orders ms);
     (lvl2, st2) \<leftarrow> update_after_fill p traded (ms_level ms) st1;
     let fill = \<lparr>fe_maker_order = rq_id (rec_request m), fe_taker_order = rq_id (rec_request taker),
                 fe_quantity = traded, fe_price = maker_price\<rparr>;
     m2 \<leftarrow> st2 p;
     if remaining m2 = 0 then do {
       (lvl3, st3) \<leftarrow> level_remove p lvl2 st2;
       Some (rec_next m2,
             \<lparr>ms_orders = st3(order_key (rq_id (rec_request m2)) := None), ms_level = lvl3,
              ms_taker = taker1, ms_fills = ms_fills ms @ [fill]\<rparr>)
     } else
       Some (rec_next m2,
             \<lparr>ms_orders = st2, ms_level = lvl2, ms_taker = taker1, ms_fills = ms_fills ms @ [fill]\<rparr>)
   }"

partial_function (option) match_level :: "int \<Rightarrow> OrderPtr option \<Rightarrow> MatchState \<Rightarrow> MatchState option" where
  "match_level maker_price maker ms =
     (case maker of
        None \<Rightarrow> Some ms
      | Some p \<Rightarrow>
          if remaining (ms_taker ms) > 0
          then Option.bind (match_step maker_price p ms)
                 (\<lambda>(maker', ms'). match_level maker_price maker' ms')
          else Some ms)"

declare match_level.simps [code]

text \<open>
  \<open>consume_book\<close>: the outer loop over the levels of a book, which erases the levels it empties.
\<close>

fun consume_book ::
  "LevelMap \<Rightarrow> OrderRecord \<Rightarrow> OrderStore \<Rightarrow> FillEvent list
    \<Rightarrow> (LevelMap \<times> OrderRecord \<times> OrderStore \<times> FillEvent list) option" where
  "consume_book [] taker st fs = Some ([], taker, st, fs)"
| "consume_book ((maker_price, lvl) # rest) taker st fs =
     (if \<not> remaining taker > 0 then Some ((maker_price, lvl) # rest, taker, st, fs)
      else if \<not> crosses (rq_side (rec_request taker)) (rq_price (rec_request taker)) maker_price
        then Some ((maker_price, lvl) # rest, taker, st, fs)
      else do {
        ms \<leftarrow> match_level maker_price (level_head lvl)
               \<lparr>ms_orders = st, ms_level = lvl, ms_taker = taker, ms_fills = fs\<rparr>;
        (rest', taker', st', fs') \<leftarrow> consume_book rest (ms_taker ms) (ms_orders ms) (ms_fills ms);
        Some (if level_empty (ms_level ms) then rest' else (maker_price, ms_level ms) # rest',
              taker', st', fs')
      })"

definition match_order ::
  "MarketShard \<Rightarrow> OrderRecord \<Rightarrow> FillEvent list \<Rightarrow> (MarketShard \<times> OrderRecord \<times> FillEvent list) option" where
  "match_order shard taker fs =
     (if rq_side (rec_request taker) = kBuy then do {
        (book', taker', st', fs') \<leftarrow> consume_book (asks shard) taker (book_orders shard) fs;
        Some (shard\<lparr>asks := book', book_orders := st'\<rparr>, taker', fs')
      } else do {
        (book', taker', st', fs') \<leftarrow> consume_book (bids shard) taker (book_orders shard) fs;
        Some (shard\<lparr>bids := book', book_orders := st'\<rparr>, taker', fs')
      })"

section \<open>Resting and removing orders\<close>

definition rest_order :: "MarketShard \<Rightarrow> OrderPtr \<Rightarrow> MarketShard option" where
  "rest_order shard p = do {
     r \<leftarrow> book_orders shard p;
     let price = rq_price (rec_request r);
     if rq_side (rec_request r) = kBuy then do {
       let lvl = (case omap_find price (bids shard) of None \<Rightarrow> empty_level | Some l \<Rightarrow> l);
       (lvl', st') \<leftarrow> push_back (Bids, price) p lvl (book_orders shard);
       Some (shard\<lparr>bids := omap_put (>) price lvl' (bids shard), book_orders := st'\<rparr>)
     } else do {
       let lvl = (case omap_find price (asks shard) of None \<Rightarrow> empty_level | Some l \<Rightarrow> l);
       (lvl', st') \<leftarrow> push_back (Asks, price) p lvl (book_orders shard);
       Some (shard\<lparr>asks := omap_put (<) price lvl' (asks shard), book_orders := st'\<rparr>)
     }
   }"

definition remove_order_from_book :: "MarketShard \<Rightarrow> OrderPtr \<Rightarrow> MarketShard option" where
  "remove_order_from_book shard p = do {
     r \<leftarrow> book_orders shard p;
     let price = rq_price (rec_request r);
     if rec_level r = None then Some shard
     else if rq_side (rec_request r) = kBuy then
       (case omap_find price (bids shard) of
          None \<Rightarrow> Some shard
        | Some lvl \<Rightarrow> do {
            (lvl', st') \<leftarrow> level_remove p lvl (book_orders shard);
            Some (shard\<lparr>bids := (if level_empty lvl' then omap_erase price (bids shard)
                                 else omap_put (>) price lvl' (bids shard)),
                        book_orders := st'\<rparr>)
          })
     else
       (case omap_find price (asks shard) of
          None \<Rightarrow> Some shard
        | Some lvl \<Rightarrow> do {
            (lvl', st') \<leftarrow> level_remove p lvl (book_orders shard);
            Some (shard\<lparr>asks := (if level_empty lvl' then omap_erase price (asks shard)
                                 else omap_put (<) price lvl' (asks shard)),
                        book_orders := st'\<rparr>)
          })
   }"

section \<open>Placing an order\<close>

text \<open>The taker's local record, with the display fields its flags call for.\<close>

definition init_taker :: "OrderRequest \<Rightarrow> u64 \<Rightarrow> OrderRecord" where
  "init_taker order seq =
     \<lparr>rec_request = order, remaining = rq_quantity order,
      display_remaining =
        (if HasFlag (rq_flags order) kHidden then 0
         else if HasFlag (rq_flags order) kIceberg then min (rq_display_quantity order) (rq_quantity order)
         else rq_quantity order),
      display_size =
        (if HasFlag (rq_flags order) kHidden then 0
         else if HasFlag (rq_flags order) kIceberg then rq_display_quantity order
         else rq_quantity order),
      rec_level = None, rec_prev = None, rec_next = None, fifo_seq = seq\<rparr>"

text \<open>The post-only test of \<open>place_order\<close>: would the order cross the best opposite price?\<close>

definition would_cross :: "MarketShard \<Rightarrow> OrderRequest \<Rightarrow> bool" where
  "would_cross shard order =
     (case (if rq_side order = kBuy then asks shard else bids shard) of
        [] \<Rightarrow> False
      | (best_price, _) # _ \<Rightarrow> crosses (rq_side order) (rq_price order) best_price)"

definition place_order :: "MarketShard \<Rightarrow> OrderRequest \<Rightarrow> (OrderResult \<times> MarketShard) option" where
  "place_order shard order =
     (if HasFlag (rq_flags order) kPostOnly \<and> would_cross shard order
      then Some (empty_order_result\<lparr>reject_code := kRejectPostOnlyWouldCross\<rparr>, shard)
      else if rq_tif order = kFok \<and> fillable_quantity shard order < rq_quantity order
      then Some (empty_order_result\<lparr>reject_code := kRejectInsufficientLiquidity\<rparr>, shard)
      else do {
        let taker = init_taker order (next_sequence shard);
        let shard1 = shard\<lparr>next_sequence := next_sequence shard + 1\<rparr>;
        (shard2, taker2, fs) \<leftarrow> match_order shard1 taker [];
        let result = empty_order_result\<lparr>fills := fs\<rparr>;
        if remaining taker2 > 0 then
          if rq_tif order = kIoc \<or> rq_tif order = kFok
          then Some (result\<lparr>accepted := True\<rparr>, shard2)
          else do {
            let taker3 = refresh_display taker2;
            let encoded = order_key (rq_id order);
            if book_orders shard2 encoded \<noteq> None
            then Some (result\<lparr>reject_code := kRejectDuplicateOrderId\<rparr>, shard2)
            else do {
              shard3 \<leftarrow> rest_order (shard2\<lparr>book_orders := (book_orders shard2)(encoded \<mapsto> taker3)\<rparr>) encoded;
              Some (result\<lparr>resting := True, accepted := True\<rparr>, shard3)
            }
          }
        else Some (result\<lparr>fully_filled := True, accepted := True\<rparr>, shard2)
      })"

section \<open>The engine's operations\<close>

definition add_market :: "MarketId \<Rightarrow> MatchingEngine \<Rightarrow> MatchingEngine" where
  "add_market m eng = (if eng m = None then eng(m \<mapsto> new_shard) else eng)"

definition clear_market :: "MarketId \<Rightarrow> MatchingEngine \<Rightarrow> MatchingEngine" where
  "clear_market m eng = (eng(m := None))(m \<mapsto> new_shard)"

definition ensure_market :: "MarketId \<Rightarrow> MatchingEngine \<Rightarrow> MarketShard" where
  "ensure_market m eng = (case eng m of None \<Rightarrow> new_shard | Some s \<Rightarrow> s)"

definition submit :: "OrderRequest \<Rightarrow> MatchingEngine \<Rightarrow> (OrderResult \<times> MatchingEngine) option" where
  "submit request eng =
     (if rq_quantity request \<le> 0
      then Some (empty_order_result\<lparr>reject_code := kRejectInvalidQuantity\<rparr>, eng)
      else if HasFlag (rq_flags request) kIceberg
           \<and> (rq_display_quantity request \<le> 0 \<or> rq_display_quantity request > rq_quantity request)
      then Some (empty_order_result\<lparr>reject_code := kRejectInvalidDisplayQuantity\<rparr>, eng)
      else do {
        let m = oid_market (rq_id request);
        (result, shard') \<leftarrow> place_order (ensure_market m eng) request;
        Some (result, eng(m \<mapsto> shard'))
      })"

definition cancel :: "CancelRequest \<Rightarrow> MatchingEngine \<Rightarrow> (CancelResult \<times> MatchingEngine) option" where
  "cancel request eng =
     (case eng (oid_market (cr_id request)) of
        None \<Rightarrow> Some (\<lparr>cancelled = False, cancel_reject_code = kRejectUnknownMarket\<rparr>, eng)
      | Some shard \<Rightarrow>
          (let encoded = order_key (cr_id request) in
           if book_orders shard encoded = None
           then Some (\<lparr>cancelled = False, cancel_reject_code = kRejectOrderNotFound\<rparr>, eng)
           else do {
             shard1 \<leftarrow> remove_order_from_book shard encoded;
             let shard2 = shard1\<lparr>book_orders := (book_orders shard1)(encoded := None)\<rparr>;
             Some (\<lparr>cancelled = True, cancel_reject_code = 0\<rparr>, eng(oid_market (cr_id request) \<mapsto> shard2))
           }))"

definition replace :: "ReplaceRequest \<Rightarrow> MatchingEngine \<Rightarrow> (ReplaceResult \<times> MatchingEngine) option" where
  "replace request eng =
     (case eng (oid_market (rp_id request)) of
        None \<Rightarrow> Some (\<lparr>rr_accepted = False, rr_resting = False,
                       rr_reject_code = kRejectUnknownMarket, rr_fills = []\<rparr>, eng)
      | Some shard \<Rightarrow>
          (let encoded = order_key (rp_id request) in
           case book_orders shard encoded of
             None \<Rightarrow> Some (\<lparr>rr_accepted = False, rr_resting = False,
                            rr_reject_code = kRejectOrderNotFound, rr_fills = []\<rparr>, eng)
           | Some record_copy \<Rightarrow> do {
               shard1 \<leftarrow> remove_order_from_book shard encoded;
               let shard2 = shard1\<lparr>book_orders := (book_orders shard1)(encoded := None)\<rparr>;
               let new_req = (rec_request record_copy)
                     \<lparr>rq_price := rp_new_price request, rq_quantity := rp_new_quantity request,
                      rq_display_quantity := rp_new_display_quantity request,
                      rq_tif := rp_new_tif request, rq_flags := rp_new_flags request,
                      rq_id := rp_id request\<rparr>;
               (result, shard3) \<leftarrow> place_order shard2 new_req;
               Some (\<lparr>rr_accepted = accepted result, rr_resting = resting result,
                      rr_reject_code = reject_code result, rr_fills = fills result\<rparr>,
                     eng(oid_market (rp_id request) \<mapsto> shard3))
             }))"

end
