(* ===== verification/Book_Spec.thy ===== *)
theory Book_Spec
  imports Matching_Engine
begin

text \<open>
  The abstract specification of the matching engine: a book is the list of its price levels, best
  price first, and a level is the list of its orders, oldest first. There are no pointers and no
  cached totals; an order is an \<open>OrderRecord\<close> whose pointer fields are null. Matching takes orders
  from the front of the opposite book. The lemmas of this theory are about the specification alone;
  \<open>Matching_Refinement\<close> carries them to the code's operations.
\<close>

section \<open>Books\<close>

type_synonym Queue = "OrderRecord list"
type_synonym QueueMap = "(int \<times> Queue) list"

record BookState =
  bs_bids :: QueueMap
  bs_asks :: QueueMap
  bs_next :: u64

definition okey :: "OrderRecord \<Rightarrow> OrderPtr" where
  "okey ord = order_key (rq_id (rec_request ord))"

definition orders_of :: "QueueMap \<Rightarrow> Queue" where
  "orders_of b = concat (map snd b)"

definition all_orders :: "BookState \<Rightarrow> Queue" where
  "all_orders bs = orders_of (bs_bids bs) @ orders_of (bs_asks bs)"

definition keys :: "Queue \<Rightarrow> OrderPtr set" where
  "keys os = okey ` set os"

definition dkeys :: "Queue \<Rightarrow> bool" where
  "dkeys os \<longleftrightarrow> distinct (map okey os)"

definition volume :: "Queue \<Rightarrow> int" where
  "volume os = sum_list (map remaining os)"

definition display_volume :: "Queue \<Rightarrow> int" where
  "display_volume os = sum_list (map display_remaining os)"

definition book_side :: "Side \<Rightarrow> Book" where
  "book_side side = (if side = kBuy then Bids else Asks)"

text \<open>The book an order of this side trades against, and the one it rests on.\<close>

definition opposite_book :: "Side \<Rightarrow> BookState \<Rightarrow> QueueMap" where
  "opposite_book side bs = (if side = kBuy then bs_asks bs else bs_bids bs)"

definition own_book :: "Side \<Rightarrow> BookState \<Rightarrow> QueueMap" where
  "own_book side bs = (if side = kBuy then bs_bids bs else bs_asks bs)"

section \<open>The specification's operations\<close>

definition fill_of :: "OrderId \<Rightarrow> int \<Rightarrow> int \<Rightarrow> OrderRecord \<Rightarrow> FillEvent" where
  "fill_of tid price q m =
     \<lparr>fe_maker_order = rq_id (rec_request m), fe_taker_order = tid, fe_quantity = q, fe_price = price\<rparr>"

fun fill_queue :: "OrderId \<Rightarrow> int \<Rightarrow> int \<Rightarrow> Queue \<Rightarrow> Queue \<times> int \<times> FillEvent list" where
  "fill_queue tid price q [] = ([], q, [])"
| "fill_queue tid price q (m # ms) =
     (if q \<le> 0 then (m # ms, q, [])
      else if remaining m \<le> q then
        (let (ms', q', fs) = fill_queue tid price (q - remaining m) ms
         in (ms', q', fill_of tid price (remaining m) m # fs))
      else (refresh_display (m\<lparr>remaining := remaining m - q\<rparr>) # ms, 0, [fill_of tid price q m]))"

fun sweep :: "Side \<Rightarrow> int \<Rightarrow> OrderId \<Rightarrow> int \<Rightarrow> QueueMap \<Rightarrow> QueueMap \<times> int \<times> FillEvent list" where
  "sweep side limit tid q [] = ([], q, [])"
| "sweep side limit tid q ((price, os) # rest) =
     (if q \<le> 0 \<or> \<not> crosses side limit price then ((price, os) # rest, q, [])
      else
        (let (os', q1, fs1) = fill_queue tid price q os;
             (rest', q2, fs2) = sweep side limit tid q1 rest
         in (if os' = [] then rest' else (price, os') # rest', q2, fs1 @ fs2)))"

definition queue_at :: "int \<Rightarrow> QueueMap \<Rightarrow> Queue" where
  "queue_at price b = (case omap_find price b of None \<Rightarrow> [] | Some os \<Rightarrow> os)"

definition enqueue :: "(int \<Rightarrow> int \<Rightarrow> bool) \<Rightarrow> OrderRecord \<Rightarrow> QueueMap \<Rightarrow> QueueMap" where
  "enqueue lt r b =
     omap_put lt (rq_price (rec_request r)) (queue_at (rq_price (rec_request r)) b @ [r]) b"

definition without :: "OrderPtr \<Rightarrow> QueueMap \<Rightarrow> QueueMap" where
  "without k b =
     filter (\<lambda>(p, os). os \<noteq> []) (map (\<lambda>(p, os). (p, filter (\<lambda>ord. okey ord \<noteq> k) os)) b)"

definition spec_remove :: "OrderPtr \<Rightarrow> BookState \<Rightarrow> BookState" where
  "spec_remove k bs = bs\<lparr>bs_bids := without k (bs_bids bs), bs_asks := without k (bs_asks bs)\<rparr>"

definition spec_rest :: "OrderRecord \<Rightarrow> BookState \<Rightarrow> BookState" where
  "spec_rest r bs =
     (if rq_side (rec_request r) = kBuy
      then bs\<lparr>bs_bids := enqueue (>) r (bs_bids bs)\<rparr>
      else bs\<lparr>bs_asks := enqueue (<) r (bs_asks bs)\<rparr>)"

definition spec_match :: "OrderRequest \<Rightarrow> BookState \<Rightarrow> BookState \<times> int \<times> FillEvent list" where
  "spec_match order bs =
     (let (b', q', fs) = sweep (rq_side order) (rq_price order) (rq_id order) (rq_quantity order)
                           (opposite_book (rq_side order) bs)
      in (if rq_side order = kBuy then bs\<lparr>bs_asks := b'\<rparr> else bs\<lparr>bs_bids := b'\<rparr>, q', fs))"

text \<open>The volume that an order of this side and limit can trade with.\<close>

fun crossing_volume :: "Side \<Rightarrow> int \<Rightarrow> QueueMap \<Rightarrow> int" where
  "crossing_volume side limit [] = 0"
| "crossing_volume side limit ((price, os) # rest) =
     (if crosses side limit price then volume os + crossing_volume side limit rest else 0)"

definition available :: "BookState \<Rightarrow> OrderRequest \<Rightarrow> int" where
  "available bs order = crossing_volume (rq_side order) (rq_price order) (opposite_book (rq_side order) bs)"

definition best_crosses :: "BookState \<Rightarrow> OrderRequest \<Rightarrow> bool" where
  "best_crosses bs order =
     (case opposite_book (rq_side order) bs of
        [] \<Rightarrow> False
      | (best, _) # _ \<Rightarrow> crosses (rq_side order) (rq_price order) best)"

definition resting_record :: "OrderRequest \<Rightarrow> u64 \<Rightarrow> int \<Rightarrow> OrderRecord" where
  "resting_record order seq q = refresh_display ((init_taker order seq)\<lparr>remaining := q\<rparr>)"

text \<open>
  Placing an order. The parameter \<open>liquidity\<close> is the figure that the fill-or-kill test compares with
  the order's quantity: the specification means \<open>available\<close>; the code computes
  \<open>fillable_quantity\<close>, which agrees as long as the totals fit 64 bits.
\<close>

definition spec_place :: "int \<Rightarrow> OrderRequest \<Rightarrow> BookState \<Rightarrow> OrderResult \<times> BookState" where
  "spec_place liquidity order bs =
     (if HasFlag (rq_flags order) kPostOnly \<and> best_crosses bs order
      then (empty_order_result\<lparr>reject_code := kRejectPostOnlyWouldCross\<rparr>, bs)
      else if rq_tif order = kFok \<and> liquidity < rq_quantity order
      then (empty_order_result\<lparr>reject_code := kRejectInsufficientLiquidity\<rparr>, bs)
      else
        (let (bs2, q, fs) = spec_match order (bs\<lparr>bs_next := bs_next bs + 1\<rparr>);
             result = empty_order_result\<lparr>fills := fs\<rparr>
         in if q > 0 then
              if rq_tif order = kIoc \<or> rq_tif order = kFok then (result\<lparr>accepted := True\<rparr>, bs2)
              else if order_key (rq_id order) \<in> keys (all_orders bs2)
              then (result\<lparr>reject_code := kRejectDuplicateOrderId\<rparr>, bs2)
              else (result\<lparr>resting := True, accepted := True\<rparr>,
                    spec_rest (resting_record order (bs_next bs) q) bs2)
            else (result\<lparr>fully_filled := True, accepted := True\<rparr>, bs2)))"

text \<open>
  The liquidity figure as 64-bit arithmetic gives it, and placing an order with that figure: this is
  the exact function the engine computes on every book.
\<close>

fun book_fillable_loop :: "OrderRequest \<Rightarrow> int \<Rightarrow> QueueMap \<Rightarrow> int" where
  "book_fillable_loop req acc [] = acc"
| "book_fillable_loop req acc ((price, os) # rest) =
     (if \<not> crosses (rq_side req) (rq_price req) price then acc
      else let acc' = i64 (acc + volume os)
           in if acc' \<ge> rq_quantity req then acc' else book_fillable_loop req acc' rest)"

definition book_fillable :: "BookState \<Rightarrow> OrderRequest \<Rightarrow> int" where
  "book_fillable bs req = book_fillable_loop req 0 (opposite_book (rq_side req) bs)"

definition book_place :: "OrderRequest \<Rightarrow> BookState \<Rightarrow> OrderResult \<times> BookState" where
  "book_place order bs = spec_place (book_fillable bs order) order bs"

section \<open>Well-formed books\<close>

text \<open>
  A resting order is on the book of its side at the level of its price, has a positive quantity
  left, shows what its flags call for, and has no pointers of its own in the specification.
\<close>

definition order_ok :: "Book \<Rightarrow> int \<Rightarrow> OrderRecord \<Rightarrow> bool" where
  "order_ok b p ord \<longleftrightarrow>
     rq_price (rec_request ord) = p \<and> book_side (rq_side (rec_request ord)) = b
     \<and> 0 < remaining ord \<and> in64 (remaining ord) \<and> refresh_display ord = ord
     \<and> rec_level ord = None \<and> rec_prev ord = None \<and> rec_next ord = None"

definition book_ok :: "(int \<Rightarrow> int \<Rightarrow> bool) \<Rightarrow> Book \<Rightarrow> QueueMap \<Rightarrow> bool" where
  "book_ok lt side b \<longleftrightarrow>
     osorted lt b \<and> (\<forall>(p, os) \<in> set b. os \<noteq> [] \<and> (\<forall>ord \<in> set os. order_ok side p ord))"

definition uncrossed :: "BookState \<Rightarrow> bool" where
  "uncrossed bs \<longleftrightarrow> (\<forall>pb \<in> fst ` set (bs_bids bs). \<forall>pa \<in> fst ` set (bs_asks bs). pb < pa)"

definition wf_book :: "BookState \<Rightarrow> bool" where
  "wf_book bs \<longleftrightarrow>
     book_ok (>) Bids (bs_bids bs) \<and> book_ok (<) Asks (bs_asks bs)
     \<and> dkeys (all_orders bs) \<and> uncrossed bs"

section \<open>Basic lemmas\<close>

lemma orders_of_simps [simp]:
  "orders_of [] = []" "orders_of ((p, os) # b) = os @ orders_of b"
  by (simp_all add: orders_of_def)

lemma orders_of_append [simp]: "orders_of (a @ b) = orders_of a @ orders_of b"
  by (simp add: orders_of_def)

lemma keys_simps [simp]:
  "keys [] = {}" "keys (ord # os) = insert (okey ord) (keys os)" "keys (a @ b) = keys a \<union> keys b"
  by (auto simp: keys_def)

lemma dkeys_simps [simp]:
  "dkeys []" "dkeys (ord # os) \<longleftrightarrow> okey ord \<notin> keys os \<and> dkeys os"
  "dkeys (a @ b) \<longleftrightarrow> dkeys a \<and> dkeys b \<and> keys a \<inter> keys b = {}"
  by (auto simp: dkeys_def keys_def)

lemma volume_simps [simp]:
  "volume [] = 0" "volume (ord # os) = remaining ord + volume os" "volume (a @ b) = volume a + volume b"
  by (simp_all add: volume_def)

lemma display_volume_simps [simp]:
  "display_volume [] = 0" "display_volume (ord # os) = display_remaining ord + display_volume os"
  "display_volume (a @ b) = display_volume a + display_volume b"
  by (simp_all add: display_volume_def)

lemma refresh_display_fields [simp]:
  "rec_request (refresh_display r) = rec_request r" "remaining (refresh_display r) = remaining r"
  "display_size (refresh_display r) = display_size r" "rec_level (refresh_display r) = rec_level r"
  "rec_prev (refresh_display r) = rec_prev r" "rec_next (refresh_display r) = rec_next r"
  "fifo_seq (refresh_display r) = fifo_seq r"
  by (simp_all add: refresh_display_def)

lemma refresh_display_idem [simp]: "refresh_display (refresh_display r) = refresh_display r"
  by (simp add: refresh_display_def is_hidden_def is_iceberg_def)

lemma okey_upd [simp]:
  "okey (refresh_display r) = okey r" "okey (r\<lparr>remaining := q\<rparr>) = okey r"
  "okey (r\<lparr>rec_level := lp\<rparr>) = okey r" "okey (r\<lparr>rec_prev := pv\<rparr>) = okey r"
  "okey (r\<lparr>rec_next := nx\<rparr>) = okey r"
  by (simp_all add: okey_def)

lemma book_ok_simps [simp]:
  "book_ok lt side []"
  "book_ok lt side ((p, os) # b) \<longleftrightarrow>
     os \<noteq> [] \<and> (\<forall>ord \<in> set os. order_ok side p ord) \<and> (\<forall>k' \<in> fst ` set b. lt p k') \<and> book_ok lt side b"
  by (auto simp: book_ok_def)

lemma set_orders_of: "ord \<in> set (orders_of b) \<longleftrightarrow> (\<exists>p os. (p, os) \<in> set b \<and> ord \<in> set os)"
  by (induction b) (auto, blast)

lemma book_ok_orderD:
  assumes "book_ok lt side b" and "ord \<in> set (orders_of b)"
  shows "order_ok side (rq_price (rec_request ord)) ord \<and> rq_price (rec_request ord) \<in> fst ` set b"
proof -
  obtain p os where po: "(p, os) \<in> set b" "ord \<in> set os"
    using assms(2) by (auto simp: set_orders_of)
  then have "order_ok side p ord" using assms(1) by (auto simp: book_ok_def)
  moreover from this have "rq_price (rec_request ord) = p" by (simp add: order_ok_def)
  ultimately show ?thesis using po(1) by (auto intro: rev_image_eqI)
qed

lemma volume_nonneg: "(\<forall>ord \<in> set os. 0 < remaining ord) \<Longrightarrow> 0 \<le> volume os"
  by (induction os) auto

lemma volume_pos: "(\<forall>ord \<in> set os. 0 < remaining ord) \<Longrightarrow> os \<noteq> [] \<Longrightarrow> 0 < volume os"
  using volume_nonneg [of "tl os"] by (cases os) auto

lemma crossing_volume_nonneg:
  "\<forall>ord \<in> set (orders_of b). 0 < remaining ord \<Longrightarrow> 0 \<le> crossing_volume side limit b"
proof (induction b)
  case Nil
  then show ?case by simp
next
  case (Cons x b)
  then show ?case using volume_nonneg [of "snd x"] by (cases x) auto
qed

section \<open>Filling a queue\<close>

definition filled :: "FillEvent list \<Rightarrow> int" where
  "filled fs = sum_list (map fe_quantity fs)"

lemma filled_simps [simp]:
  "filled [] = 0" "filled (f # fs) = fe_quantity f + filled fs" "filled (a @ b) = filled a + filled b"
  by (simp_all add: filled_def)

lemma fill_of_fields [simp]:
  "fe_quantity (fill_of tid p q m) = q" "fe_price (fill_of tid p q m) = p"
  "fe_maker_order (fill_of tid p q m) = rq_id (rec_request m)" "fe_taker_order (fill_of tid p q m) = tid"
  by (simp_all add: fill_of_def)

lemma fill_queue_keys: "fill_queue tid p q os = (os', q', fs) \<Longrightarrow> keys os' \<subseteq> keys os"
  by (induction os arbitrary: q os' q' fs) (auto split: if_splits prod.splits, blast)

lemma fill_queue_dkeys: "fill_queue tid p q os = (os', q', fs) \<Longrightarrow> dkeys os \<Longrightarrow> dkeys os'"
  by (induction os arbitrary: q os' q' fs) (auto split: if_splits prod.splits)

text \<open>What leaves the queue is what the taker gets.\<close>

lemma fill_queue_conserves:
  "fill_queue tid p q os = (os', q', fs) \<Longrightarrow> q' = q - filled fs \<and> volume os' = volume os - filled fs"
proof (induction os arbitrary: q os' q' fs)
  case Nil
  then show ?case by simp
next
  case (Cons m ms)
  then show ?case
    by (cases "fill_queue tid p (q - remaining m) ms") (force split: if_splits)
qed

lemma fill_queue_rest_nonneg: "fill_queue tid p q os = (os', q', fs) \<Longrightarrow> 0 \<le> q \<Longrightarrow> 0 \<le> q'"
  by (induction os arbitrary: q os' q' fs) (auto split: if_splits prod.splits)

lemma fill_queue_exhausts: "fill_queue tid p q os = (os', q', fs) \<Longrightarrow> 0 < q' \<Longrightarrow> os' = []"
  by (induction os arbitrary: q os' q' fs) (auto split: if_splits prod.splits)

lemma order_ok_partial:
  "order_ok side p m \<Longrightarrow> 0 \<le> q \<Longrightarrow> q < remaining m \<Longrightarrow>
     order_ok side p (refresh_display (m\<lparr>remaining := remaining m - q\<rparr>))"
  by (simp add: order_ok_def in64_sub_pos)

lemma fill_queue_order_ok:
  "fill_queue tid p q os = (os', q', fs) \<Longrightarrow> \<forall>ord \<in> set os. order_ok side p ord \<Longrightarrow>
     \<forall>ord \<in> set os'. order_ok side p ord"
  by (induction os arbitrary: q os' q' fs) (auto simp: order_ok_partial split: if_splits prod.splits)

lemma fill_queue_nonpos [simp]: "q \<le> 0 \<Longrightarrow> fill_queue tid p q os = (os, q, [])"
  by (cases os) simp_all

lemma fill_queue_between:
  "fill_queue tid p q os = (os', q', fs) \<Longrightarrow> \<forall>ord \<in> set os. 0 < remaining ord \<Longrightarrow> 0 \<le> q \<Longrightarrow>
     0 \<le> q' \<and> q' \<le> q"
proof (induction os arbitrary: q os' q' fs)
  case Nil
  then show ?case by simp
next
  case (Cons m ms)
  then show ?case
    by (cases "fill_queue tid p (q - remaining m) ms") (force split: if_splits)
qed

section \<open>Sweeping a book\<close>

text \<open>Case analysis of one step of a sweep, with the intermediate results named.\<close>

lemma sweep_Cons_cases:
  assumes "sweep side limit tid q ((price, os) # b) = (b', q', fs)"
  obtains
    (stop) "q \<le> 0 \<or> \<not> crosses side limit price" "b' = (price, os) # b" "q' = q" "fs = []"
  | (trade) os1 q1 fs1 b2 fs2 where "0 < q" "crosses side limit price"
      "fill_queue tid price q os = (os1, q1, fs1)" "sweep side limit tid q1 b = (b2, q', fs2)"
      "b' = (if os1 = [] then b2 else (price, os1) # b2)" "fs = fs1 @ fs2"
  using assms
  by (cases "fill_queue tid price q os"; cases "sweep side limit tid (fst (snd (fill_queue tid price q os))) b")
    (auto split: if_splits)

lemma sweep_keys: "sweep side limit tid q b = (b', q', fs) \<Longrightarrow> keys (orders_of b') \<subseteq> keys (orders_of b)"
proof (induction b arbitrary: q b' q' fs)
  case Nil
  then show ?case by simp
next
  case (Cons x b)
  obtain p os where x: "x = (p, os)" by (cases x)
  from Cons.prems [unfolded x] show ?case
    by (cases rule: sweep_Cons_cases) (auto simp: x dest!: Cons.IH fill_queue_keys split: if_splits)
qed

end
