(* ===== verification/Matching_Levels.thy ===== *)
theory Matching_Levels
  imports Book_Spec
begin

text \<open>
  The pointer structure of one price level: when an intrusive list in the order store represents a
  queue of orders, and what \<open>push_back\<close>, \<open>level_remove\<close>, \<open>update_after_fill\<close> and the matching loop
  \<open>match_level\<close> do to it. Each lemma states that the pointer operation returns (no dangling pointer
  is followed, the loop ends), which queue its result represents, and which part of the store it
  leaves alone.
\<close>

section \<open>Representation of a queue in the store\<close>

definition first_ptr :: "OrderPtr option \<Rightarrow> Queue \<Rightarrow> OrderPtr option" where
  "first_ptr nx os = (case os of [] \<Rightarrow> nx | ord # _ \<Rightarrow> Some (okey ord))"

definition last_ptr :: "OrderPtr option \<Rightarrow> Queue \<Rightarrow> OrderPtr option" where
  "last_ptr pv os = (if os = [] then pv else Some (okey (last os)))"

lemma first_ptr_simps [simp]:
  "first_ptr nx [] = nx" "first_ptr nx (ord # os) = Some (okey ord)"
  by (simp_all add: first_ptr_def)

lemma first_ptr_append: "first_ptr nx (xs @ ys) = first_ptr (first_ptr nx ys) xs"
  by (cases xs) simp_all

lemma last_ptr_simps [simp]:
  "last_ptr pv [] = pv" "last_ptr pv (xs @ ys) = last_ptr (last_ptr pv xs) ys"
  "last_ptr pv (ord # os) = last_ptr (Some (okey ord)) os"
  by (simp_all add: last_ptr_def)

text \<open>
  A segment: the orders are in the store one after the other, each pointing to its neighbours and to
  the level; \<open>pv\<close> is the pointer before the segment, \<open>nx\<close> the one after it.
\<close>

fun dseg :: "OrderStore \<Rightarrow> LevelPtr \<Rightarrow> OrderPtr option \<Rightarrow> Queue \<Rightarrow> OrderPtr option \<Rightarrow> bool" where
  "dseg st lp pv [] nx = True"
| "dseg st lp pv (ord # os) nx =
     (st (okey ord) = Some (ord\<lparr>rec_level := Some lp, rec_prev := pv, rec_next := first_ptr nx os\<rparr>)
      \<and> dseg st lp (Some (okey ord)) os nx)"

lemma dseg_append:
  "dseg st lp pv (xs @ ys) nx \<longleftrightarrow> dseg st lp pv xs (first_ptr nx ys) \<and> dseg st lp (last_ptr pv xs) ys nx"
proof (induction xs arbitrary: pv)
  case Nil
  then show ?case by simp
next
  case (Cons a xs)
  then show ?case
    by (simp add: first_ptr_append)
qed

lemma dseg_frame: "(\<And>k. k \<in> keys os \<Longrightarrow> st' k = st k) \<Longrightarrow> dseg st' lp pv os nx = dseg st lp pv os nx"
  by (induction os arbitrary: pv) auto

lemma dseg_upd [simp]: "k \<notin> keys os \<Longrightarrow> dseg (st(k := x)) lp pv os nx = dseg st lp pv os nx"
  by (rule dseg_frame) auto

lemma dseg_dom: "dseg st lp pv os nx \<Longrightarrow> keys os \<subseteq> dom st"
  by (induction os arbitrary: pv) auto

definition level_rep :: "OrderStore \<Rightarrow> LevelPtr \<Rightarrow> PriceLevel \<Rightarrow> Queue \<Rightarrow> bool" where
  "level_rep st lp lvl os \<longleftrightarrow>
     dseg st lp None os None
     \<and> level_head lvl = first_ptr None os \<and> level_tail lvl = last_ptr None os
     \<and> total_qty lvl = i64 (volume os) \<and> visible_qty lvl = i64 (display_volume os)"

lemma level_rep_frame:
  "(\<And>k. k \<in> keys os \<Longrightarrow> st' k = st k) \<Longrightarrow> level_rep st' lp lvl os = level_rep st lp lvl os"
  by (simp add: level_rep_def dseg_frame [of os st' st])

lemma level_rep_upd [simp]: "k \<notin> keys os \<Longrightarrow> level_rep (st(k := x)) lp lvl os = level_rep st lp lvl os"
  by (simp add: level_rep_def)

lemma level_rep_empty [simp]: "level_rep st lp empty_level []"
  by (simp add: level_rep_def empty_level_def)

lemma level_empty_iff: "level_rep st lp lvl os \<Longrightarrow> level_empty lvl \<longleftrightarrow> os = []"
  by (cases os) (auto simp: level_rep_def level_empty_def)

lemma level_rep_dom: "level_rep st lp lvl os \<Longrightarrow> keys os \<subseteq> dom st"
  unfolding level_rep_def by (blast dest: dseg_dom)

section \<open>Appending an order\<close>

lemma push_back_rep:
  assumes rep: "level_rep st lp lvl os"
    and new: "st (okey r) = Some r" "okey r \<notin> keys os"
    and dist: "dkeys os"
    and null: "rec_level r = None" "rec_prev r = None" "rec_next r = None"
  shows "\<exists>lvl' st'. push_back lp (okey r) lvl st = Some (lvl', st')
           \<and> level_rep st' lp lvl' (os @ [r])
           \<and> (\<forall>k. k \<notin> keys (os @ [r]) \<longrightarrow> st' k = st k)"
proof (cases os rule: rev_cases)
  case Nil
  with assms show ?thesis
    by (auto simp: push_back_def write_record_def level_rep_def i64_simps)
next
  case (snoc xs t)
  have "okey t \<noteq> okey r" "okey r \<notin> keys xs" "okey t \<notin> keys xs"
    using new(2) dist snoc by auto
  with rep new(1) null show ?thesis
    unfolding snoc
    by (auto simp: push_back_def write_record_def level_rep_def dseg_append i64_simps first_ptr_append
        add.assoc)
qed

section \<open>Unlinking an order\<close>

text \<open>
  Unlinking leaves the record in the store with null pointers; the callers erase it right after.
\<close>

lemma level_remove_rep:
  assumes rep: "level_rep st lp lvl (xs @ r # ys)" and dist: "dkeys (xs @ r # ys)"
  shows "\<exists>lvl' st'. level_remove (okey r) lvl st = Some (lvl', st')
           \<and> level_rep st' lp lvl' (xs @ ys)
           \<and> (\<forall>k. k \<notin> keys (xs @ r # ys) \<longrightarrow> st' k = st k)
           \<and> okey r \<in> dom st'"
proof -
  have ne: "okey r \<notin> keys xs" "okey r \<notin> keys ys" "dkeys xs" "dkeys ys" "keys xs \<inter> keys ys = {}"
    using dist by auto
  have sum: "i64 (i64 (volume (xs @ r # ys)) - remaining r) = i64 (volume (xs @ ys))"
    "i64 (i64 (display_volume (xs @ r # ys)) - display_remaining r) = i64 (display_volume (xs @ ys))"
    by (simp_all add: i64_simps algebra_simps)
  show ?thesis
  proof (cases xs rule: rev_cases; cases ys)
    assume "xs = []" "ys = []"
    with rep sum show ?thesis
      by (auto simp: level_remove_def write_record_def level_rep_def)
  next
    fix b ys'
    assume "xs = []" "ys = b # ys'"
    with rep ne sum show ?thesis
      by (auto simp: level_remove_def write_record_def level_rep_def)
  next
    fix xs' a
    assume "xs = xs' @ [a]" "ys = []"
    with rep ne sum show ?thesis
      by (auto simp: level_remove_def write_record_def level_rep_def dseg_append first_ptr_append)
  next
    fix xs' a b ys'
    assume "xs = xs' @ [a]" "ys = b # ys'"
    with rep ne sum show ?thesis
      by (auto simp: level_remove_def write_record_def level_rep_def dseg_append first_ptr_append)
  qed
qed

section \<open>Filling the order at the head\<close>

lemma refresh_display_linked:
  "refresh_display (r\<lparr>rec_level := a, rec_prev := b, rec_next := c\<rparr>)
     = (refresh_display r)\<lparr>rec_level := a, rec_prev := b, rec_next := c\<rparr>"
  "r\<lparr>rec_level := a, rec_prev := b, rec_next := c, remaining := q\<rparr>
     = r\<lparr>remaining := q, rec_level := a, rec_prev := b, rec_next := c\<rparr>"
  by (cases r, simp add: refresh_display_def is_hidden_def is_iceberg_def)+

lemma fill_head_rep:
  assumes rep: "level_rep st lp lvl (m # os)" and dist: "dkeys (m # os)"
    and q: "in64 (remaining m - q)"
  defines "m' \<equiv> refresh_display (m\<lparr>remaining := remaining m - q\<rparr>)"
  shows "\<exists>st1 lvl' st'.
           write_record (okey m) (\<lambda>r. r\<lparr>remaining := i64 (remaining r - q)\<rparr>) st = Some st1
           \<and> update_after_fill (okey m) q lvl st1 = Some (lvl', st')
           \<and> level_rep st' lp lvl' (m' # os)
           \<and> (\<forall>k. k \<noteq> okey m \<longrightarrow> st' k = st k)"
proof -
  have "i64 (i64 (i64 (display_remaining m + display_volume os) - display_remaining m) + d)
          = i64 (d + display_volume os)" for d
    by (simp add: i64_simps algebra_simps)
  moreover have "i64 (i64 (remaining m + volume os) - q) = i64 (remaining m - q + volume os)"
    by (simp add: i64_simps algebra_simps)
  ultimately show ?thesis
    using rep dist q unfolding m'_def
    by (auto simp: write_record_def update_after_fill_def level_rep_def refresh_display_linked)
qed

section \<open>The matching loop on one level\<close>

text \<open>One iteration at the head of a queue whose orders are alive, with a taker that still wants some.\<close>

lemma match_step_exhausts:
  assumes rep: "level_rep (ms_orders ms) lp (ms_level ms) (m # os)" and dist: "dkeys (m # os)"
    and m: "0 < remaining m" "remaining m \<le> remaining (ms_taker ms)" "in64 (remaining (ms_taker ms))"
  shows "\<exists>lvl' st'. match_step price (okey m) ms =
           Some (first_ptr None os,
                 \<lparr>ms_orders = st', ms_level = lvl',
                  ms_taker = (ms_taker ms)\<lparr>remaining := remaining (ms_taker ms) - remaining m\<rparr>,
                  ms_fills = ms_fills ms @ [fill_of (rq_id (rec_request (ms_taker ms))) price (remaining m) m]\<rparr>)
           \<and> level_rep st' lp lvl' os \<and> st' (okey m) = None
           \<and> (\<forall>k. k \<notin> keys (m # os) \<longrightarrow> st' k = ms_orders ms k)"
proof -
  define m' where "m' = refresh_display (m\<lparr>remaining := remaining m - remaining m\<rparr>)"
  have okm': "okey m' = okey m" by (simp add: m'_def)
  obtain st1 lvl2 st2 where w:
    "write_record (okey m) (\<lambda>r. r\<lparr>remaining := i64 (remaining r - remaining m)\<rparr>) (ms_orders ms) = Some st1"
    "update_after_fill (okey m) (remaining m) (ms_level ms) st1 = Some (lvl2, st2)"
    and rep2: "level_rep st2 lp lvl2 (m' # os)" and fr2: "\<forall>k. k \<noteq> okey m \<longrightarrow> st2 k = ms_orders ms k"
    using fill_head_rep [OF rep dist, of "remaining m"] unfolding m'_def by auto
  obtain lvl3 st3 where rm: "level_remove (okey m) lvl2 st2 = Some (lvl3, st3)"
    and rep3: "level_rep st3 lp lvl3 os" and fr3: "\<forall>k. k \<notin> keys (m # os) \<longrightarrow> st3 k = st2 k"
    using level_remove_rep [of st2 lp lvl2 "[]" m' os] rep2 dist okm' by auto
  have head: "ms_orders ms (okey m) =
      Some (m\<lparr>rec_level := Some lp, rec_prev := None, rec_next := first_ptr None os\<rparr>)"
    using rep by (simp add: level_rep_def)
  have head2: "st2 (okey m) =
      Some (m'\<lparr>rec_level := Some lp, rec_prev := None, rec_next := first_ptr None os\<rparr>)"
    using rep2 okm' by (simp add: level_rep_def)
  have tk: "i64 (remaining (ms_taker ms) - remaining m) = remaining (ms_taker ms) - remaining m"
    using m by (simp add: i64_sub_pos)
  have rq: "rec_request m' = rec_request m" "remaining m' = 0" by (simp_all add: m'_def)
  have "match_step price (okey m) ms =
      Some (first_ptr None os,
            \<lparr>ms_orders = st3(okey m := None), ms_level = lvl3,
             ms_taker = (ms_taker ms)\<lparr>remaining := remaining (ms_taker ms) - remaining m\<rparr>,
             ms_fills = ms_fills ms @ [fill_of (rq_id (rec_request (ms_taker ms))) price (remaining m) m]\<rparr>)"
    using w rm head head2 tk rq m
    by (simp add: match_step_def Let_def min_absorb2 fill_of_def okey_def [symmetric])
  then show ?thesis
    using rep3 fr2 fr3 dist by auto
qed

lemma match_step_partial:
  assumes rep: "level_rep (ms_orders ms) lp (ms_level ms) (m # os)" and dist: "dkeys (m # os)"
    and m: "0 < remaining (ms_taker ms)" "remaining (ms_taker ms) < remaining m" "in64 (remaining m)"
  shows "\<exists>lvl' st'. match_step price (okey m) ms =
           Some (first_ptr None os,
                 \<lparr>ms_orders = st', ms_level = lvl', ms_taker = (ms_taker ms)\<lparr>remaining := 0\<rparr>,
                  ms_fills = ms_fills ms @
                    [fill_of (rq_id (rec_request (ms_taker ms))) price (remaining (ms_taker ms)) m]\<rparr>)
           \<and> level_rep st' lp lvl'
                (refresh_display (m\<lparr>remaining := remaining m - remaining (ms_taker ms)\<rparr>) # os)
           \<and> (\<forall>k. k \<notin> keys (m # os) \<longrightarrow> st' k = ms_orders ms k)"
proof -
  define q where "q = remaining (ms_taker ms)"
  define m' where "m' = refresh_display (m\<lparr>remaining := remaining m - q\<rparr>)"
  have okm': "okey m' = okey m" by (simp add: m'_def)
  have q64: "in64 (remaining m - q)" using m by (simp add: in64_sub_pos q_def)
  obtain st1 lvl2 st2 where w:
    "write_record (okey m) (\<lambda>r. r\<lparr>remaining := i64 (remaining r - q)\<rparr>) (ms_orders ms) = Some st1"
    "update_after_fill (okey m) q (ms_level ms) st1 = Some (lvl2, st2)"
    and rep2: "level_rep st2 lp lvl2 (m' # os)" and fr2: "\<forall>k. k \<noteq> okey m \<longrightarrow> st2 k = ms_orders ms k"
    using fill_head_rep [OF rep dist q64] unfolding m'_def by auto
  have head: "ms_orders ms (okey m) =
      Some (m\<lparr>rec_level := Some lp, rec_prev := None, rec_next := first_ptr None os\<rparr>)"
    using rep by (simp add: level_rep_def)
  have head2: "st2 (okey m) =
      Some (m'\<lparr>rec_level := Some lp, rec_prev := None, rec_next := first_ptr None os\<rparr>)"
    using rep2 okm' by (simp add: level_rep_def)
  have rq: "remaining m' \<noteq> 0" using m by (simp add: m'_def q_def)
  have "match_step price (okey m) ms =
      Some (first_ptr None os,
            \<lparr>ms_orders = st2, ms_level = lvl2, ms_taker = (ms_taker ms)\<lparr>remaining := 0\<rparr>,
             ms_fills = ms_fills ms @ [fill_of (rq_id (rec_request (ms_taker ms))) price q m]\<rparr>)"
    using w head head2 rq m by (simp add: match_step_def Let_def min_absorb1 fill_of_def q_def)
  then show ?thesis
    using rep2 fr2 unfolding q_def [symmetric] m'_def [symmetric] by auto
qed

lemma match_level_stop [simp]:
  "match_level price None ms = Some ms"
  "\<not> 0 < remaining (ms_taker ms) \<Longrightarrow> match_level price p ms = Some ms"
  by (simp_all add: match_level.simps split: option.splits)

lemma match_level_go:
  "0 < remaining (ms_taker ms) \<Longrightarrow> match_step price p ms = Some (nxt, ms1) \<Longrightarrow> match_level price (Some p) ms = match_level price nxt ms1"
  by (simp add: match_level.simps [of price "Some p"])

lemma match_level_rep:
  assumes "level_rep (ms_orders ms) lp (ms_level ms) os" and "dkeys os"
    and "\<forall>ord \<in> set os. 0 < remaining ord \<and> in64 (remaining ord)"
    and "in64 (remaining (ms_taker ms))"
    and "fill_queue (rq_id (rec_request (ms_taker ms))) price (remaining (ms_taker ms)) os = (os', q', fs)"
  shows "\<exists>lvl' st'. match_level price (first_ptr None os) ms =
           Some \<lparr>ms_orders = st', ms_level = lvl', ms_taker = (ms_taker ms)\<lparr>remaining := q'\<rparr>,
                 ms_fills = ms_fills ms @ fs\<rparr>
           \<and> level_rep st' lp lvl' os'
           \<and> (\<forall>k. k \<notin> keys os \<longrightarrow> st' k = ms_orders ms k)
           \<and> (\<forall>k \<in> keys os - keys os'. st' k = None)"
  using assms
proof (induction os arbitrary: ms os' q' fs)
  case Nil
  then show ?case by (cases ms) auto
next
  case (Cons m os)
  let ?tk = "ms_taker ms"
  let ?tid = "rq_id (rec_request ?tk)"
  consider "\<not> 0 < remaining ?tk" | "0 < remaining ?tk" "remaining m \<le> remaining ?tk"
    | "0 < remaining ?tk" "remaining ?tk < remaining m" by linarith
  then show ?case
  proof cases
    case 1
    with Cons.prems show ?thesis by (cases ms) auto
  next
    case 2
    obtain os1 q1 fs1 where fq: "fill_queue ?tid price (remaining ?tk - remaining m) os = (os1, q1, fs1)"
      by (metis prod_cases3)
    with 2 Cons.prems(5) have res: "os' = os1" "q' = q1" "fs = fill_of ?tid price (remaining m) m # fs1"
      by auto
    define ms1 where "ms1 st lvl = \<lparr>ms_orders = st, ms_level = lvl,
        ms_taker = ?tk\<lparr>remaining := remaining ?tk - remaining m\<rparr>,
        ms_fills = ms_fills ms @ [fill_of ?tid price (remaining m) m]\<rparr>" for st lvl
    obtain lvl1 st1 where step: "match_step price (okey m) ms = Some (first_ptr None os, ms1 st1 lvl1)"
      and rep1: "level_rep st1 lp lvl1 os" and gone: "st1 (okey m) = None"
      and fr1: "\<forall>k. k \<notin> keys (m # os) \<longrightarrow> st1 k = ms_orders ms k"
      using match_step_exhausts [OF Cons.prems(1,2) _ 2(2) Cons.prems(4), of price] Cons.prems(3)
      unfolding ms1_def by auto
    have "in64 (remaining ?tk - remaining m)"
      using 2 Cons.prems(3,4) by (auto intro: in64_sub_pos)
    then obtain lvl' st' where ml: "match_level price (first_ptr None os) (ms1 st1 lvl1) =
        Some \<lparr>ms_orders = st', ms_level = lvl', ms_taker = ?tk\<lparr>remaining := q1\<rparr>,
              ms_fills = ms_fills (ms1 st1 lvl1) @ fs1\<rparr>"
      and rep': "level_rep st' lp lvl' os1"
      and fr': "\<forall>k. k \<notin> keys os \<longrightarrow> st' k = st1 k" "\<forall>k \<in> keys os - keys os1. st' k = None"
      using Cons.IH [of "ms1 st1 lvl1" os1 q1 fs1] Cons.prems(2,3) rep1 fq by (auto simp: ms1_def)
    have "match_level price (first_ptr None (m # os)) ms =
        Some \<lparr>ms_orders = st', ms_level = lvl', ms_taker = ?tk\<lparr>remaining := q'\<rparr>,
              ms_fills = ms_fills ms @ fs\<rparr>"
      using match_level_go [OF 2(1) step] ml res by (simp add: ms1_def)
    with rep' fr' fr1 gone res Cons.prems(2) show ?thesis by auto
  next
    case 3
    then have res: "os' = refresh_display (m\<lparr>remaining := remaining m - remaining ?tk\<rparr>) # os" "q' = 0"
      "fs = [fill_of ?tid price (remaining ?tk) m]"
      using Cons.prems(5) by auto
    obtain lvl1 st1 where "match_step price (okey m) ms =
           Some (first_ptr None os,
                 \<lparr>ms_orders = st1, ms_level = lvl1, ms_taker = ?tk\<lparr>remaining := 0\<rparr>,
                  ms_fills = ms_fills ms @ fs\<rparr>)"
      and "level_rep st1 lp lvl1 os'" "\<forall>k. k \<notin> keys (m # os) \<longrightarrow> st1 k = ms_orders ms k"
      using match_step_partial [OF Cons.prems(1,2) 3, of price] Cons.prems(3) res by auto
    with match_level_go [OF 3(1)] res show ?thesis by simp
  qed
qed

section \<open>Books\<close>

definition book_rep :: "OrderStore \<Rightarrow> Book \<Rightarrow> LevelMap \<Rightarrow> QueueMap \<Rightarrow> bool" where
  "book_rep st side lm b \<longleftrightarrow>
     list_all2 (\<lambda>(p, lvl) (p', os). p = p' \<and> level_rep st (side, p) lvl os) lm b"

lemma book_rep_simps [simp]:
  "book_rep st side [] b \<longleftrightarrow> b = []" "book_rep st side lm [] \<longleftrightarrow> lm = []"
  "book_rep st side ((p, lvl) # lm) ((p', os) # b) \<longleftrightarrow>
     p = p' \<and> level_rep st (side, p) lvl os \<and> book_rep st side lm b"
  by (simp_all add: book_rep_def)

lemma book_rep_frame:
  "(\<And>k. k \<in> keys (orders_of b) \<Longrightarrow> st' k = st k) \<Longrightarrow> book_rep st' side lm b = book_rep st side lm b"
proof (induction b arbitrary: lm)
  case Nil
  then show ?case by simp
next
  case (Cons x b)
  obtain p os where x: "x = (p, os)" by (cases x)
  show ?case
  proof (cases lm)
    case Nil
    then show ?thesis by (simp add: book_rep_def)
  next
    case (Cons y lm')
    then show ?thesis
      using Cons.IH [of lm'] Cons.prems level_rep_frame [of os st' st] unfolding x by (cases y) simp
  qed
qed

lemma book_rep_upd [simp]:
  "k \<notin> keys (orders_of b) \<Longrightarrow> book_rep (st(k := x)) side lm b = book_rep st side lm b"
  by (rule book_rep_frame) auto

lemma book_rep_dom: "book_rep st side lm b \<Longrightarrow> keys (orders_of b) \<subseteq> dom st"
proof (induction b arbitrary: lm)
  case Nil
  then show ?case by simp
next
  case (Cons x b)
  then show ?case
    by (cases x; cases lm) (auto simp: book_rep_def dest: level_rep_dom)
qed

lemma book_rep_prices: "book_rep st side lm b \<Longrightarrow> map fst lm = map fst b"
  unfolding book_rep_def by (induction rule: list_all2_induct) auto

text \<open>One level of a book that is being consumed.\<close>

lemma consume_level_rep:
  assumes "level_rep st lp lvl os" and "dkeys os" and pos: "\<forall>ord \<in> set os. 0 < remaining ord \<and> in64 (remaining ord)"
    and "in64 (remaining taker)" and "0 < remaining taker"
    and fq: "fill_queue (rq_id (rec_request taker)) p (remaining taker) os = (os1, q1, fs1)"
  obtains lvl1 st1 where "match_level p (level_head lvl) \<lparr>ms_orders = st, ms_level = lvl, ms_taker = taker, ms_fills = fs\<rparr> =
        Some \<lparr>ms_orders = st1, ms_level = lvl1, ms_taker = taker\<lparr>remaining := q1\<rparr>, ms_fills = fs @ fs1\<rparr>"
      "level_rep st1 lp lvl1 os1" "\<forall>k. k \<notin> keys os \<longrightarrow> st1 k = st k" "\<forall>k \<in> keys os - keys os1. st1 k = None" "in64 q1"
proof -
  have "in64 q1" using fill_queue_between [OF fq] assms(3-5) by (auto intro: in64_between [of 0])
  with that show thesis
    using match_level_rep [of "\<lparr>ms_orders = st, ms_level = lvl, ms_taker = taker, ms_fills = fs\<rparr>" lp os p os1 q1 fs1] assms
    by (auto simp: level_rep_def)
qed

lemma consume_book_rep:
  assumes "book_rep st side lm b" and "dkeys (orders_of b)"
    and "\<forall>ord \<in> set (orders_of b). 0 < remaining ord \<and> in64 (remaining ord)"
    and "in64 (remaining taker)"
    and "sweep (rq_side (rec_request taker)) (rq_price (rec_request taker)) (rq_id (rec_request taker))
           (remaining taker) b = (b', q', fs')"
  shows "\<exists>lm' st'. consume_book lm taker st fs = Some (lm', taker\<lparr>remaining := q'\<rparr>, st', fs @ fs')
           \<and> book_rep st' side lm' b'
           \<and> (\<forall>k. k \<notin> keys (orders_of b) \<longrightarrow> st' k = st k)
           \<and> (\<forall>k \<in> keys (orders_of b) - keys (orders_of b'). st' k = None)"
  using assms
proof (induction b arbitrary: lm taker st fs b' q' fs')
  case Nil
  then show ?case by auto
next
  case (Cons x b)
  let ?rq = "rec_request taker"
  obtain p os where x: "x = (p, os)" by (cases x)
  then obtain lvl lm1 where lm: "lm = (p, lvl) # lm1" and rep: "level_rep st (side, p) lvl os"
    and reps: "book_rep st side lm1 b"
    using Cons.prems(1) by (cases lm) (auto simp: book_rep_def)
  show ?case
  proof (cases "0 < remaining taker \<and> crosses (rq_side ?rq) (rq_price ?rq) p")
    case False
    with Cons.prems(1,5) show ?thesis by (auto simp: x lm)
  next
    case True
    obtain os1 q1 fs1 where fq: "fill_queue (rq_id ?rq) p (remaining taker) os = (os1, q1, fs1)"
      by (metis prod_cases3)
    obtain b2 q2 fs2 where sw: "sweep (rq_side ?rq) (rq_price ?rq) (rq_id ?rq) q1 b = (b2, q2, fs2)"
      by (metis prod_cases3)
    from True fq sw Cons.prems(5)
    have res: "b' = (if os1 = [] then b2 else (p, os1) # b2)" "q' = q2" "fs' = fs1 @ fs2"
      by (auto simp: x split: if_splits)
    have dk: "dkeys os" "dkeys (orders_of b)" "keys os \<inter> keys (orders_of b) = {}"
      using Cons.prems(2) by (auto simp: x)
    have sub: "keys os1 \<subseteq> keys os" "keys (orders_of b2) \<subseteq> keys (orders_of b)"
      using fill_queue_keys [OF fq] sweep_keys [OF sw] by auto
    have pos: "\<forall>ord \<in> set os. 0 < remaining ord \<and> in64 (remaining ord)"
      using Cons.prems(3) by (simp add: x)
    have tk: "0 < remaining taker" using True by simp
    obtain lvl1 st1 where ml: "match_level p (level_head lvl)
          \<lparr>ms_orders = st, ms_level = lvl, ms_taker = taker, ms_fills = fs\<rparr> =
        Some \<lparr>ms_orders = st1, ms_level = lvl1, ms_taker = taker\<lparr>remaining := q1\<rparr>, ms_fills = fs @ fs1\<rparr>"
      and rep1: "level_rep st1 (side, p) lvl1 os1" and fr1: "\<forall>k. k \<notin> keys os \<longrightarrow> st1 k = st k"
      and gone1: "\<forall>k \<in> keys os - keys os1. st1 k = None" and q1: "in64 q1"
      by (rule consume_level_rep [OF rep dk(1) pos Cons.prems(4) tk fq, of fs])
    have "book_rep st1 side lm1 b"
      using reps fr1 dk(3) by (subst book_rep_frame [of b st1 st]) auto
    then obtain lm2 st2 where cb: "consume_book lm1 (taker\<lparr>remaining := q1\<rparr>) st1 (fs @ fs1) =
          Some (lm2, taker\<lparr>remaining := q2\<rparr>, st2, (fs @ fs1) @ fs2)"
      and rep2: "book_rep st2 side lm2 b2" and fr2: "\<forall>k. k \<notin> keys (orders_of b) \<longrightarrow> st2 k = st1 k"
      and gone2: "\<forall>k \<in> keys (orders_of b) - keys (orders_of b2). st2 k = None"
      using Cons.IH [of st1 lm1 "taker\<lparr>remaining := q1\<rparr>" b2 q2 fs2 "fs @ fs1"] dk(2) Cons.prems(3) q1 sw
      by (auto simp: x)
    have "level_rep st2 (side, p) lvl1 os1"
      using rep1 fr2 sub dk(3) by (subst level_rep_frame [of os1 st2 st1]) auto
    moreover have "consume_book lm taker st fs =
        Some (if os1 = [] then lm2 else (p, lvl1) # lm2, taker\<lparr>remaining := q'\<rparr>, st2, fs @ fs')"
      using True ml cb level_empty_iff [OF rep1] by (simp add: lm res)
    moreover have "\<forall>k. k \<notin> keys (orders_of (x # b)) \<longrightarrow> st2 k = st k"
      using fr1 fr2 by (simp add: x)
    moreover have gone1': "\<forall>k \<in> keys os - keys os1. st2 k = None"
      using gone1 fr2 dk(3) by (metis Diff_iff disjoint_iff)
    moreover have "\<forall>k \<in> keys (orders_of (x # b)) - keys (orders_of b'). st2 k = None"
      using gone1' gone2 res(1) by (cases "os1 = []") (simp_all add: x, blast+)
    ultimately show ?thesis using rep2 res(1) by auto
  qed
qed

end
