(* ===== verification/Book_Invariants.thy ===== *)
theory Book_Invariants
  imports Book_Spec "HOL-Library.Multiset"
begin

text \<open>
  The specification's operations keep books well formed: levels sorted and non-empty, resting orders
  alive and on the right level, order keys unique, and the best bid below the best ask.
\<close>

lemma prices_ball: "fst ` A \<subseteq> fst ` B \<Longrightarrow> \<forall>x \<in> B. P (fst x) \<Longrightarrow> \<forall>x \<in> A. P (fst x)"
  by (metis imageE image_subset_iff)

section \<open>Sweeping\<close>

lemma sweep_nonpos [simp]: "q \<le> 0 \<Longrightarrow> sweep side limit tid q b = (b, q, [])"
  by (induction b) auto

lemma sweep_prices: "sweep side limit tid q b = (b', q', fs) \<Longrightarrow> fst ` set b' \<subseteq> fst ` set b"
proof (induction b arbitrary: q b' q' fs)
  case Nil
  then show ?case by simp
next
  case (Cons x b)
  obtain p os where x: "x = (p, os)" by (cases x)
  from Cons.prems [unfolded x] show ?case
    by (cases rule: sweep_Cons_cases) (auto simp: x dest!: Cons.IH split: if_splits)
qed

lemma sweep_book_ok:
  "sweep side limit tid q b = (b', q', fs) \<Longrightarrow> book_ok lt bk b \<Longrightarrow> book_ok lt bk b'"
proof (induction b arbitrary: q b' q' fs)
  case Nil
  then show ?case by simp
next
  case (Cons x b)
  obtain p os where x: "x = (p, os)" by (cases x)
  from Cons.prems(1) [unfolded x] show ?case
  proof (cases rule: sweep_Cons_cases)
    case stop
    with Cons.prems(2) show ?thesis by (simp add: x)
  next
    case (trade os1 q1 fs1 b2 fs2)
    have "book_ok lt bk b2" using Cons.IH [OF trade(4)] Cons.prems(2) by (simp add: x)
    moreover have "\<forall>ord \<in> set os1. order_ok bk p ord"
      using fill_queue_order_ok [OF trade(3)] Cons.prems(2) by (simp add: x)
    moreover have "fst ` set b2 \<subseteq> fst ` set b" by (rule sweep_prices [OF trade(4)])
    moreover have "\<forall>p' \<in> fst ` set b. lt p p'" using Cons.prems(2) by (simp add: x)
    ultimately show ?thesis using trade(5) prices_ball [of "set b2" "set b" "lt p"] by simp
  qed
qed

lemma sweep_dkeys:
  "sweep side limit tid q b = (b', q', fs) \<Longrightarrow> dkeys (orders_of b) \<Longrightarrow> dkeys (orders_of b')"
proof (induction b arbitrary: q b' q' fs)
  case Nil
  then show ?case by simp
next
  case (Cons x b)
  obtain p os where x: "x = (p, os)" by (cases x)
  from Cons.prems(1) [unfolded x] show ?case
  proof (cases rule: sweep_Cons_cases)
    case stop
    with Cons.prems(2) show ?thesis by (simp add: x)
  next
    case (trade os1 q1 fs1 b2 fs2)
    then show ?thesis
      using Cons.IH [OF trade(4)] Cons.prems(2) fill_queue_dkeys [OF trade(3)]
        fill_queue_keys [OF trade(3)] sweep_keys [OF trade(4)]
      by (auto simp: x)
  qed
qed

lemma sweep_conserves:
  "sweep side limit tid q b = (b', q', fs) \<Longrightarrow>
     q' = q - filled fs \<and> volume (orders_of b') = volume (orders_of b) - filled fs"
proof (induction b arbitrary: q b' q' fs)
  case Nil
  then show ?case by simp
next
  case (Cons x b)
  obtain p os where x: "x = (p, os)" by (cases x)
  from Cons.prems [unfolded x] show ?case
    by (cases rule: sweep_Cons_cases)
      (auto simp: x dest!: Cons.IH fill_queue_conserves split: if_splits)
qed

lemma sweep_between:
  "sweep side limit tid q b = (b', q', fs) \<Longrightarrow> \<forall>ord \<in> set (orders_of b). 0 < remaining ord \<Longrightarrow>
     0 \<le> q \<Longrightarrow> 0 \<le> q' \<and> q' \<le> q"
proof (induction b arbitrary: q b' q' fs)
  case Nil
  then show ?case by simp
next
  case (Cons x b)
  obtain p os where x: "x = (p, os)" by (cases x)
  from Cons.prems(1) [unfolded x] show ?case
  proof (cases rule: sweep_Cons_cases)
    case stop
    with Cons.prems(3) show ?thesis by simp
  next
    case (trade os1 q1 fs1 b2 fs2)
    then show ?thesis
      using Cons.IH [OF trade(4)] Cons.prems(2) fill_queue_between [OF trade(3)] by (force simp: x)
  qed
qed

section \<open>One side of the book\<close>

text \<open>
  The two books differ in their comparator only: bids are kept from the highest price, asks from the
  lowest. What they share is that, seen from a taker of the other side, crossing prices come first.
  The laws below are proved once for both.
\<close>

locale price_book = comparator lt for lt :: "int \<Rightarrow> int \<Rightarrow> bool" +
  fixes bk :: Book
  assumes cross_mono:
    "book_side side \<noteq> bk \<Longrightarrow> lt p p' \<Longrightarrow> crosses side limit p' \<Longrightarrow> crosses side limit p"
begin

text \<open>A taker that still wants more has eaten every level it crosses.\<close>

lemma sweep_no_cross:
  assumes "sweep side limit tid q b = (b', q', fs)" and "0 < q'" and "osorted lt b"
    and side: "book_side side \<noteq> bk"
  shows "\<forall>p \<in> fst ` set b'. \<not> crosses side limit p"
  using assms(1-3)
proof (induction b arbitrary: q b' q' fs)
  case Nil
  then show ?case by simp
next
  case (Cons x b)
  obtain p os where x: "x = (p, os)" by (cases x)
  from Cons.prems(1) [unfolded x] show ?case
  proof (cases rule: sweep_Cons_cases)
    case stop
    with Cons.prems show ?thesis by (auto simp: x dest: cross_mono [OF side])
  next
    case (trade os1 q1 fs1 b2 fs2)
    have "os1 = []"
    proof (cases "0 < q1")
      case True
      then show ?thesis using fill_queue_exhausts [OF trade(3)] by simp
    next
      case False
      then show ?thesis using trade(4) Cons.prems(2) by simp
    qed
    then show ?thesis using Cons.IH [OF trade(4)] Cons.prems trade(5) by (simp add: x)
  qed
qed

lemma find_before: "osorted lt ((p', v) # b) \<Longrightarrow> lt p p' \<Longrightarrow> omap_find p b = None"
  using lt_trans lt_irrefl by (fastforce simp: omap_find_None_iff)

lemma mset_put:
  "osorted lt b \<Longrightarrow>
     mset (orders_of (omap_put lt p os b)) + mset (queue_at p b) = mset (orders_of b) + mset os"
proof (induction b)
  case Nil
  then show ?case by (simp add: queue_at_def)
next
  case (Cons x b)
  obtain p' os' where x: "x = (p', os')" by (cases x)
  show ?case
    using Cons find_before [of p' os' b p] unfolding x
    by (auto simp: queue_at_def split: option.splits)
qed

lemma mset_enqueue: "osorted lt b \<Longrightarrow> mset (orders_of (enqueue lt r b)) = add_mset r (mset (orders_of b))"
  using mset_put [of b "rq_price (rec_request r)" "queue_at (rq_price (rec_request r)) b @ [r]"]
  by (simp add: enqueue_def)

lemma set_put_subset: "set (omap_put lt p v b) \<subseteq> insert (p, v) (set b)"
  by (induction b) (auto split: if_splits)

lemma enqueue_ok:
  assumes "book_ok lt bk b" and "order_ok bk (rq_price (rec_request r)) r"
  shows "book_ok lt bk (enqueue lt r b)"
proof -
  let ?p = "rq_price (rec_request r)"
  have q: "\<forall>ord \<in> set (queue_at ?p b). order_ok bk ?p ord"
    using assms(1)
    by (cases "omap_find ?p b") (auto simp: queue_at_def book_ok_def dest!: omap_find_SomeD)
  have "osorted lt (enqueue lt r b)"
    using assms(1) by (simp add: enqueue_def book_ok_def sorted_put)
  moreover have "os \<noteq> [] \<and> (\<forall>ord \<in> set os. order_ok bk p ord)" if "(p, os) \<in> set (enqueue lt r b)" for p os
  proof -
    from that have "(p, os) = (?p, queue_at ?p b @ [r]) \<or> (p, os) \<in> set b"
      using set_put_subset [of ?p "queue_at ?p b @ [r]" b] by (auto simp: enqueue_def)
    then show ?thesis using assms q by (auto simp: book_ok_def)
  qed
  ultimately show ?thesis by (auto simp: book_ok_def)
qed

lemma put_at:
  "osorted lt b \<Longrightarrow> b = b1 @ (p, os) # b2 \<Longrightarrow> omap_put lt p os' b = b1 @ (p, os') # b2"
proof (induction b1 arbitrary: b)
  case Nil
  then show ?case by simp
next
  case (Cons x b1)
  obtain p1 os1 where x: "x = (p1, os1)" by (cases x)
  have "lt p1 p" using Cons.prems by (auto simp: x)
  then have "p \<noteq> p1" "\<not> lt p p1" using lt_irrefl lt_trans by blast+
  then show ?case using Cons by (simp add: x)
qed

lemma erase_at:
  "osorted lt b \<Longrightarrow> b = b1 @ (p, os) # b2 \<Longrightarrow> omap_erase p b = b1 @ b2"
proof (induction b1 arbitrary: b)
  case Nil
  then show ?case by simp
next
  case (Cons x b1)
  obtain p1 os1 where x: "x = (p1, os1)" by (cases x)
  have "lt p1 p" using Cons.prems by (auto simp: x)
  then have "p \<noteq> p1" using lt_irrefl by blast
  then show ?case using Cons by (simp add: x)
qed

end

interpretation bid_book: price_book "(>)" Bids
  by unfold_locales (auto simp: book_side_def crosses_def split: if_splits)

interpretation ask_book: price_book "(<)" Asks
  by unfold_locales (auto simp: book_side_def crosses_def split: if_splits)

section \<open>Removing an order\<close>

lemma orders_of_without: "orders_of (without k b) = filter (\<lambda>ord. okey ord \<noteq> k) (orders_of b)"
  by (induction b) (auto simp: without_def)

lemma without_simps [simp]:
  "without k [] = []"
  "without k (b1 @ b2) = without k b1 @ without k b2"
  by (simp_all add: without_def)

lemma filter_keys_id: "k \<notin> keys xs \<Longrightarrow> filter (\<lambda>ord. okey ord \<noteq> k) xs = xs"
  by (induction xs) auto

lemma without_id:
  "k \<notin> keys (orders_of b) \<Longrightarrow> \<forall>(p, os) \<in> set b. os \<noteq> [] \<Longrightarrow> without k b = b"
proof (induction b)
  case Nil
  then show ?case by simp
next
  case (Cons x b)
  obtain p os where x: "x = (p, os)" by (cases x)
  have "filter (\<lambda>ord. okey ord \<noteq> k) os = os"
    using Cons.prems by (simp add: x filter_keys_id)
  then show ?case using Cons by (simp add: x without_def)
qed

lemma without_prices: "fst ` set (without k b) \<subseteq> fst ` set b"
  by (force simp: without_def)

lemma without_ok: "book_ok lt bk b \<Longrightarrow> book_ok lt bk (without k b)"
proof (induction b)
  case Nil
  then show ?case by simp
next
  case (Cons x b)
  obtain p os where x: "x = (p, os)" by (cases x)
  have "without k (x # b) =
      (if filter (\<lambda>ord. okey ord \<noteq> k) os = [] then without k b
       else (p, filter (\<lambda>ord. okey ord \<noteq> k) os) # without k b)"
    by (simp add: x without_def)
  then show ?case
    using Cons prices_ball [OF without_prices [of k b], of "lt p"] by (simp add: x)
qed

lemma keys_filter: "keys (filter (\<lambda>ord. okey ord \<noteq> k) os) = keys os - {k}"
  by (auto simp: keys_def)

lemma dkeys_filter: "dkeys os \<Longrightarrow> dkeys (filter P os)"
  by (simp add: dkeys_def distinct_map_filter)

lemma dkeys_mset: "mset a = mset b \<Longrightarrow> dkeys a \<longleftrightarrow> dkeys b"
  unfolding dkeys_def by (metis mset_eq_imp_distinct_iff mset_map)

lemma keys_mset: "mset a = mset b \<Longrightarrow> keys a = keys b"
  unfolding keys_def by (metis set_mset_mset)

section \<open>Every operation of the specification keeps books well formed\<close>

lemmas wf_book_defs = wf_book_def all_orders_def uncrossed_def

lemma wf_book_positive: "wf_book bs \<Longrightarrow> ord \<in> set (all_orders bs) \<Longrightarrow> 0 < remaining ord \<and> in64 (remaining ord)"
  unfolding wf_book_defs by (auto dest!: book_ok_orderD simp: order_ok_def)

lemma wf_book_next [simp]: "wf_book (bs\<lparr>bs_next := n\<rparr>) = wf_book bs" "all_orders (bs\<lparr>bs_next := n\<rparr>) = all_orders bs"
  by (simp_all add: wf_book_defs)

lemma uncrossed_mono:
  "uncrossed bs \<Longrightarrow> fst ` set (bs_bids bs') \<subseteq> fst ` set (bs_bids bs) \<Longrightarrow>
     fst ` set (bs_asks bs') \<subseteq> fst ` set (bs_asks bs) \<Longrightarrow> uncrossed bs'"
  unfolding uncrossed_def by blast

text \<open>Matching: one statement for both sides.\<close>

lemma spec_matchE:
  assumes "spec_match order bs = (bs', q', fs)"
  obtains (buy) b' where "rq_side order = kBuy" "bs' = bs\<lparr>bs_asks := b'\<rparr>"
      "sweep (rq_side order) (rq_price order) (rq_id order) (rq_quantity order) (bs_asks bs) = (b', q', fs)"
  | (sell) b' where "rq_side order \<noteq> kBuy" "bs' = bs\<lparr>bs_bids := b'\<rparr>"
      "sweep (rq_side order) (rq_price order) (rq_id order) (rq_quantity order) (bs_bids bs) = (b', q', fs)"
  using assms by (cases "rq_side order = kBuy") (auto simp: spec_match_def opposite_book_def split: prod.splits)

lemma spec_match_wf:
  assumes "spec_match order bs = (bs', q', fs)" and "wf_book bs"
  shows "wf_book bs'"
  using assms(1)
proof (cases rule: spec_matchE)
  case (buy b')
  with assms(2) show ?thesis
    using sweep_book_ok [OF buy(3)] sweep_dkeys [OF buy(3)] sweep_keys [OF buy(3)]
      uncrossed_mono [of bs bs'] sweep_prices [OF buy(3)]
    by (auto simp: wf_book_def all_orders_def)
next
  case (sell b')
  with assms(2) show ?thesis
    using sweep_book_ok [OF sell(3)] sweep_dkeys [OF sell(3)] sweep_keys [OF sell(3)]
      uncrossed_mono [of bs bs'] sweep_prices [OF sell(3)]
    by (auto simp: wf_book_def all_orders_def)
qed

lemma spec_match_keys:
  assumes "spec_match order bs = (bs', q', fs)"
  shows "keys (all_orders bs') \<subseteq> keys (all_orders bs)"
  using assms
  by (cases rule: spec_matchE) (auto simp: all_orders_def dest!: sweep_keys)

lemma spec_match_between:
  assumes "spec_match order bs = (bs', q', fs)" and "wf_book bs" and "0 \<le> rq_quantity order"
  shows "0 \<le> q' \<and> q' \<le> rq_quantity order"
  using assms(1)
proof (cases rule: spec_matchE)
  case (buy b')
  then show ?thesis
    using sweep_between [OF buy(3)] assms(3) wf_book_positive [OF assms(2)] by (simp add: all_orders_def)
next
  case (sell b')
  then show ?thesis
    using sweep_between [OF sell(3)] assms(3) wf_book_positive [OF assms(2)] by (simp add: all_orders_def)
qed

lemma spec_match_no_cross:
  assumes "spec_match order bs = (bs', q', fs)" and "wf_book bs" and "0 < q'"
  shows "\<forall>p \<in> fst ` set (opposite_book (rq_side order) bs'). \<not> crosses (rq_side order) (rq_price order) p"
  using assms(1)
proof (cases rule: spec_matchE)
  case (buy b')
  then show ?thesis
    using ask_book.sweep_no_cross [OF buy(3) assms(3)] assms(2)
    by (simp add: wf_book_def book_ok_def opposite_book_def book_side_def)
next
  case (sell b')
  then show ?thesis
    using bid_book.sweep_no_cross [OF sell(3) assms(3)] assms(2)
    by (simp add: wf_book_def book_ok_def opposite_book_def book_side_def)
qed

lemma spec_rest_wf:
  assumes wf: "wf_book bs" and new: "okey r \<notin> keys (all_orders bs)"
    and ok: "order_ok (book_side (rq_side (rec_request r))) (rq_price (rec_request r)) r"
    and nc: "\<forall>p \<in> fst ` set (opposite_book (rq_side (rec_request r)) bs).
               \<not> crosses (rq_side (rec_request r)) (rq_price (rec_request r)) p"
  shows "wf_book (spec_rest r bs)" "keys (all_orders (spec_rest r bs)) = insert (okey r) (keys (all_orders bs))"
proof -
  have ms: "mset (all_orders (spec_rest r bs)) = mset (r # all_orders bs)"
    using wf bid_book.mset_enqueue [of "bs_bids bs" r] ask_book.mset_enqueue [of "bs_asks bs" r]
    by (auto simp: spec_rest_def all_orders_def wf_book_def book_ok_def)
  have d: "dkeys (all_orders (spec_rest r bs))"
    using dkeys_mset [OF ms] new wf by (simp add: wf_book_def)
  from keys_mset [OF ms] show "keys (all_orders (spec_rest r bs)) = insert (okey r) (keys (all_orders bs))" by simp
  have bo: "book_ok (>) Bids (bs_bids (spec_rest r bs))" "book_ok (<) Asks (bs_asks (spec_rest r bs))"
    using wf ok bid_book.enqueue_ok [of "bs_bids bs" r] ask_book.enqueue_ok [of "bs_asks bs" r]
    by (auto simp: spec_rest_def wf_book_def book_side_def)
  have u: "uncrossed bs" using wf by (simp add: wf_book_def)
  have "uncrossed (spec_rest r bs)"
  proof (cases "rq_side (rec_request r) = kBuy")
    case True
    then have "fst ` set (bs_bids (spec_rest r bs)) = insert (rq_price (rec_request r)) (fst ` set (bs_bids bs))"
      "bs_asks (spec_rest r bs) = bs_asks bs" "\<forall>p \<in> fst ` set (bs_asks bs). rq_price (rec_request r) < p"
      using nc by (simp_all add: spec_rest_def enqueue_def fst_set_omap_put opposite_book_def crosses_def not_le)
    then show ?thesis using u unfolding uncrossed_def by (metis insert_iff)
  next
    case False
    then have "fst ` set (bs_asks (spec_rest r bs)) = insert (rq_price (rec_request r)) (fst ` set (bs_asks bs))"
      "bs_bids (spec_rest r bs) = bs_bids bs" "\<forall>p \<in> fst ` set (bs_bids bs). p < rq_price (rec_request r)"
      using nc by (simp_all add: spec_rest_def enqueue_def fst_set_omap_put opposite_book_def crosses_def not_le)
    then show ?thesis using u unfolding uncrossed_def by (metis insert_iff)
  qed
  with bo d show "wf_book (spec_rest r bs)" by (simp add: wf_book_def)
qed

lemma all_orders_remove: "all_orders (spec_remove k bs) = filter (\<lambda>ord. okey ord \<noteq> k) (all_orders bs)"
  by (simp add: spec_remove_def all_orders_def orders_of_without)

lemma spec_remove_wf: "wf_book bs \<Longrightarrow> wf_book (spec_remove k bs)"
  using uncrossed_mono [of bs "spec_remove k bs"]
    dkeys_filter [of "all_orders bs" "\<lambda>ord. okey ord \<noteq> k"]
  by (simp add: wf_book_def all_orders_remove) (simp add: spec_remove_def without_ok without_prices)

lemma resting_record_fields [simp]:
  "rec_request (resting_record order seq q) = order" "remaining (resting_record order seq q) = q"
  "fifo_seq (resting_record order seq q) = seq" "okey (resting_record order seq q) = order_key (rq_id order)"
  "rec_level (resting_record order seq q) = None" "rec_prev (resting_record order seq q) = None"
  "rec_next (resting_record order seq q) = None"
  "refresh_display (resting_record order seq q) = resting_record order seq q"
  by (simp_all add: resting_record_def init_taker_def okey_def)

lemma resting_record_ok:
  "0 < q \<Longrightarrow> in64 q \<Longrightarrow> order_ok (book_side (rq_side order)) (rq_price order) (resting_record order seq q)"
  by (simp add: order_ok_def)

lemma spec_place_wf:
  assumes "wf_book bs" and "in64 (rq_quantity order)"
  shows "wf_book (snd (spec_place liq order bs))"
proof -
  obtain bs2 q fs where m: "spec_match order (bs\<lparr>bs_next := bs_next bs + 1\<rparr>) = (bs2, q, fs)"
    by (metis prod_cases3)
  have wf2: "wf_book bs2" using spec_match_wf [OF m] assms(1) by simp
  have "wf_book (spec_rest (resting_record order (bs_next bs) q) bs2)"
    if q: "0 < q" and new: "order_key (rq_id order) \<notin> keys (all_orders bs2)"
  proof -
    have "in64 q"
    proof (cases "0 \<le> rq_quantity order")
      case True
      then show ?thesis
        using spec_match_between [OF m] assms q by (auto intro: in64_between [of 0 "rq_quantity order"])
    next
      case False
      then show ?thesis using m q by (simp add: spec_match_def)
    qed
    then show ?thesis
      using spec_rest_wf(1) [OF wf2, of "resting_record order (bs_next bs) q"] new q
        spec_match_no_cross [OF m _ q] assms(1) resting_record_ok [OF q]
      by simp
  qed
  then show ?thesis using m wf2 assms(1) by (simp add: spec_place_def Let_def)
qed

section \<open>What a sweep leaves of the taker, and whom it fills\<close>

lemma fill_queue_left:
  "fill_queue tid p q os = (os', q', fs) \<Longrightarrow> \<forall>ord \<in> set os. 0 < remaining ord \<Longrightarrow> 0 \<le> q \<Longrightarrow>
     q' = max 0 (q - volume os)"
proof (induction os arbitrary: q os' q' fs)
  case Nil
  then show ?case by simp
next
  case (Cons m ms)
  then show ?case
    using volume_nonneg [of ms] by (cases "fill_queue tid p (q - remaining m) ms") (force split: if_splits)
qed

lemma sweep_left:
  "sweep side limit tid q b = (b', q', fs) \<Longrightarrow> \<forall>ord \<in> set (orders_of b). 0 < remaining ord \<Longrightarrow> 0 \<le> q \<Longrightarrow>
     q' = max 0 (q - crossing_volume side limit b)"
proof (induction b arbitrary: q b' q' fs)
  case Nil
  then show ?case by simp
next
  case (Cons x b)
  obtain p os where x: "x = (p, os)" by (cases x)
  have cvn: "0 \<le> crossing_volume side limit b" "0 \<le> volume os"
    using Cons.prems(2) by (auto simp: x intro: crossing_volume_nonneg volume_nonneg)
  from Cons.prems(1) [unfolded x] show ?case
  proof (cases rule: sweep_Cons_cases)
    case stop
    with cvn Cons.prems(3) show ?thesis by (auto simp: x)
  next
    case (trade os1 q1 fs1 b2 fs2)
    have "q1 = max 0 (q - volume os)" using fill_queue_left [OF trade(3)] Cons.prems by (simp add: x)
    moreover from this have "q' = max 0 (q1 - crossing_volume side limit b)"
      using Cons.IH [OF trade(4)] Cons.prems(2) by (simp add: x)
    ultimately show ?thesis using trade(2) cvn by (simp add: x)
  qed
qed

text \<open>
  \<open>priority_fills side limit tid q os fs\<close>: the fills \<open>fs\<close> take from the front of the queue \<open>os\<close>, each
  maker in full except possibly the last, at the maker's own price, within the taker's limit.
\<close>

fun priority_fills :: "Side \<Rightarrow> int \<Rightarrow> OrderId \<Rightarrow> Queue \<Rightarrow> FillEvent list \<Rightarrow> bool" where
  "priority_fills side limit tid os [] = True"
| "priority_fills side limit tid [] (f # fs) = False"
| "priority_fills side limit tid (m # os) (f # fs) =
     (f = fill_of tid (rq_price (rec_request m)) (fe_quantity f) m
      \<and> crosses side limit (fe_price f)
      \<and> 0 < fe_quantity f \<and> fe_quantity f \<le> remaining m
      \<and> (fs \<noteq> [] \<longrightarrow> fe_quantity f = remaining m)
      \<and> priority_fills side limit tid os fs)"

lemma fill_queue_priority:
  assumes "fill_queue tid p q os = (os', q', fs)"
    and "\<forall>ord \<in> set os. 0 < remaining ord \<and> rq_price (rec_request ord) = p" and "crosses side limit p"
    and "0 < q' \<Longrightarrow> priority_fills side limit tid rest fs2" and "q' \<le> 0 \<Longrightarrow> fs2 = []"
  shows "priority_fills side limit tid (os @ rest) (fs @ fs2)"
  using assms
proof (induction os arbitrary: q os' q' fs)
  case Nil
  then show ?case by (cases "0 < q") auto
next
  case (Cons m ms)
  show ?case
  proof (cases "0 < q")
    case False
    with Cons.prems show ?thesis by simp
  next
    case q: True
    show ?thesis
    proof (cases "remaining m \<le> q")
      case True
      obtain ms' q1 fs1 where fq: "fill_queue tid p (q - remaining m) ms = (ms', q1, fs1)"
        by (metis prod_cases3)
      with Cons.prems(1) q True have "q' = q1" "fs = fill_of tid p (remaining m) m # fs1" by auto
      with Cons.IH [OF fq] Cons.prems show ?thesis by simp
    next
      case False
      with Cons.prems q show ?thesis by auto
    qed
  qed
qed

lemma sweep_priority:
  assumes "sweep side limit tid q b = (b', q', fs)"
    and "\<forall>(p, os) \<in> set b. \<forall>ord \<in> set os. 0 < remaining ord \<and> rq_price (rec_request ord) = p"
  shows "priority_fills side limit tid (orders_of b) fs"
  using assms
proof (induction b arbitrary: q b' q' fs)
  case Nil
  then show ?case by simp
next
  case (Cons x b)
  obtain p os where x: "x = (p, os)" by (cases x)
  from Cons.prems(1) [unfolded x] show ?case
  proof (cases rule: sweep_Cons_cases)
    case stop
    then show ?thesis by simp
  next
    case (trade os1 q1 fs1 b2 fs2)
    have "priority_fills side limit tid (orders_of b) fs2"
      using Cons.IH [OF trade(4)] Cons.prems(2) by simp
    moreover have "fs2 = []" if "q1 \<le> 0" using trade(4) that by simp
    ultimately show ?thesis
      using fill_queue_priority [OF trade(3) _ trade(2)] Cons.prems(2) trade(6) by (simp add: x)
  qed
qed

lemma sweep_no_fills:
  "(case b of [] \<Rightarrow> False | (best, _) # _ \<Rightarrow> crosses side limit best) = False \<Longrightarrow>
     sweep side limit tid q b = (b, q, [])"
  by (cases b) auto

end
