(* ===== verification/Matching_Refinement.thy ===== *)
theory Matching_Refinement
  imports Matching_Levels Book_Invariants
begin

text \<open>
  The refinement: a market shard represents a book of the specification when the two level maps
  represent its two sides and the store holds exactly the resting orders. Every operation of the
  engine, run on a shard that represents a well-formed book, returns, and its result and new shard
  are the ones the specification prescribes.
\<close>

section \<open>Shards and books\<close>

definition shard_rep :: "MarketShard \<Rightarrow> BookState \<Rightarrow> bool" where
  "shard_rep s bs \<longleftrightarrow>
     book_rep (book_orders s) Bids (bids s) (bs_bids bs)
     \<and> book_rep (book_orders s) Asks (asks s) (bs_asks bs)
     \<and> next_sequence s = bs_next bs
     \<and> dom (book_orders s) = keys (all_orders bs)
     \<and> wf_book bs"

lemma shard_rep_wf: "shard_rep s bs \<Longrightarrow> wf_book bs"
  by (simp add: shard_rep_def)

lemma new_shard_rep: "shard_rep new_shard \<lparr>bs_bids = [], bs_asks = [], bs_next = 1\<rparr>"
  by (simp add: shard_rep_def new_shard_def wf_book_def all_orders_def uncrossed_def)

section \<open>Matching\<close>

lemma shard_repD:
  assumes "shard_rep s bs"
  shows "book_rep (book_orders s) Bids (bids s) (bs_bids bs)" "book_rep (book_orders s) Asks (asks s) (bs_asks bs)"
    "book_ok (>) Bids (bs_bids bs)" "book_ok (<) Asks (bs_asks bs)"
    "osorted (>) (bs_bids bs)" "osorted (<) (bs_asks bs)"
    "dkeys (orders_of (bs_bids bs))" "dkeys (orders_of (bs_asks bs))"
    "keys (orders_of (bs_bids bs)) \<inter> keys (orders_of (bs_asks bs)) = {}"
    "dom (book_orders s) = keys (all_orders bs)" "next_sequence s = bs_next bs"
  using assms by (simp_all add: shard_rep_def wf_book_def all_orders_def book_ok_def)

lemma swept_dom:
  assumes "dom st = K \<union> keys (orders_of b)" and "K \<inter> keys (orders_of b) = {}"
    and "\<forall>k. k \<notin> keys (orders_of b) \<longrightarrow> st' k = st k"
    and "\<forall>k \<in> keys (orders_of b) - keys (orders_of b'). st' k = None"
    and "keys (orders_of b') \<subseteq> keys (orders_of b)" and "keys (orders_of b') \<subseteq> dom st'"
  shows "dom st' = K \<union> keys (orders_of b')"
proof (rule set_eqI)
  fix k
  show "k \<in> dom st' \<longleftrightarrow> k \<in> K \<union> keys (orders_of b')"
    using assms by (cases "k \<in> keys (orders_of b)"; cases "k \<in> keys (orders_of b')") (auto simp: dom_def)
qed

text \<open>Consuming one side of a shard leaves the other one as it is.\<close>

lemma consume_side_rep:
  assumes rep: "book_rep st side lm b" "book_rep st other lm2 b2" and dm: "dom st = keys (orders_of b2) \<union> keys (orders_of b)"
    and dj: "keys (orders_of b2) \<inter> keys (orders_of b) = {}" and "dkeys (orders_of b)"
    and "\<forall>ord \<in> set (orders_of b). 0 < remaining ord \<and> in64 (remaining ord)" and "in64 (remaining taker)"
    and sw: "sweep (rq_side (rec_request taker)) (rq_price (rec_request taker)) (rq_id (rec_request taker)) (remaining taker) b = (b', q', fs)"
  obtains lm' st' where "consume_book lm taker st [] = Some (lm', taker\<lparr>remaining := q'\<rparr>, st', fs)" "book_rep st' side lm' b'"
    "book_rep st' other lm2 b2" "dom st' = keys (orders_of b2) \<union> keys (orders_of b')"
proof -
  obtain lm' st' where c: "consume_book lm taker st [] = Some (lm', taker\<lparr>remaining := q'\<rparr>, st', fs)" "book_rep st' side lm' b'"
      "\<forall>k. k \<notin> keys (orders_of b) \<longrightarrow> st' k = st k" "\<forall>k \<in> keys (orders_of b) - keys (orders_of b'). st' k = None"
    using consume_book_rep [OF rep(1) assms(5-7) sw, of "[]"] by auto
  have "book_rep st' other lm2 b2" using rep(2) c(3) dj by (subst book_rep_frame [of b2 st' st]) auto
  with that c(1,2) swept_dom [OF dm dj c(3,4) sweep_keys [OF sw] book_rep_dom [OF c(2)]] show thesis by blast
qed

lemma match_order_rep:
  assumes rep: "shard_rep s bs" and tk: "rec_request taker = order" "remaining taker = rq_quantity order"
    and q: "in64 (rq_quantity order)" and m: "spec_match order bs = (bs', q', fs)"
  shows "\<exists>s'. match_order s taker [] = Some (s', taker\<lparr>remaining := q'\<rparr>, fs) \<and> shard_rep s' bs'"
proof -
  have wf: "wf_book bs" using rep by (rule shard_rep_wf)
  have wf': "wf_book bs'" using spec_match_wf [OF m wf] .
  note D = shard_repD [OF rep]
  have dm: "dom (book_orders s) = keys (orders_of (bs_bids bs)) \<union> keys (orders_of (bs_asks bs))"
      "dom (book_orders s) = keys (orders_of (bs_asks bs)) \<union> keys (orders_of (bs_bids bs))"
      "keys (orders_of (bs_asks bs)) \<inter> keys (orders_of (bs_bids bs)) = {}"
    using D(9,10) by (auto simp: all_orders_def)
  have pos: "\<forall>ord \<in> set (orders_of (bs_bids bs)). 0 < remaining ord \<and> in64 (remaining ord)"
    "\<forall>ord \<in> set (orders_of (bs_asks bs)). 0 < remaining ord \<and> in64 (remaining ord)"
    using wf_book_positive [OF wf] by (simp_all add: all_orders_def)
  from m show ?thesis
  proof (cases rule: spec_matchE)
    case (buy b')
    obtain lm' st' where cb: "consume_book (asks s) taker (book_orders s) [] = Some (lm', taker\<lparr>remaining := q'\<rparr>, st', fs)"
        "book_rep st' Asks lm' b'" "book_rep st' Bids (bids s) (bs_bids bs)" "dom st' = keys (orders_of (bs_bids bs)) \<union> keys (orders_of b')"
      using consume_side_rep [OF D(2,1) dm(1) D(9,8) pos(2), of taker b' q' fs] buy tk q by auto
    then have "shard_rep (s\<lparr>asks := lm', book_orders := st'\<rparr>) bs'"
      using rep wf' buy by (simp add: shard_rep_def all_orders_def)
    then show ?thesis using cb(1) buy tk by (simp add: match_order_def)
  next
    case (sell b')
    obtain lm' st' where cb: "consume_book (bids s) taker (book_orders s) [] = Some (lm', taker\<lparr>remaining := q'\<rparr>, st', fs)"
        "book_rep st' Bids lm' b'" "book_rep st' Asks (asks s) (bs_asks bs)" "dom st' = keys (orders_of (bs_asks bs)) \<union> keys (orders_of b')"
      using consume_side_rep [OF D(1,2) dm(2,3) D(7) pos(1), of taker b' q' fs] sell tk q by auto
    then have "shard_rep (s\<lparr>bids := lm', book_orders := st'\<rparr>) bs'"
      using rep wf' sell by (simp add: shard_rep_def all_orders_def Un_commute)
    then show ?thesis using cb(1) sell tk by (simp add: match_order_def)
  qed
qed

section \<open>Level maps and queue maps\<close>

lemma keys_queue_at: "keys (queue_at p b) \<subseteq> keys (orders_of b)"
proof (cases "omap_find p b")
  case (Some os)
  then have "set os \<subseteq> set (orders_of b)" by (meson omap_find_SomeD set_orders_of subsetI)
  with Some show ?thesis by (auto simp: queue_at_def keys_def)
qed (simp add: queue_at_def)

lemma queue_at_Cons: "queue_at p ((p', os) # b) = (if p = p' then os else queue_at p b)"
  by (simp add: queue_at_def)

lemma rep_find:
  "book_rep st side lm b \<Longrightarrow>
     (case omap_find p lm of
        None \<Rightarrow> omap_find p b = None
      | Some lvl \<Rightarrow> (\<exists>os. omap_find p b = Some os \<and> level_rep st (side, p) lvl os))"
  unfolding book_rep_def by (induction rule: list_all2_induct) (auto split: option.splits if_splits)

lemma rep_level_at:
  "book_rep st side lm b \<Longrightarrow>
     level_rep st (side, p) (case omap_find p lm of None \<Rightarrow> empty_level | Some l \<Rightarrow> l) (queue_at p b)"
  using rep_find [of st side lm b p] by (auto simp: queue_at_def split: option.splits)

context price_book
begin

lemma rep_put:
  assumes "book_rep st side lm b" and "osorted lt b" and "dkeys (orders_of b)"
    and lvl: "level_rep st' (side, p) lvl' os'"
    and "\<forall>k. k \<notin> keys (queue_at p b) \<longrightarrow> k \<notin> X \<longrightarrow> st' k = st k" and "X \<inter> keys (orders_of b) = {}"
  shows "book_rep st' side (omap_put lt p lvl' lm) (omap_put lt p os' b)"
  using assms(1-3,5,6)
proof (induction b arbitrary: lm)
  case Nil
  then show ?case using lvl by simp
next
  case (Cons x b)
  obtain p1 os1 where x: "x = (p1, os1)" by (cases x)
  then obtain lvl1 lm1 where lm: "lm = (p1, lvl1) # lm1" and r1: "level_rep st (side, p1) lvl1 os1"
    and rs: "book_rep st side lm1 b"
    using Cons.prems(1) by (cases lm) (auto simp: book_rep_def)
  have dj: "keys os1 \<inter> keys (orders_of b) = {}" "dkeys (orders_of b)" using Cons.prems(3) by (auto simp: x)
  have same: "book_rep st' side lm1 b" if "\<forall>k \<in> keys (orders_of b). st' k = st k"
    using rs that by (subst book_rep_frame [of b st' st]) auto
  consider "p = p1" | "p \<noteq> p1" "lt p p1" | "p \<noteq> p1" "\<not> lt p p1" by blast
  then show ?case
  proof cases
    case 1
    have "\<forall>k \<in> keys (orders_of b). st' k = st k"
      using Cons.prems(4,5) dj 1 by (auto simp: x queue_at_Cons)
    then show ?thesis using same lvl 1 by (simp add: lm x)
  next
    case 2
    have "omap_find p b = None" using find_before [of p1 os1 b p] Cons.prems(2) 2 by (simp add: x)
    then have fr: "\<forall>k \<in> keys (orders_of (x # b)). st' k = st k"
      using Cons.prems(4,5) 2 by (auto simp: x queue_at_def)
    then have "level_rep st' (side, p1) lvl1 os1"
      using r1 by (subst level_rep_frame [of os1 st' st]) (auto simp: x)
    then show ?thesis using same fr lvl 2 by (simp add: lm x)
  next
    case 3
    have "keys (queue_at p b) \<subseteq> keys (orders_of b)" by (rule keys_queue_at)
    then have "\<forall>k \<in> keys os1. st' k = st k"
      using Cons.prems(4,5) 3 dj by (auto simp: x queue_at_Cons)
    then have "level_rep st' (side, p1) lvl1 os1"
      using r1 by (subst level_rep_frame [of os1 st' st]) auto
    moreover have "book_rep st' side (omap_put lt p lvl' lm1) (omap_put lt p os' b)"
      using Cons.IH [OF rs] Cons.prems dj 3 by (simp add: x queue_at_Cons Int_Un_distrib)
    ultimately show ?thesis using 3 by (simp add: lm x)
  qed
qed

lemma rep_erase:
  assumes "book_rep st side lm b" and "dkeys (orders_of b)"
    and "\<forall>k. k \<notin> keys (queue_at p b) \<longrightarrow> st' k = st k"
  shows "book_rep st' side (omap_erase p lm) (omap_erase p b)"
  using assms
proof (induction b arbitrary: lm)
  case Nil
  then show ?case by simp
next
  case (Cons x b)
  obtain p1 os1 where x: "x = (p1, os1)" by (cases x)
  then obtain lvl1 lm1 where lm: "lm = (p1, lvl1) # lm1" and r1: "level_rep st (side, p1) lvl1 os1"
    and rs: "book_rep st side lm1 b"
    using Cons.prems(1) by (cases lm) (auto simp: book_rep_def)
  have dj: "keys os1 \<inter> keys (orders_of b) = {}" "dkeys (orders_of b)" using Cons.prems(2) by (auto simp: x)
  show ?case
  proof (cases "p = p1")
    case True
    have "book_rep st' side lm1 b"
      using rs Cons.prems(3) dj True
      by (subst book_rep_frame [of b st' st]) (auto simp: x queue_at_Cons)
    then show ?thesis using True by (simp add: lm x)
  next
    case False
    have "keys (queue_at p b) \<subseteq> keys (orders_of b)" by (rule keys_queue_at)
    then have "level_rep st' (side, p1) lvl1 os1"
      using r1 Cons.prems(3) dj False
      by (subst level_rep_frame [of os1 st' st]) (auto simp: x queue_at_Cons)
    then show ?thesis
      using Cons.IH [OF rs dj(2)] Cons.prems(3) False by (simp add: lm x queue_at_Cons)
  qed
qed

text \<open>Removing a resting order from its queue, and dropping the level when it becomes empty.\<close>

lemma without_at:
  assumes "book_ok lt bk b" and "dkeys (orders_of b)" and "(p, xs @ r # ys) \<in> set b"
  shows "without (okey r) b = (if xs @ ys = [] then omap_erase p b else omap_put lt p (xs @ ys) b)"
proof -
  obtain b1 b2 where b: "b = b1 @ (p, xs @ r # ys) # b2" using assms(3) by (auto dest: split_list)
  have ok: "osorted lt b" "\<forall>(p, os) \<in> set b1. os \<noteq> []" "\<forall>(p, os) \<in> set b2. os \<noteq> []"
    using assms(1) by (auto simp: book_ok_def b)
  have nk: "okey r \<notin> keys (orders_of b1)" "okey r \<notin> keys (orders_of b2)" "okey r \<notin> keys xs" "okey r \<notin> keys ys"
    using assms(2) by (auto simp: b)
  have fl: "filter (\<lambda>ord. okey ord \<noteq> okey r) xs = xs" "filter (\<lambda>ord. okey ord \<noteq> okey r) ys = ys"
    using nk(3,4) by (simp_all add: filter_keys_id)
  have "without (okey r) [(p, xs @ r # ys)] = (if xs @ ys = [] then [] else [(p, xs @ ys)])"
    using fl by (auto simp: without_def)
  then have "without (okey r) b = b1 @ (if xs @ ys = [] then [] else [(p, xs @ ys)]) @ b2"
    using without_id [OF nk(1) ok(2)] without_id [OF nk(2) ok(3)]
      without_simps(2) [of "okey r" b1 "[(p, xs @ r # ys)] @ b2"]
      without_simps(2) [of "okey r" "[(p, xs @ r # ys)]" b2] by (simp add: b)
  then show ?thesis using erase_at [OF ok(1) b] put_at [OF ok(1) b] by simp
qed

text \<open>Linking a new order into its level, and unlinking a resting one, seen from the whole book.\<close>

lemma push_into_book:
  assumes rep: "book_rep st bk lm b" and srt: "osorted lt b" and dk: "dkeys (orders_of b)"
    and new: "okey r \<notin> keys (orders_of b)"
    and null: "rec_level r = None" "rec_prev r = None" "rec_next r = None"
    and p: "p = rq_price (rec_request r)"
  shows "\<exists>lvl' st'.
      push_back (bk, p) (okey r) (case omap_find p lm of None \<Rightarrow> empty_level | Some l \<Rightarrow> l) (st(okey r \<mapsto> r))
        = Some (lvl', st')
      \<and> book_rep st' bk (omap_put lt p lvl' lm) (enqueue lt r b)
      \<and> (\<forall>k. k \<notin> insert (okey r) (keys (orders_of b)) \<longrightarrow> st' k = st k)
      \<and> dom st' = insert (okey r) (dom st)"
proof -
  let ?os = "queue_at p b" and ?lvl = "case omap_find p lm of None \<Rightarrow> empty_level | Some l \<Rightarrow> l"
  have sub: "keys ?os \<subseteq> keys (orders_of b)" by (rule keys_queue_at)
  have nk: "okey r \<notin> keys ?os" using new sub by blast
  have dq: "dkeys ?os"
  proof (cases "omap_find p b")
    case (Some os)
    then obtain b1 b2 where "b = b1 @ (p, os) # b2" by (meson omap_find_SomeD split_list)
    then show ?thesis using dk Some by (simp add: queue_at_def)
  qed (simp add: queue_at_def)
  have "level_rep (st(okey r \<mapsto> r)) (bk, p) ?lvl ?os" using rep_level_at [OF rep, of p] nk by simp
  then obtain lvl' st' where pb: "push_back (bk, p) (okey r) ?lvl (st(okey r \<mapsto> r)) = Some (lvl', st')"
    and lr: "level_rep st' (bk, p) lvl' (?os @ [r])"
    and fr: "\<forall>k. k \<notin> keys (?os @ [r]) \<longrightarrow> st' k = (st(okey r \<mapsto> r)) k"
    using push_back_rep [of "st(okey r \<mapsto> r)" "(bk, p)" ?lvl ?os r] nk dq null by auto
  have "book_rep st' bk (omap_put lt p lvl' lm) (omap_put lt p (?os @ [r]) b)"
    using rep_put [OF rep srt dk lr, of "{okey r}"] fr new by simp
  moreover have "dom st' = insert (okey r) (dom st)"
  proof (rule set_eqI)
    fix k
    show "k \<in> dom st' \<longleftrightarrow> k \<in> insert (okey r) (dom st)"
    proof (cases "k \<in> keys (?os @ [r])")
      case True
      then show ?thesis using level_rep_dom [OF lr] book_rep_dom [OF rep] sub by auto
    next
      case False
      then show ?thesis using fr by (auto simp: dom_def)
    qed
  qed
  moreover have "\<forall>k. k \<notin> insert (okey r) (keys (orders_of b)) \<longrightarrow> st' k = st k" using fr sub by auto
  ultimately show ?thesis using pb by (simp add: enqueue_def p)
qed

lemma unlink_from_book:
  assumes rep: "book_rep st bk lm b" and ok: "book_ok lt bk b" and dk: "dkeys (orders_of b)"
    and r: "r \<in> set (orders_of b)" and p: "p = rq_price (rec_request r)"
  shows "\<exists>lvl lvl' st'. omap_find p lm = Some lvl \<and> level_remove (okey r) lvl st = Some (lvl', st')
      \<and> book_rep (st'(okey r := None)) bk
           (if level_empty lvl' then omap_erase p lm else omap_put lt p lvl' lm) (without (okey r) b)
      \<and> (\<forall>k. k \<notin> keys (orders_of b) \<longrightarrow> st' k = st k)
      \<and> dom (st'(okey r := None)) = dom st - {okey r}"
proof -
  obtain os where os: "(p, os) \<in> set b" "r \<in> set os"
    using r ok by (auto simp: set_orders_of book_ok_def order_ok_def p)
  then obtain xs ys where split: "os = xs @ r # ys" by (meson split_list)
  obtain b1 b2 where b: "b = b1 @ (p, os) # b2" using os(1) by (meson split_list)
  have srt: "osorted lt b" using ok by (simp add: book_ok_def)
  have find: "omap_find p b = Some os"
    using find_put [OF srt, of p p os] put_at [OF srt b, of os] b by simp
  then obtain lvl where lvl: "omap_find p lm = Some lvl" and lr: "level_rep st (bk, p) lvl os"
    using rep_find [OF rep, of p] by (auto split: option.splits)
  have dq: "dkeys (xs @ r # ys)" using dk by (auto simp: b split)
  obtain lvl' st' where rm: "level_remove (okey r) lvl st = Some (lvl', st')"
    and lr': "level_rep st' (bk, p) lvl' (xs @ ys)" and fr: "\<forall>k. k \<notin> keys os \<longrightarrow> st' k = st k"
    using level_remove_rep [OF lr [unfolded split] dq] split by auto
  let ?st = "st'(okey r := None)"
  have q: "queue_at p b = os" using find by (simp add: queue_at_def)
  have nk: "okey r \<notin> keys (xs @ ys)" using dq by auto
  have frN: "\<forall>k. k \<notin> keys os \<longrightarrow> ?st k = st k" using fr by (auto simp: split)
  have lrN: "level_rep ?st (bk, p) lvl' (xs @ ys)" using lr' nk by simp
  have "book_rep ?st bk (if level_empty lvl' then omap_erase p lm else omap_put lt p lvl' lm) (without (okey r) b)"
    using rep_erase [OF rep dk, of p ?st] rep_put [OF rep srt dk lrN, of "{}"] frN q
      without_at [OF ok dk os(1) [unfolded split]] level_empty_iff [OF lr']
    by simp
  moreover have "keys os \<subseteq> keys (orders_of b)" using keys_queue_at [of p b] q by simp
  moreover have "dom ?st = dom st - {okey r}"
  proof (rule set_eqI)
    fix k
    show "k \<in> dom ?st \<longleftrightarrow> k \<in> dom st - {okey r}"
    proof (cases "k \<in> keys os \<and> k \<noteq> okey r")
      case True
      then have "k \<in> keys (xs @ ys)" by (auto simp: split)
      then show ?thesis using level_rep_dom [OF lrN] level_rep_dom [OF lr] True by auto
    next
      case False
      then show ?thesis using frN by (auto simp: dom_def split)
    qed
  qed
  ultimately show ?thesis using lvl rm fr by blast
qed

end

section \<open>Resting and removing an order of a shard\<close>

lemma book_rep_other:
  "book_rep st side lm b \<Longrightarrow> \<forall>k. k \<notin> K \<longrightarrow> st' k = st k \<Longrightarrow> K \<inter> keys (orders_of b) = {} \<Longrightarrow>
     book_rep st' side lm b"
  by (subst book_rep_frame [of b st' st]) auto

lemma rest_order_rep:
  assumes rep: "shard_rep s bs" and new: "okey r \<notin> keys (all_orders bs)"
    and ok: "order_ok (book_side (rq_side (rec_request r))) (rq_price (rec_request r)) r"
    and nc: "\<forall>p \<in> fst ` set (opposite_book (rq_side (rec_request r)) bs).
               \<not> crosses (rq_side (rec_request r)) (rq_price (rec_request r)) p"
  shows "\<exists>s'. rest_order (s\<lparr>book_orders := (book_orders s)(okey r \<mapsto> r)\<rparr>) (okey r) = Some s'
           \<and> shard_rep s' (spec_rest r bs)"
proof -
  note D = shard_repD [OF rep]
  have null: "rec_level r = None" "rec_prev r = None" "rec_next r = None" using ok by (auto simp: order_ok_def)
  have nb: "okey r \<notin> keys (orders_of (bs_bids bs))" "okey r \<notin> keys (orders_of (bs_asks bs))"
    using new by (auto simp: all_orders_def)
  have wf: "wf_book (spec_rest r bs)" "keys (all_orders (spec_rest r bs)) = insert (okey r) (keys (all_orders bs))"
    using spec_rest_wf [OF shard_rep_wf [OF rep] new ok nc] by auto
  let ?p = "rq_price (rec_request r)"
  show ?thesis
  proof (cases "rq_side (rec_request r) = kBuy")
    case True
    obtain lvl' st' where pb: "push_back (Bids, ?p) (okey r)
          (case omap_find ?p (bids s) of None \<Rightarrow> empty_level | Some l \<Rightarrow> l) ((book_orders s)(okey r \<mapsto> r))
          = Some (lvl', st')"
      and br: "book_rep st' Bids (omap_put (>) ?p lvl' (bids s)) (enqueue (>) r (bs_bids bs))"
      and fr: "\<forall>k. k \<notin> insert (okey r) (keys (orders_of (bs_bids bs))) \<longrightarrow> st' k = book_orders s k"
      and dm: "dom st' = insert (okey r) (dom (book_orders s))"
      using bid_book.push_into_book [OF D(1,5,7) nb(1) null refl] by blast
    have "book_rep st' Asks (asks s) (bs_asks bs)"
      using book_rep_other [OF D(2) fr] D(9) nb(2) by simp
    then have "shard_rep (s\<lparr>bids := omap_put (>) ?p lvl' (bids s), book_orders := st'\<rparr>) (spec_rest r bs)"
      using D(10,11) br dm wf True by (simp add: shard_rep_def) (simp add: spec_rest_def)
    then show ?thesis using pb True by (simp add: rest_order_def Let_def)
  next
    case False
    obtain lvl' st' where pb: "push_back (Asks, ?p) (okey r)
          (case omap_find ?p (asks s) of None \<Rightarrow> empty_level | Some l \<Rightarrow> l) ((book_orders s)(okey r \<mapsto> r))
          = Some (lvl', st')"
      and br: "book_rep st' Asks (omap_put (<) ?p lvl' (asks s)) (enqueue (<) r (bs_asks bs))"
      and fr: "\<forall>k. k \<notin> insert (okey r) (keys (orders_of (bs_asks bs))) \<longrightarrow> st' k = book_orders s k"
      and dm: "dom st' = insert (okey r) (dom (book_orders s))"
      using ask_book.push_into_book [OF D(2,6,8) nb(2) null refl] by blast
    have "book_rep st' Bids (bids s) (bs_bids bs)"
      using book_rep_other [OF D(1) fr] D(9) nb(1) by (simp add: Int_commute)
    then have "shard_rep (s\<lparr>asks := omap_put (<) ?p lvl' (asks s), book_orders := st'\<rparr>) (spec_rest r bs)"
      using D(10,11) br dm wf False by (simp add: shard_rep_def) (simp add: spec_rest_def)
    then show ?thesis using pb False by (simp add: rest_order_def Let_def)
  qed
qed

text \<open>The record the store holds for a resting order: the order itself, linked into its level.\<close>

lemma dseg_record:
  "dseg st lp pv os nx \<Longrightarrow> ord \<in> set os \<Longrightarrow>
     \<exists>a b. st (okey ord) = Some (ord\<lparr>rec_level := Some lp, rec_prev := a, rec_next := b\<rparr>)"
  by (induction os arbitrary: pv) auto

lemma book_rep_record:
  "book_rep st side lm b \<Longrightarrow> ord \<in> set (orders_of b) \<Longrightarrow>
     \<exists>p a c. st (okey ord) = Some (ord\<lparr>rec_level := Some (side, p), rec_prev := a, rec_next := c\<rparr>)"
proof (induction b arbitrary: lm)
  case Nil
  then show ?case by simp
next
  case (Cons x b)
  then show ?case
    by (cases x; cases lm) (auto simp: book_rep_def level_rep_def dest!: dseg_record)
qed

lemma store_record:
  assumes "shard_rep s bs" and "ord \<in> set (all_orders bs)"
  shows "\<exists>lp a c. book_orders s (okey ord) = Some (ord\<lparr>rec_level := Some lp, rec_prev := a, rec_next := c\<rparr>)"
  using assms(2) book_rep_record [OF shard_repD(1) [OF assms(1)], of ord]
    book_rep_record [OF shard_repD(2) [OF assms(1)], of ord]
  by (auto simp: all_orders_def)

text \<open>What is left of a book when an order of the other one is taken away.\<close>

lemma other_book_kept:
  assumes "book_rep st other lm b" and "book_ok lt other b" and "\<forall>k. k \<notin> keys (orders_of b2) \<longrightarrow> st' k = st k"
    and "keys (orders_of b2) \<inter> keys (orders_of b) = {}" and "r \<in> set (orders_of b2)"
  shows "book_rep (st'(okey r := None)) other lm b" "without (okey r) b = b"
proof -
  have nk: "okey r \<notin> keys (orders_of b)" using assms(4,5) by (auto simp: keys_def)
  then show "book_rep (st'(okey r := None)) other lm b" using book_rep_other [OF assms(1,3,4)] by simp
  show "without (okey r) b = b" using without_id [OF nk] assms(2) by (auto simp: book_ok_def)
qed

lemma remove_order_rep:
  assumes rep: "shard_rep s bs" and r: "r \<in> set (all_orders bs)"
  shows "\<exists>s'. remove_order_from_book s (okey r) = Some s'
           \<and> shard_rep (s'\<lparr>book_orders := (book_orders s')(okey r := None)\<rparr>) (spec_remove (okey r) bs)"
proof -
  note D = shard_repD [OF rep]
  obtain lp a c where st: "book_orders s (okey r) = Some (r\<lparr>rec_level := Some lp, rec_prev := a, rec_next := c\<rparr>)"
    using store_record [OF rep r] by blast
  let ?p = "rq_price (rec_request r)"
  have wf: "wf_book (spec_remove (okey r) bs)"
    "keys (all_orders (spec_remove (okey r) bs)) = keys (all_orders bs) - {okey r}"
    using spec_remove_wf [OF shard_rep_wf [OF rep]] by (simp_all add: all_orders_remove keys_filter)
  show ?thesis
  proof (cases "r \<in> set (orders_of (bs_bids bs))")
    case True
    then have side: "rq_side (rec_request r) = kBuy"
      using book_ok_orderD [OF D(3) True] by (auto simp: order_ok_def book_side_def split: if_splits)
    obtain lvl lvl' st' where u: "omap_find ?p (bids s) = Some lvl" "level_remove (okey r) lvl (book_orders s) = Some (lvl', st')"
      "book_rep (st'(okey r := None)) Bids (if level_empty lvl' then omap_erase ?p (bids s) else omap_put (>) ?p lvl' (bids s))
           (without (okey r) (bs_bids bs))"
      "\<forall>k. k \<notin> keys (orders_of (bs_bids bs)) \<longrightarrow> st' k = book_orders s k" "dom (st'(okey r := None)) = dom (book_orders s) - {okey r}"
      using bid_book.unlink_from_book [OF D(1,3,7) True refl] by blast
    show ?thesis
      using st side u(1-3,5) wf D(10,11) other_book_kept [OF D(2,4) u(4) D(9) True]
      by (simp add: remove_order_from_book_def Let_def shard_rep_def) (simp add: spec_remove_def split: if_splits)
  next
    case False
    then have r': "r \<in> set (orders_of (bs_asks bs))" using r by (simp add: all_orders_def)
    then have side: "rq_side (rec_request r) \<noteq> kBuy"
      using book_ok_orderD [OF D(4) r'] by (auto simp: order_ok_def book_side_def split: if_splits)
    obtain lvl lvl' st' where u: "omap_find ?p (asks s) = Some lvl" "level_remove (okey r) lvl (book_orders s) = Some (lvl', st')"
      "book_rep (st'(okey r := None)) Asks (if level_empty lvl' then omap_erase ?p (asks s) else omap_put (<) ?p lvl' (asks s))
           (without (okey r) (bs_asks bs))"
      "\<forall>k. k \<notin> keys (orders_of (bs_asks bs)) \<longrightarrow> st' k = book_orders s k" "dom (st'(okey r := None)) = dom (book_orders s) - {okey r}"
      using ask_book.unlink_from_book [OF D(2,4,8) r' refl] by blast
    show ?thesis
      using st side u(1-3,5) wf D(10,11) other_book_kept [OF D(1,3) u(4) _ r'] D(9)
      by (simp add: Int_commute remove_order_from_book_def Let_def shard_rep_def) (simp add: spec_remove_def split: if_splits)
  qed
qed

section \<open>Placing an order\<close>

lemma would_cross_rep:
  assumes "shard_rep s bs"
  shows "would_cross s order = best_crosses bs order"
proof -
  have "map fst (bids s) = map fst (bs_bids bs)" "map fst (asks s) = map fst (bs_asks bs)"
    using assms by (auto simp: shard_rep_def dest: book_rep_prices)
  then show ?thesis
    unfolding would_cross_def best_crosses_def opposite_book_def by (auto split: list.splits)
qed

lemma fillable_loop_rep:
  assumes "book_rep st bk lm b" and "\<forall>ord \<in> set (orders_of b). 0 < remaining ord"
    and "0 \<le> acc" and "in64 (acc + crossing_volume (rq_side req) (rq_price req) b)"
  shows "fillable_loop req acc lm < rq_quantity req \<longleftrightarrow>
           acc + crossing_volume (rq_side req) (rq_price req) b < rq_quantity req"
  using assms
proof (induction b arbitrary: lm acc)
  case Nil
  then show ?case by simp
next
  case (Cons x b)
  obtain p os where x: "x = (p, os)" by (cases x)
  then obtain lvl lm1 where lm: "lm = (p, lvl) # lm1" and lr: "level_rep st (bk, p) lvl os"
    and rs: "book_rep st bk lm1 b"
    using Cons.prems(1) by (cases lm) (auto simp: book_rep_def)
  let ?cv = "crossing_volume (rq_side req) (rq_price req) b"
  have pos: "\<forall>ord \<in> set os. 0 < remaining ord" "\<forall>ord \<in> set (orders_of b). 0 < remaining ord"
    using Cons.prems(2) by (simp_all add: x)
  then have nn: "0 \<le> volume os" "0 \<le> ?cv" by (simp_all add: volume_nonneg crossing_volume_nonneg)
  show ?case
  proof (cases "crosses (rq_side req) (rq_price req) p")
    case True
    have sum: "in64 (acc + volume os + ?cv)" using Cons.prems(4) True by (simp add: x add.assoc)
    then have "in64 (acc + volume os)" using nn Cons.prems(3) by (auto intro: in64_between [of 0])
    then have acc': "i64 (acc + total_qty lvl) = acc + volume os"
      using lr by (simp add: level_rep_def i64_simps)
    show ?thesis
      using True acc' nn Cons.IH [OF rs pos(2), of "acc + volume os"] sum Cons.prems(3)
      by (auto simp: lm x Let_def add.assoc)
  next
    case False
    then show ?thesis by (simp add: lm x)
  qed
qed

text \<open>As long as the volume the order could trade with fits 64 bits, the code's test is exact.\<close>

lemma fillable_quantity_exact:
  assumes rep: "shard_rep s bs" and fit: "in64 (available bs order)"
  shows "fillable_quantity s order < rq_quantity order \<longleftrightarrow> available bs order < rq_quantity order"
proof -
  have "\<forall>ord \<in> set (orders_of (opposite_book (rq_side order) bs)). 0 < remaining ord"
    using wf_book_positive [OF shard_rep_wf [OF rep]] by (auto simp: opposite_book_def all_orders_def)
  then show ?thesis
    using fillable_loop_rep [OF shard_repD(1) [OF rep], of 0 order]
      fillable_loop_rep [OF shard_repD(2) [OF rep], of 0 order] fit
    by (auto simp: fillable_quantity_def available_def opposite_book_def)
qed

lemma fillable_loop_book:
  "book_rep st bk lm b \<Longrightarrow> fillable_loop req acc lm = book_fillable_loop req acc b"
proof (induction b arbitrary: lm acc)
  case Nil
  then show ?case by simp
next
  case (Cons x b)
  obtain p os where x: "x = (p, os)" by (cases x)
  with Cons.prems obtain lvl lm1 where "lm = (p, lvl) # lm1" "level_rep st (bk, p) lvl os" "book_rep st bk lm1 b"
    by (cases lm) (auto simp: book_rep_def)
  then show ?case using Cons.IH by (simp add: x level_rep_def i64_simps Let_def)
qed

lemma fillable_quantity_book:
  "shard_rep s bs \<Longrightarrow> fillable_quantity s order = book_fillable bs order"
  using fillable_loop_book [of "book_orders s"]
  by (auto simp: fillable_quantity_def book_fillable_def opposite_book_def dest: shard_repD(1,2))

lemma rest_after_match:
  fixes seq :: u64
  assumes rep: "shard_rep s bs" and rep2: "shard_rep s2 bs2" and q: "in64 (rq_quantity order)"
    and m: "spec_match order bs = (bs2, qr, fs)" and qp: "0 < qr" and new: "order_key (rq_id order) \<notin> keys (all_orders bs2)"
  defines "r \<equiv> resting_record order seq qr"
  shows "\<exists>s'. rest_order (s2\<lparr>book_orders := (book_orders s2)(order_key (rq_id order) \<mapsto> r)\<rparr>) (order_key (rq_id order)) = Some s'
     \<and> shard_rep s' (spec_rest r bs2)"
proof -
  note wf = shard_rep_wf [OF rep]
  have "0 < rq_quantity order" using m qp by (cases "0 < rq_quantity order") (auto simp: spec_match_def)
  then have "in64 qr" using spec_match_between [OF m wf] q by (auto intro: in64_between [of 0 "rq_quantity order"])
  then show ?thesis
    using rest_order_rep [OF rep2, of r] new resting_record_ok [OF qp] spec_match_no_cross [OF m wf qp] by (simp add: r_def)
qed

lemma place_order_rep:
  assumes rep: "shard_rep s bs" and q: "in64 (rq_quantity order)"
    and bp: "book_place order bs = (res, bs')"
  shows "\<exists>s'. place_order s order = Some (res, s') \<and> shard_rep s' bs'"
proof -
  note wc = would_cross_rep [OF rep, of order]
  have sp: "spec_place (fillable_quantity s order) order bs = (res, bs')"
    using bp fillable_quantity_book [OF rep] by (simp add: book_place_def)
  consider (post) "HasFlag (rq_flags order) kPostOnly \<and> best_crosses bs order"
    | (fok) "\<not> (HasFlag (rq_flags order) kPostOnly \<and> best_crosses bs order)"
        "rq_tif order = kFok \<and> fillable_quantity s order < rq_quantity order"
    | (run) "\<not> (HasFlag (rq_flags order) kPostOnly \<and> best_crosses bs order)"
        "\<not> (rq_tif order = kFok \<and> fillable_quantity s order < rq_quantity order)" by blast
  then show ?thesis
  proof cases
    case post
    with sp wc rep show ?thesis by (simp add: place_order_def spec_place_def)
  next
    case fok
    with sp wc rep show ?thesis by (auto simp: place_order_def spec_place_def)
  next
    case run
    let ?s1 = "s\<lparr>next_sequence := next_sequence s + 1\<rparr>" and ?bs1 = "bs\<lparr>bs_next := bs_next bs + 1\<rparr>"
    let ?tk = "init_taker order (next_sequence s)"
    have seq: "next_sequence s = bs_next bs" using shard_repD(11) [OF rep] .
    have rep1: "shard_rep ?s1 ?bs1" using rep by (simp add: shard_rep_def)
    obtain bs2 qr fs where m: "spec_match order ?bs1 = (bs2, qr, fs)" by (metis prod_cases3)
    obtain s2 where mo: "match_order ?s1 ?tk [] = Some (s2, ?tk\<lparr>remaining := qr\<rparr>, fs)"
      and rep2: "shard_rep s2 bs2"
      using match_order_rep [OF rep1 _ _ q m, of ?tk] by (auto simp: init_taker_def)
    have dup: "book_orders s2 (order_key (rq_id order)) \<noteq> None \<longleftrightarrow> order_key (rq_id order) \<in> keys (all_orders bs2)"
      using shard_repD(10) [OF rep2] by blast
    let ?r = "resting_record order (bs_next bs) qr"
    have rr: "refresh_display (?tk\<lparr>remaining := qr\<rparr>) = ?r" by (simp add: resting_record_def seq)
    show ?thesis
      using run sp wc mo m rep2 dup rr rest_after_match [OF rep1 rep2 q m, of "bs_next bs"] seq
      by (auto simp: place_order_def spec_place_def Let_def)
  qed
qed

end
