(* ===== verification/Matching_Properties.thy ===== *)
theory Matching_Properties
  imports Matching_Refinement
begin

text \<open>
  The whole engine: its operations as one step function, the specification's engine, the refinement
  between the two for arbitrary sequences of operations, and the properties of the matching engine
  stated on the code's own operations and data.
\<close>

section \<open>Engine operations as steps\<close>

datatype EngineOp =
    AddMarket MarketId
  | ClearMarket MarketId
  | Submit OrderRequest
  | Cancel CancelRequest
  | Replace ReplaceRequest

datatype EngineOut =
    Done
  | OrderOut OrderResult
  | CancelOut CancelResult
  | ReplaceOut ReplaceResult

definition engine_step :: "EngineOp \<Rightarrow> MatchingEngine \<Rightarrow> (EngineOut \<times> MatchingEngine) option" where
  "engine_step op eng =
     (case op of
        AddMarket m \<Rightarrow> Some (Done, add_market m eng)
      | ClearMarket m \<Rightarrow> Some (Done, clear_market m eng)
      | Submit r \<Rightarrow> map_option (map_prod OrderOut id) (submit r eng)
      | Cancel r \<Rightarrow> map_option (map_prod CancelOut id) (cancel r eng)
      | Replace r \<Rightarrow> map_option (map_prod ReplaceOut id) (replace r eng))"

text \<open>The quantities of a request are 64-bit values.\<close>

fun op_ok :: "EngineOp \<Rightarrow> bool" where
  "op_ok (Submit r) = in64 (rq_quantity r)"
| "op_ok (Replace r) = in64 (rp_new_quantity r)"
| "op_ok _ = True"

inductive engine_reachable :: "MatchingEngine \<Rightarrow> bool" where
  start: "engine_reachable Map.empty"
| step: "engine_reachable eng \<Longrightarrow> op_ok op \<Longrightarrow> engine_step op eng = Some (out, eng') \<Longrightarrow> engine_reachable eng'"

section \<open>The specification's engine\<close>

type_synonym BookEngine = "MarketId \<rightharpoonup> BookState"

definition new_book :: BookState where
  "new_book = \<lparr>bs_bids = [], bs_asks = [], bs_next = 1\<rparr>"

definition book_at :: "MarketId \<Rightarrow> BookEngine \<Rightarrow> BookState" where
  "book_at m be = (case be m of None \<Rightarrow> new_book | Some bs \<Rightarrow> bs)"

definition book_submit :: "OrderRequest \<Rightarrow> BookEngine \<Rightarrow> OrderResult \<times> BookEngine" where
  "book_submit request be =
     (if rq_quantity request \<le> 0 then (empty_order_result\<lparr>reject_code := kRejectInvalidQuantity\<rparr>, be)
      else if HasFlag (rq_flags request) kIceberg
           \<and> (rq_display_quantity request \<le> 0 \<or> rq_display_quantity request > rq_quantity request)
      then (empty_order_result\<lparr>reject_code := kRejectInvalidDisplayQuantity\<rparr>, be)
      else (let m = oid_market (rq_id request); (result, bs') = book_place request (book_at m be)
            in (result, be(m \<mapsto> bs'))))"

definition book_cancel :: "CancelRequest \<Rightarrow> BookEngine \<Rightarrow> CancelResult \<times> BookEngine" where
  "book_cancel request be =
     (case be (oid_market (cr_id request)) of
        None \<Rightarrow> (\<lparr>cancelled = False, cancel_reject_code = kRejectUnknownMarket\<rparr>, be)
      | Some bs \<Rightarrow>
          if order_key (cr_id request) \<notin> keys (all_orders bs)
          then (\<lparr>cancelled = False, cancel_reject_code = kRejectOrderNotFound\<rparr>, be)
          else (\<lparr>cancelled = True, cancel_reject_code = 0\<rparr>,
                be(oid_market (cr_id request) \<mapsto> spec_remove (order_key (cr_id request)) bs)))"

definition replaced_request :: "ReplaceRequest \<Rightarrow> OrderRequest \<Rightarrow> OrderRequest" where
  "replaced_request request old = old
     \<lparr>rq_price := rp_new_price request, rq_quantity := rp_new_quantity request,
      rq_display_quantity := rp_new_display_quantity request,
      rq_tif := rp_new_tif request, rq_flags := rp_new_flags request, rq_id := rp_id request\<rparr>"

definition book_replace :: "ReplaceRequest \<Rightarrow> BookEngine \<Rightarrow> ReplaceResult \<times> BookEngine" where
  "book_replace request be =
     (case be (oid_market (rp_id request)) of
        None \<Rightarrow> (\<lparr>rr_accepted = False, rr_resting = False, rr_reject_code = kRejectUnknownMarket, rr_fills = []\<rparr>, be)
      | Some bs \<Rightarrow>
          (case find (\<lambda>ord. okey ord = order_key (rp_id request)) (all_orders bs) of
             None \<Rightarrow> (\<lparr>rr_accepted = False, rr_resting = False, rr_reject_code = kRejectOrderNotFound, rr_fills = []\<rparr>, be)
           | Some ord \<Rightarrow>
               (let (result, bs') = book_place (replaced_request request (rec_request ord))
                                      (spec_remove (order_key (rp_id request)) bs)
                in (\<lparr>rr_accepted = accepted result, rr_resting = resting result,
                     rr_reject_code = reject_code result, rr_fills = fills result\<rparr>,
                    be(oid_market (rp_id request) \<mapsto> bs')))))"

definition book_step :: "EngineOp \<Rightarrow> BookEngine \<Rightarrow> EngineOut \<times> BookEngine" where
  "book_step op be =
     (case op of
        AddMarket m \<Rightarrow> (Done, if be m = None then be(m \<mapsto> new_book) else be)
      | ClearMarket m \<Rightarrow> (Done, be(m \<mapsto> new_book))
      | Submit r \<Rightarrow> map_prod OrderOut id (book_submit r be)
      | Cancel r \<Rightarrow> map_prod CancelOut id (book_cancel r be)
      | Replace r \<Rightarrow> map_prod ReplaceOut id (book_replace r be))"

section \<open>Refinement\<close>

definition engine_rep :: "MatchingEngine \<Rightarrow> BookEngine \<Rightarrow> bool" where
  "engine_rep eng be \<longleftrightarrow> (\<forall>m. rel_option shard_rep (eng m) (be m))"

lemma engine_rep_cases:
  assumes "engine_rep eng be"
  obtains (none) "eng m = None" "be m = None"
  | (some) s bs where "eng m = Some s" "be m = Some bs" "shard_rep s bs"
  using assms unfolding engine_rep_def
  by (cases "eng m"; cases "be m") (auto dest: spec [of _ m])

lemma engine_rep_upd: "engine_rep eng be \<Longrightarrow> shard_rep s bs \<Longrightarrow> engine_rep (eng(m \<mapsto> s)) (be(m \<mapsto> bs))"
  by (auto simp: engine_rep_def)

lemma engine_rep_empty: "engine_rep Map.empty Map.empty"
  by (simp add: engine_rep_def)

lemma new_book_rep: "shard_rep new_shard new_book"
  using new_shard_rep by (simp add: new_book_def)

lemma submit_refines:
  assumes rep: "engine_rep eng be" and q: "in64 (rq_quantity r)"
  shows "\<exists>eng'. submit r eng = Some (fst (book_submit r be), eng') \<and> engine_rep eng' (snd (book_submit r be))"
proof -
  let ?m = "oid_market (rq_id r)"
  have rm: "shard_rep (ensure_market ?m eng) (book_at ?m be)"
    using rep by (cases rule: engine_rep_cases [of eng be ?m]) (auto simp: ensure_market_def book_at_def new_book_rep)
  obtain res bs' where bp: "book_place r (book_at ?m be) = (res, bs')" by (cases "book_place r (book_at ?m be)")
  obtain s' where "place_order (ensure_market ?m eng) r = Some (res, s')" "shard_rep s' bs'"
    using place_order_rep [OF rm q bp] by blast
  then show ?thesis
    using rep bp by (auto simp: submit_def book_submit_def Let_def engine_rep_upd)
qed

lemma resting_in_store:
  assumes "shard_rep s bs"
  shows "book_orders s k = None \<longleftrightarrow> k \<notin> keys (all_orders bs)"
  using shard_repD(10) [OF assms] by auto

lemma keysE:
  assumes "k \<in> keys os"
  obtains r where "r \<in> set os" "okey r = k"
  using assms by (auto simp: keys_def)

lemma cancel_refines:
  assumes rep: "engine_rep eng be"
  shows "\<exists>eng'. cancel r eng = Some (fst (book_cancel r be), eng') \<and> engine_rep eng' (snd (book_cancel r be))"
  using rep
proof (cases rule: engine_rep_cases [of eng be "oid_market (cr_id r)"])
  case none
  with rep show ?thesis by (simp add: cancel_def book_cancel_def)
next
  case (some s bs)
  show ?thesis
  proof (cases "order_key (cr_id r) \<in> keys (all_orders bs)")
    case False
    with some rep resting_in_store [OF some(3)] show ?thesis
      by (simp add: cancel_def book_cancel_def Let_def)
  next
    case True
    then obtain ord where ord: "ord \<in> set (all_orders bs)" "okey ord = order_key (cr_id r)" by (rule keysE)
    obtain s' where "remove_order_from_book s (order_key (cr_id r)) = Some s'"
      "shard_rep (s'\<lparr>book_orders := (book_orders s')(order_key (cr_id r) := None)\<rparr>) (spec_remove (order_key (cr_id r)) bs)"
      using remove_order_rep [OF some(3) ord(1)] ord(2) by auto
    with True some rep resting_in_store [OF some(3)] show ?thesis
      by (simp add: cancel_def book_cancel_def Let_def engine_rep_upd)
  qed
qed

lemma find_okey:
  assumes "dkeys os" and "ord \<in> set os"
  shows "find (\<lambda>x. okey x = okey ord) os = Some ord"
  using assms by (induction os) (auto simp: keys_def)

lemma replace_refines:
  assumes rep: "engine_rep eng be" and q: "in64 (rp_new_quantity r)"
  shows "\<exists>eng'. replace r eng = Some (fst (book_replace r be), eng') \<and> engine_rep eng' (snd (book_replace r be))"
  using rep
proof (cases rule: engine_rep_cases [of eng be "oid_market (rp_id r)"])
  case none
  with rep show ?thesis by (simp add: replace_def book_replace_def)
next
  case (some s bs)
  let ?k = "order_key (rp_id r)"
  show ?thesis
  proof (cases "?k \<in> keys (all_orders bs)")
    case False
    then have "find (\<lambda>ord. okey ord = ?k) (all_orders bs) = None"
      by (force simp: find_None_iff keys_def)
    moreover have "book_orders s ?k = None" using False resting_in_store [OF some(3)] by blast
    ultimately show ?thesis using some rep by (simp add: replace_def book_replace_def Let_def)
  next
    case True
    then obtain ord where ord: "ord \<in> set (all_orders bs)" "okey ord = ?k" by (rule keysE)
    have dk: "dkeys (all_orders bs)" using shard_rep_wf [OF some(3)] by (simp add: wf_book_def)
    obtain lp a c where st: "book_orders s ?k = Some (ord\<lparr>rec_level := Some lp, rec_prev := a, rec_next := c\<rparr>)"
      using store_record [OF some(3) ord(1)] ord(2) by auto
    obtain s' where s': "remove_order_from_book s ?k = Some s'"
      "shard_rep (s'\<lparr>book_orders := (book_orders s')(?k := None)\<rparr>) (spec_remove ?k bs)"
      using remove_order_rep [OF some(3) ord(1)] ord(2) by auto
    let ?rq = "replaced_request r (rec_request ord)"
    obtain res bs' where bp: "book_place ?rq (spec_remove ?k bs) = (res, bs')"
      by (cases "book_place ?rq (spec_remove ?k bs)")
    have "in64 (rq_quantity ?rq)" using q by (simp add: replaced_request_def)
    then obtain s3 where "place_order (s'\<lparr>book_orders := (book_orders s')(?k := None)\<rparr>) ?rq = Some (res, s3)"
      "shard_rep s3 bs'"
      using place_order_rep [OF s'(2) _ bp] by blast
    with some rep st s'(1) bp find_okey [OF dk ord(1)] ord(2) show ?thesis
      by (simp add: replace_def book_replace_def Let_def engine_rep_upd replaced_request_def)
  qed
qed

lemma engine_sim:
  assumes rep: "engine_rep eng be" and ok: "op_ok op"
  shows "\<exists>eng'. engine_step op eng = Some (fst (book_step op be), eng') \<and> engine_rep eng' (snd (book_step op be))"
proof (cases op)
  case (AddMarket m)
  from rep show ?thesis
    by (cases rule: engine_rep_cases [of eng be m])
      (auto simp: AddMarket engine_step_def book_step_def add_market_def intro: engine_rep_upd new_book_rep rep)
next
  case (ClearMarket m)
  with rep show ?thesis
    by (simp add: engine_step_def book_step_def clear_market_def engine_rep_upd new_book_rep)
next
  case (Submit r)
  with submit_refines [OF rep, of r] ok show ?thesis by (auto simp: engine_step_def book_step_def)
next
  case (Cancel r)
  with cancel_refines [OF rep, of r] show ?thesis by (auto simp: engine_step_def book_step_def)
next
  case (Replace r)
  with replace_refines [OF rep, of r] ok show ?thesis by (auto simp: engine_step_def book_step_def)
qed

interpretation engine: simulation engine_rep engine_step book_step op_ok
  by unfold_locales (rule engine_sim)

lemma reachable_rep: "engine_reachable eng \<Longrightarrow> \<exists>be. engine_rep eng be"
proof (induction rule: engine_reachable.induct)
  case start
  then show ?case using engine_rep_empty by blast
next
  case (step eng op out eng')
  then show ?case using engine.step_result by blast
qed

lemma reachable_shard:
  assumes "engine_reachable eng" and "eng m = Some s"
  obtains bs where "shard_rep s bs" "wf_book bs"
  using assms reachable_rep by (metis engine_rep_cases option.discI option.inject shard_rep_wf)

section \<open>Properties of the code's engine\<close>

text \<open>
  C2. On every engine state that can be reached from the empty engine by any sequence of operations,
  every operation returns: no null or dangling order pointer is dereferenced by the intrusive lists
  and no matching loop runs forever. Its new state is reachable again.
\<close>

theorem engine_operations_return:
  assumes "engine_reachable eng" and "op_ok op"
  shows "\<exists>out eng'. engine_step op eng = Some (out, eng') \<and> engine_reachable eng'"
proof -
  obtain be where "engine_rep eng be" using reachable_rep [OF assms(1)] by blast
  then obtain eng' where "engine_step op eng = Some (fst (book_step op be), eng')"
    using engine.sim [OF _ assms(2)] by blast
  then show ?thesis using engine_reachable.step [OF assms] by blast
qed

theorem engine_operations_return_witness:
  "\<exists>out eng'. engine_step (AddMarket 1) Map.empty = Some (out, eng') \<and> engine_reachable eng'"
  using engine_operations_return [OF engine_reachable.start, of "AddMarket 1"] by simp

text \<open>
  C1. For every sequence of operations the engine, with its pointer lists and cached totals, gives
  exactly the results of the specification, in which a market is two lists of price levels and a
  level is a list of orders; the final states represent each other.
\<close>

theorem engine_refines_book:
  assumes "list_all op_ok ops"
  shows "\<exists>eng. run_impl engine_step ops Map.empty = Some (fst (run_spec book_step ops Map.empty), eng)
           \<and> engine_rep eng (snd (run_spec book_step ops Map.empty))"
  by (rule engine.run_refines [OF engine_rep_empty assms])

theorem engine_refines_book_witness:
  "list_all op_ok [AddMarket 1, Cancel \<lparr>cr_id = \<lparr>oid_market = 1, oid_session = 1, oid_local = 1\<rparr>\<rparr>]
   \<and> (\<exists>eng. run_impl engine_step [AddMarket 1, Cancel \<lparr>cr_id = \<lparr>oid_market = 1, oid_session = 1, oid_local = 1\<rparr>\<rparr>] Map.empty
        = Some (fst (run_spec book_step
            [AddMarket 1, Cancel \<lparr>cr_id = \<lparr>oid_market = 1, oid_session = 1, oid_local = 1\<rparr>\<rparr>] Map.empty), eng))"
  using engine_refines_book [of "[AddMarket 1, Cancel \<lparr>cr_id = \<lparr>oid_market = 1, oid_session = 1, oid_local = 1\<rparr>\<rparr>]"]
  by auto

end
