(* ===== verification/Matching_Guarantees.thy ===== *)
theory Matching_Guarantees
  imports Matching_Properties
begin

text \<open>
  What the matching engine guarantees, stated on the code's own state in any reachable engine: the
  cached totals of the price levels, conservation of quantity, matching in the order of the book, the four
  time-in-force and flag rules, the frame of a cancel, and the two places where a rejected request
  changes the book nevertheless. The proofs go through the specification's book.
\<close>

section \<open>Views of a shard\<close>

definition book_levels :: "MarketShard \<Rightarrow> Book \<Rightarrow> LevelMap" where
  "book_levels s bk = (case bk of Bids \<Rightarrow> bids s | Asks \<Rightarrow> asks s)"

definition bs_side :: "BookState \<Rightarrow> Book \<Rightarrow> QueueMap" where
  "bs_side bs bk = (case bk of Bids \<Rightarrow> bs_bids bs | Asks \<Rightarrow> bs_asks bs)"

text \<open>The orders whose level pointer is a given level.\<close>

definition orders_at :: "MarketShard \<Rightarrow> LevelPtr \<Rightarrow> OrderPtr set" where
  "orders_at s lp = {k. \<exists>r. book_orders s k = Some r \<and> rec_level r = Some lp}"

text \<open>The sum of a figure over some orders of the store, and over all of them.\<close>

definition order_sum :: "(OrderRecord \<Rightarrow> int) \<Rightarrow> MarketShard \<Rightarrow> OrderPtr set \<Rightarrow> int" where
  "order_sum f s K = (\<Sum>k \<in> K. f (the (book_orders s k)))"

definition resting_volume :: "MarketShard \<Rightarrow> int" where
  "resting_volume s = order_sum remaining s (dom (book_orders s))"

text \<open>An order without its place in the list.\<close>

definition unlinked :: "OrderRecord \<Rightarrow> OrderRecord" where
  "unlinked r = r\<lparr>rec_prev := None, rec_next := None\<rparr>"

section \<open>The store and the specification's orders\<close>

lemma sorted_wrt_distinct:
  fixes xs :: "int list"
  shows "sorted_wrt (<) xs \<Longrightarrow> distinct xs" "sorted_wrt (>) xs \<Longrightarrow> distinct xs"
  by (induction xs) auto

lemma shard_rep_side:
  assumes "shard_rep s bs"
  shows "book_rep (book_orders s) bk (book_levels s bk) (bs_side bs bk)"
    and "(p, os) \<in> set (bs_side bs bk) \<Longrightarrow> os \<noteq> [] \<and> (\<forall>ord \<in> set os. order_ok bk p ord)"
    and "distinct (map fst (bs_side bs bk))"
    and "set (orders_of (bs_side bs bk)) \<subseteq> set (all_orders bs)"
    and "dkeys (orders_of (bs_side bs bk))"
proof -
  note D = shard_repD [OF assms]
  show "book_rep (book_orders s) bk (book_levels s bk) (bs_side bs bk)"
    using D(1,2) by (cases bk) (simp_all add: book_levels_def bs_side_def)
  show "os \<noteq> [] \<and> (\<forall>ord \<in> set os. order_ok bk p ord)" if "(p, os) \<in> set (bs_side bs bk)"
    using D(3,4) that by (cases bk) (auto simp: bs_side_def book_ok_def)
  show "distinct (map fst (bs_side bs bk))"
    using D(5,6) by (cases bk) (simp_all add: bs_side_def osorted_def sorted_wrt_distinct)
  show "set (orders_of (bs_side bs bk)) \<subseteq> set (all_orders bs)"
    by (cases bk) (simp_all add: bs_side_def all_orders_def)
  show "dkeys (orders_of (bs_side bs bk))"
    using shard_rep_wf [OF assms] by (cases bk) (simp_all add: bs_side_def wf_book_def all_orders_def)
qed

lemma order_sum_keys:
  assumes "dkeys os" and "\<forall>ord \<in> set os. f (the (book_orders s (okey ord))) = f ord"
  shows "order_sum f s (keys os) = sum_list (map f os)"
  using assms by (induction os) (auto simp: order_sum_def keys_def dkeys_def)

lemma book_rep_level:
  "book_rep st bk lm b \<Longrightarrow> (p, lvl) \<in> set lm \<Longrightarrow> \<exists>os. (p, os) \<in> set b \<and> level_rep st (bk, p) lvl os"
  "book_rep st bk lm b \<Longrightarrow> (p, os) \<in> set b \<Longrightarrow> \<exists>lvl. (p, lvl) \<in> set lm \<and> level_rep st (bk, p) lvl os"
  unfolding book_rep_def by (induction rule: list_all2_induct) auto

lemma level_of:
  assumes "shard_rep s bs" and "(p, lvl) \<in> set (book_levels s bk)"
  obtains os where "(p, os) \<in> set (bs_side bs bk)" "level_rep (book_orders s) (bk, p) lvl os"
  using book_rep_level(1) [OF shard_rep_side(1) [OF assms(1)] assms(2)] by blast

lemma level_rep_at:
  assumes "shard_rep s bs" and "(p, os) \<in> set (bs_side bs bk)"
  obtains lvl where "(p, lvl) \<in> set (book_levels s bk)" "level_rep (book_orders s) (bk, p) lvl os"
  using book_rep_level(2) [OF shard_rep_side(1) [OF assms(1)] assms(2)] by blast

lemma record_at:
  assumes "shard_rep s bs" and "(p, os) \<in> set (bs_side bs bk)" and "ord \<in> set os"
  shows "\<exists>a c. book_orders s (okey ord) = Some (ord\<lparr>rec_level := Some (bk, p), rec_prev := a, rec_next := c\<rparr>)"
  using level_rep_at [OF assms(1,2)] dseg_record [OF _ assms(3)] by (metis level_rep_def)

lemma all_orders_side: "ord \<in> set (all_orders bs) \<longleftrightarrow> (\<exists>bk p os. (p, os) \<in> set (bs_side bs bk) \<and> ord \<in> set os)"
proof -
  have "(\<exists>bk. P bk) \<longleftrightarrow> P Bids \<or> P Asks" for P by (metis Book.exhaust)
  then show ?thesis by (auto simp: all_orders_def set_orders_of bs_side_def)
qed

lemma orders_at_level:
  assumes rep: "shard_rep s bs" and l: "(p, os) \<in> set (bs_side bs bk)"
  shows "orders_at s (bk, p) = keys os"
proof
  show "keys os \<subseteq> orders_at s (bk, p)"
    using record_at [OF rep l] by (fastforce simp: orders_at_def keys_def)
  show "orders_at s (bk, p) \<subseteq> keys os"
  proof
    fix k
    assume "k \<in> orders_at s (bk, p)"
    then obtain r where r: "book_orders s k = Some r" "rec_level r = Some (bk, p)" by (auto simp: orders_at_def)
    then obtain ord where ord: "ord \<in> set (all_orders bs)" "okey ord = k"
      using resting_in_store [OF rep, of k] by (auto elim: keysE)
    then obtain bk' p' os' where l': "(p', os') \<in> set (bs_side bs bk')" "ord \<in> set os'"
      by (auto simp: all_orders_side)
    from record_at [OF rep this] r ord(2) have "bk' = bk" "p' = p" by auto
    with l l' shard_rep_side(3) [OF rep, of bk] have "os' = os" by (auto dest: eq_key_imp_eq_value)
    with l'(2) ord(2) show "k \<in> keys os" by (auto simp: keys_def)
  qed
qed

lemma order_sum_level:
  assumes rep: "shard_rep s bs" and l: "(p, os) \<in> set (bs_side bs bk)"
    and f: "\<And>r lv a c. f (r\<lparr>rec_level := lv, rec_prev := a, rec_next := c\<rparr>) = f r"
  shows "order_sum f s (orders_at s (bk, p)) = sum_list (map f os)"
proof -
  have "dkeys os"
    using shard_rep_side(5) [OF rep, of bk] split_list [OF l] by auto
  moreover have "f (the (book_orders s (okey ord))) = f ord" if "ord \<in> set os" for ord
    using record_at [OF rep l that] f by fastforce
  ultimately show ?thesis using order_sum_keys orders_at_level [OF rep l] by simp
qed

lemma resting_volume_rep: "shard_rep s bs \<Longrightarrow> resting_volume s = volume (all_orders bs)"
  using order_sum_keys [of "all_orders bs" remaining s] store_record [of s bs] shard_rep_wf [of s bs]
  by (fastforce simp: resting_volume_def shard_repD(10) wf_book_def volume_def)

section \<open>The cases of placing an order\<close>

lemma spec_placeE:
  assumes "spec_place liq order bs = (res, bs')"
  obtains
    (post_only) "HasFlag (rq_flags order) kPostOnly" "best_crosses bs order"
      "res = empty_order_result\<lparr>reject_code := kRejectPostOnlyWouldCross\<rparr>" "bs' = bs"
  | (insufficient) "rq_tif order = kFok" "liq < rq_quantity order" "\<not> (HasFlag (rq_flags order) kPostOnly \<and> best_crosses bs order)"
      "res = empty_order_result\<lparr>reject_code := kRejectInsufficientLiquidity\<rparr>" "bs' = bs"
  | (matched) bs2 q fs where "\<not> (HasFlag (rq_flags order) kPostOnly \<and> best_crosses bs order)"
      "\<not> (rq_tif order = kFok \<and> liq < rq_quantity order)"
      "spec_match order (bs\<lparr>bs_next := bs_next bs + 1\<rparr>) = (bs2, q, fs)"
      "q \<le> 0 \<Longrightarrow> res = empty_order_result\<lparr>fully_filled := True, accepted := True, fills := fs\<rparr> \<and> bs' = bs2"
      "q > 0 \<Longrightarrow> rq_tif order = kIoc \<or> rq_tif order = kFok \<Longrightarrow>
         res = empty_order_result\<lparr>accepted := True, fills := fs\<rparr> \<and> bs' = bs2"
      "q > 0 \<Longrightarrow> \<not> (rq_tif order = kIoc \<or> rq_tif order = kFok) \<Longrightarrow> order_key (rq_id order) \<in> keys (all_orders bs2) \<Longrightarrow>
         res = empty_order_result\<lparr>reject_code := kRejectDuplicateOrderId, fills := fs\<rparr> \<and> bs' = bs2"
      "q > 0 \<Longrightarrow> \<not> (rq_tif order = kIoc \<or> rq_tif order = kFok) \<Longrightarrow> order_key (rq_id order) \<notin> keys (all_orders bs2) \<Longrightarrow>
         res = empty_order_result\<lparr>resting := True, accepted := True, fills := fs\<rparr>
         \<and> bs' = spec_rest (resting_record order (bs_next bs) q) bs2"
proof -
  obtain bs2 q fs where m: "spec_match order (bs\<lparr>bs_next := bs_next bs + 1\<rparr>) = (bs2, q, fs)"
    by (metis prod_cases3)
  show ?thesis
    using assms that m by (auto simp: spec_place_def Let_def empty_order_result_def split: if_splits)
qed

lemma spec_match_conserves:
  assumes "spec_match order bs = (bs', q', fs)"
  shows "q' = rq_quantity order - filled fs" "volume (all_orders bs') = volume (all_orders bs) - filled fs"
  using assms by (cases rule: spec_matchE; auto simp: all_orders_def dest!: sweep_conserves)+

lemma volume_rest:
  assumes "wf_book bs"
  shows "volume (all_orders (spec_rest r bs)) = volume (all_orders bs) + remaining r"
    "set (all_orders (spec_rest r bs)) = insert r (set (all_orders bs))"
proof -
  have ms: "mset (all_orders (spec_rest r bs)) = mset (r # all_orders bs)"
    using assms bid_book.mset_enqueue [of "bs_bids bs" r] ask_book.mset_enqueue [of "bs_asks bs" r]
    by (auto simp: spec_rest_def all_orders_def wf_book_def book_ok_def)
  then have "mset (map remaining (all_orders (spec_rest r bs))) = mset (map remaining (r # all_orders bs))"
    by (simp only: mset_map)
  then have "sum_list (map remaining (all_orders (spec_rest r bs))) = sum_list (map remaining (r # all_orders bs))"
    by (metis sum_mset_sum_list)
  then show "volume (all_orders (spec_rest r bs)) = volume (all_orders bs) + remaining r"
    by (simp add: volume_def)
  show "set (all_orders (spec_rest r bs)) = insert r (set (all_orders bs))"
    using mset_eq_setD [OF ms] by simp
qed

lemma submitE:
  assumes "engine_reachable eng" and "in64 (rq_quantity r)" and "submit r eng = Some (res, eng')"
  obtains
    (invalid) "res = empty_order_result\<lparr>reject_code := kRejectInvalidQuantity\<rparr>
        \<or> res = empty_order_result\<lparr>reject_code := kRejectInvalidDisplayQuantity\<rparr>" "eng' = eng"
  | (placed) bs s' bs' where "0 < rq_quantity r"
      "shard_rep (ensure_market (oid_market (rq_id r)) eng) bs" "wf_book bs"
      "eng' = eng(oid_market (rq_id r) \<mapsto> s')" "shard_rep s' bs'"
      "book_place r bs = (res, bs')"
proof -
  let ?m = "oid_market (rq_id r)"
  obtain be where be: "engine_rep eng be" using reachable_rep [OF assms(1)] by blast
  have rm: "shard_rep (ensure_market ?m eng) (book_at ?m be)"
    using be by (cases rule: engine_rep_cases [of eng be ?m]) (auto simp: ensure_market_def book_at_def new_book_rep)
  obtain r2 bs' where bp: "book_place r (book_at ?m be) = (r2, bs')" by (cases "book_place r (book_at ?m be)")
  obtain s' where s': "place_order (ensure_market ?m eng) r = Some (r2, s')" "shard_rep s' bs'"
    using place_order_rep [OF rm assms(2) bp] by blast
  show ?thesis
    using assms(3) s' bp by (auto simp: submit_def Let_def split: if_splits intro: invalid placed [OF _ rm shard_rep_wf [OF rm]])
qed

section \<open>The queue of a level, followed through its pointers\<close>

fun chain :: "OrderStore \<Rightarrow> nat \<Rightarrow> OrderPtr option \<Rightarrow> OrderRecord list" where
  "chain st (Suc n) (Some p) = (case st p of None \<Rightarrow> [] | Some r \<Rightarrow> r # chain st n (rec_next r))"
| "chain st _ _ = []"

definition level_queue :: "MarketShard \<Rightarrow> PriceLevel \<Rightarrow> OrderRecord list" where
  "level_queue s lvl = chain (book_orders s) (card (dom (book_orders s))) (level_head lvl)"

text \<open>The orders of one book in the order of the levels, and in each level from head to tail.\<close>

definition book_queue :: "MarketShard \<Rightarrow> Book \<Rightarrow> OrderRecord list" where
  "book_queue s bk = concat (map (\<lambda>(p, lvl). level_queue s lvl) (book_levels s bk))"

definition opposite :: "Side \<Rightarrow> Book" where
  "opposite side = (if side = kBuy then Asks else Bids)"

lemma chain_dseg:
  "dseg st lp pv os None \<Longrightarrow> length os \<le> n \<Longrightarrow> chain st n (first_ptr None os) = map (\<lambda>ord. the (st (okey ord))) os"
proof (induction os arbitrary: n pv)
  case Nil
  then show ?case by (cases n) simp_all
next
  case (Cons ord os)
  then show ?case by (cases n) auto
qed

lemma length_dkeys:
  assumes "dkeys os" and "keys os \<subseteq> dom st" and "finite (dom st)"
  shows "length os \<le> card (dom st)"
proof -
  have "length os = card (keys os)"
    using assms(1) by (metis dkeys_def distinct_card keys_def length_map list.set_map)
  then show ?thesis using card_mono [OF assms(3,2)] by simp
qed

lemma level_queue_rep:
  assumes rep: "shard_rep s bs" and l: "(p, os) \<in> set (bs_side bs bk)"
    and lvl: "level_rep (book_orders s) (bk, p) lvl os"
  shows "level_queue s lvl = map (\<lambda>ord. the (book_orders s (okey ord))) os"
proof -
  have "finite (dom (book_orders s))" by (simp add: shard_repD(10) [OF rep] keys_def)
  moreover have "keys os \<subseteq> dom (book_orders s)" using record_at [OF rep l] by (fastforce simp: keys_def)
  moreover have "dkeys os" using shard_rep_side(5) [OF rep, of bk] split_list [OF l] by auto
  ultimately show ?thesis
    using lvl chain_dseg length_dkeys [of os "book_orders s"] by (auto simp: level_queue_def level_rep_def)
qed

lemma book_queue_rep:
  assumes rep: "shard_rep s bs"
  shows "book_queue s bk = map (\<lambda>ord. the (book_orders s (okey ord))) (orders_of (bs_side bs bk))"
proof -
  have "concat (map (\<lambda>(p, lvl). level_queue s lvl) lm) = map (\<lambda>ord. the (book_orders s (okey ord))) (orders_of b)"
    if "book_rep (book_orders s) bk lm b" "set b \<subseteq> set (bs_side bs bk)" for lm b
    using that unfolding book_rep_def
    by (induction rule: list_all2_induct) (auto simp: level_queue_rep [OF rep])
  from this [OF shard_rep_side(1) [OF rep]] show ?thesis by (simp add: book_queue_def)
qed

lemma priority_fills_cong:
  "list_all2 (\<lambda>a b. rec_request a = rec_request b \<and> remaining a = remaining b) os os' \<Longrightarrow>
     priority_fills side limit tid os fs = priority_fills side limit tid os' fs"
  by (induction arbitrary: fs rule: list_all2_induct) (case_tac fs; simp add: fill_of_def)+

lemma opposite_side: "bs_side bs (opposite side) = opposite_book side bs"
  by (simp add: bs_side_def opposite_def opposite_book_def)

lemma opposite_book_next [simp]: "opposite_book side (bs\<lparr>bs_next := n\<rparr>) = opposite_book side bs"
  by (simp add: opposite_book_def)

lemma priority_rep:
  assumes rep: "shard_rep s bs" and "priority_fills side limit tid (orders_of (opposite_book side bs)) fs"
  shows "priority_fills side limit tid (book_queue s (opposite side)) fs"
proof -
  have "list_all2 (\<lambda>a b. rec_request a = rec_request b \<and> remaining a = remaining b)
          (map (\<lambda>ord. the (book_orders s (okey ord))) os) os" if "set os \<subseteq> set (all_orders bs)" for os
    using that store_record [OF rep] by (induction os) fastforce+
  from priority_fills_cong [OF this [OF shard_rep_side(4) [OF rep]]] assms(2) show ?thesis
    by (simp add: book_queue_rep [OF rep] flip: opposite_side)
qed

lemma spec_match_priority:
  assumes "spec_match order bs = (bs', q', fs)" and "wf_book bs"
  shows "priority_fills (rq_side order) (rq_price order) (rq_id order)
           (orders_of (opposite_book (rq_side order) bs)) fs"
proof -
  have "\<forall>(p, os) \<in> set (opposite_book (rq_side order) bs). \<forall>ord \<in> set os. 0 < remaining ord \<and> rq_price (rec_request ord) = p"
    using assms(2) by (auto simp: wf_book_def opposite_book_def book_ok_def order_ok_def)
  with assms(1) show ?thesis
    by (auto simp: spec_match_def opposite_book_def split: prod.splits if_splits intro: sweep_priority)
qed

section \<open>Sample runs\<close>

text \<open>Concrete operation sequences, for instances of the properties at states of the running engine.\<close>

definition sample_order :: "u32 \<Rightarrow> Side \<Rightarrow> int \<Rightarrow> int \<Rightarrow> TimeInForce \<Rightarrow> u16 \<Rightarrow> OrderRequest" where
  "sample_order n side q p tif fl =
     \<lparr>rq_id = \<lparr>oid_market = 1, oid_session = 7, oid_local = n\<rparr>, rq_account = 1001, rq_side = side,
      rq_quantity = q, rq_price = p, rq_display_quantity = 0, rq_tif = tif, rq_flags = fl\<rparr>"

definition sample_ops :: "EngineOp list" where
  "sample_ops = [AddMarket 1, Submit (sample_order 1 kBuy 5 99 kGtc 0), Submit (sample_order 2 kSell 5 101 kGtc 0),
     Submit (sample_order 3 kSell 4 101 kGtc 0), Submit (sample_order 4 kSell 2 102 kGtc 0)]"

definition after :: "EngineOp list \<Rightarrow> (MatchingEngine \<Rightarrow> bool) \<Rightarrow> bool" where
  "after ops P = (case run_impl engine_step ops Map.empty of None \<Rightarrow> False | Some (_, eng) \<Rightarrow> P eng)"

lemma run_reachable:
  "engine_reachable eng \<Longrightarrow> list_all op_ok ops \<Longrightarrow> run_impl engine_step ops eng = Some (outs, eng') \<Longrightarrow>
     engine_reachable eng'"
proof (induction ops arbitrary: eng outs)
  case Nil
  then show ?case by simp
next
  case (Cons op ops)
  then obtain out eng1 outs1 where "engine_step op eng = Some (out, eng1)" "run_impl engine_step ops eng1 = Some (outs1, eng')"
    by (auto split: option.splits)
  with Cons show ?case using engine_reachable.step by (metis list.pred_inject(2))
qed

lemma afterE:
  assumes "after sample_ops P"
  obtains eng where "engine_reachable eng" "P eng"
proof -
  have "list_all op_ok sample_ops" by code_simp
  with assms that show ?thesis
    by (auto simp: after_def split: option.splits intro: run_reachable engine_reachable.start)
qed

section \<open>Properties of the code's engine\<close>

text \<open>
  C5. The book is never crossed: in every reachable state of the engine the best bid of a market is
  below its best ask.
\<close>

theorem book_never_crossed:
  assumes "engine_reachable eng" and "eng m = Some s"
    and "bids s = (best_bid, lb) # lbs" and "asks s = (best_ask, la) # las"
  shows "best_bid < best_ask"
proof -
  obtain bs where rep: "shard_rep s bs" and wf: "wf_book bs" using reachable_shard [OF assms(1,2)] .
  have "map fst (bs_bids bs) = best_bid # map fst lbs" "map fst (bs_asks bs) = best_ask # map fst las"
    using book_rep_prices [OF shard_repD(1) [OF rep]] book_rep_prices [OF shard_repD(2) [OF rep]] assms(3,4)
    by simp_all
  then have "best_bid \<in> fst ` set (bs_bids bs)" "best_ask \<in> fst ` set (bs_asks bs)"
    by (metis list.set_intros(1) list.set_map)+
  then show ?thesis using wf unfolding wf_book_def uncrossed_def by blast
qed

theorem book_never_crossed_witness:
  "\<exists>eng s best_bid lb lbs best_ask la las. engine_reachable eng \<and> eng 1 = Some s
     \<and> bids s = (best_bid, lb) # lbs \<and> asks s = (best_ask, la) # las \<and> best_bid < best_ask"
proof -
  have "after sample_ops (\<lambda>eng. case eng 1 of None \<Rightarrow> False | Some s \<Rightarrow> bids s \<noteq> [] \<and> asks s \<noteq> [])" by code_simp
  then obtain eng s best_bid lb lbs best_ask la las where
    "engine_reachable eng" "eng 1 = Some s" "bids s = (best_bid, lb) # lbs" "asks s = (best_ask, la) # las"
    by (elim afterE) (auto simp: neq_Nil_conv split: option.splits)
  with book_never_crossed [OF this] show ?thesis by blast
qed

text \<open>
  C6. The cached totals of a price level are right: in every reachable state a level in the book is
  not empty, and its total and visible quantities are the sums, as 64-bit values, of the remaining
  and displayed quantities of exactly the orders whose level pointer points to it.
\<close>

theorem level_totals_exact:
  assumes "engine_reachable eng" and "eng m = Some s" and "(p, lvl) \<in> set (book_levels s bk)"
  shows "level_head lvl \<noteq> None \<and> orders_at s (bk, p) \<noteq> {}
    \<and> total_qty lvl = i64 (order_sum remaining s (orders_at s (bk, p)))
    \<and> visible_qty lvl = i64 (order_sum display_remaining s (orders_at s (bk, p)))"
proof -
  obtain bs where rep: "shard_rep s bs" using reachable_shard [OF assms(1,2)] .
  obtain os where os: "(p, os) \<in> set (bs_side bs bk)" "level_rep (book_orders s) (bk, p) lvl os"
    using level_of [OF rep assms(3)] .
  obtain ord os' where "os = ord # os'" using shard_rep_side(2) [OF rep os(1)] by (cases os) auto
  then have "level_head lvl \<noteq> None" "orders_at s (bk, p) \<noteq> {}"
    using os(2) by (auto simp: level_rep_def orders_at_level [OF rep os(1)])
  moreover have "total_qty lvl = i64 (sum_list (map remaining os))"
    "visible_qty lvl = i64 (sum_list (map display_remaining os))"
    using os(2) by (simp_all add: level_rep_def volume_def display_volume_def)
  ultimately show ?thesis by (simp add: order_sum_level [OF rep os(1)])
qed

theorem level_totals_exact_witness:
  "\<exists>eng s p lvl. engine_reachable eng \<and> eng 1 = Some s \<and> (p, lvl) \<in> set (book_levels s Asks)
     \<and> total_qty lvl = i64 (order_sum remaining s (orders_at s (Asks, p)))"
proof -
  have "after sample_ops (\<lambda>eng. case eng 1 of None \<Rightarrow> False | Some s \<Rightarrow> book_levels s Asks \<noteq> [])" by code_simp
  then obtain eng s p lvl where e: "engine_reachable eng" "eng 1 = Some s" "(p, lvl) \<in> set (book_levels s Asks)"
    by (elim afterE) (force simp: neq_Nil_conv split: option.splits)
  from level_totals_exact [OF this] e show ?thesis by blast
qed

lemma accepted_order_account:
  assumes "engine_reachable eng" and "in64 (rq_quantity r)" and "submit r eng = Some (res, eng')" and "accepted res"
  defines "s \<equiv> ensure_market (oid_market (rq_id r)) eng" and "s' \<equiv> ensure_market (oid_market (rq_id r)) eng'"
  shows "filled (fills res) \<le> rq_quantity r
    \<and> (fully_filled res \<longleftrightarrow> filled (fills res) = rq_quantity r)
    \<and> resting_volume s' = resting_volume s - filled (fills res)
        + (if resting res then rq_quantity r - filled (fills res) else 0)
    \<and> (resting res \<longrightarrow> (\<exists>rec. book_orders s' (order_key (rq_id r)) = Some rec
          \<and> rec_request rec = r \<and> remaining rec = rq_quantity r - filled (fills res)))"
  using assms(1,2,3)
proof (cases rule: submitE)
  case invalid
  with assms(4) show ?thesis by (auto simp: empty_order_result_def)
next
  case (placed bs s1 bs')
  have s': "s' = s1" using placed(4) by (simp add: s'_def ensure_market_def)
  have rep: "shard_rep s bs" using placed(2) by (simp add: s_def)
  from placed(6) show ?thesis unfolding book_place_def
  proof (cases rule: spec_placeE)
    case (matched bs2 q fs)
    note c = spec_match_conserves [OF matched(3)]
    have b: "0 \<le> q" using spec_match_between [OF matched(3)] placed(1,3) by simp
    have v: "volume (all_orders bs2) = resting_volume s - filled fs" "resting_volume s' = volume (all_orders bs')"
      using c(2) resting_volume_rep [OF rep] resting_volume_rep [OF placed(5)] by (simp_all add: s' all_orders_def)
    consider "q \<le> 0" | "q > 0" "rq_tif r = kIoc \<or> rq_tif r = kFok"
      | "q > 0" "\<not> (rq_tif r = kIoc \<or> rq_tif r = kFok)" "order_key (rq_id r) \<notin> keys (all_orders bs2)"
      using matched(6) assms(4) by (fastforce simp: empty_order_result_def)
    then show ?thesis
    proof cases
      case 1
      with matched(4) b c v show ?thesis by (simp add: empty_order_result_def)
    next
      case 2
      with matched(5) b c v show ?thesis by (simp add: empty_order_result_def)
    next
      case 3
      have wf2: "wf_book bs2" using spec_match_wf [OF matched(3)] placed(3) by simp
      have "resting_record r (bs_next bs) q \<in> set (all_orders bs')" using matched(7) [OF 3] volume_rest [OF wf2] by simp
      from store_record [OF placed(5) this] have "\<exists>rec. book_orders s' (order_key (rq_id r)) = Some rec
          \<and> rec_request rec = r \<and> remaining rec = q" by (auto simp: s')
      with matched(7) [OF 3] 3(1) c v volume_rest(1) [OF wf2] show ?thesis by (simp add: empty_order_result_def)
    qed
  qed (use assms(4) in \<open>simp_all add: empty_order_result_def\<close>)
qed

text \<open>
  C4. An accepted order conserves quantity: the fills take from the book exactly what the taker
  gets, never more than the order's quantity; the order is reported fully filled exactly when the
  fills add up to it, and an order reported as resting is in the book with the rest, which is the
  only quantity added to it.
\<close>

theorem submit_conserves:
  assumes "engine_reachable eng" and "in64 (rq_quantity r)" and "submit r eng = Some (res, eng')" and "accepted res"
  defines "s \<equiv> ensure_market (oid_market (rq_id r)) eng" and "s' \<equiv> ensure_market (oid_market (rq_id r)) eng'"
  shows "filled (fills res) \<le> rq_quantity r
    \<and> (fully_filled res \<longleftrightarrow> filled (fills res) = rq_quantity r)
    \<and> resting_volume s' = resting_volume s - filled (fills res)
        + (if resting res then rq_quantity r - filled (fills res) else 0)
    \<and> (resting res \<longrightarrow> (\<exists>rec. book_orders s' (order_key (rq_id r)) = Some rec
          \<and> rec_request rec = r \<and> remaining rec = rq_quantity r - filled (fills res)))"
  unfolding s_def s'_def by (rule accepted_order_account [OF assms(1-4)])

theorem submit_conserves_witness:
  "\<exists>eng res eng'. engine_reachable eng \<and> submit (sample_order 5 kBuy 7 101 kGtc 0) eng = Some (res, eng')
     \<and> accepted res \<and> filled (fills res) \<le> 7"
proof -
  have "after sample_ops (\<lambda>eng. case submit (sample_order 5 kBuy 7 101 kGtc 0) eng of
      None \<Rightarrow> False | Some (res, _) \<Rightarrow> accepted res)" by code_simp
  then obtain eng res eng' where e: "engine_reachable eng"
    "submit (sample_order 5 kBuy 7 101 kGtc 0) eng = Some (res, eng')" "accepted res"
    by (elim afterE) (auto split: option.splits)
  have "in64 (rq_quantity (sample_order 5 kBuy 7 101 kGtc 0))" by code_simp
  from submit_conserves [OF e(1) this e(2,3)] e show ?thesis by (auto simp: sample_order_def)
qed

text \<open>The fills of a submitted order follow the queue of the opposite book.\<close>

lemma submit_priority:
  assumes "engine_reachable eng" and "in64 (rq_quantity r)" and "submit r eng = Some (res, eng')"
  shows "priority_fills (rq_side r) (rq_price r) (rq_id r)
           (book_queue (ensure_market (oid_market (rq_id r)) eng) (opposite (rq_side r))) (fills res)"
  using assms
proof (cases rule: submitE)
  case invalid
  then show ?thesis by (auto simp: empty_order_result_def)
next
  case (placed bs s' bs')
  from placed(6) show ?thesis unfolding book_place_def
  proof (cases rule: spec_placeE)
    case (matched bs2 q fs)
    have "fills res = fs" using matched(4-7) by (fastforce simp: empty_order_result_def)
    moreover have "priority_fills (rq_side r) (rq_price r) (rq_id r) (orders_of (opposite_book (rq_side r) bs)) fs"
      using spec_match_priority [OF matched(3)] placed(3) by simp
    ultimately show ?thesis using priority_rep [OF placed(2)] by simp
  qed (simp_all add: empty_order_result_def)
qed

text \<open>The volume an order can trade with is part of the resting volume.\<close>

lemma crossing_volume_le:
  "\<forall>ord \<in> set (orders_of b). 0 < remaining ord \<Longrightarrow> crossing_volume side limit b \<le> volume (orders_of b)"
proof (induction b)
  case Nil
  then show ?case by simp
next
  case (Cons x b)
  then show ?case using volume_nonneg [of "orders_of (x # b)"] by (cases x) auto
qed

lemma available_fits:
  assumes rep: "shard_rep s bs" and fit: "in64 (resting_volume s)"
  shows "in64 (available bs order)"
proof -
  have pos: "\<forall>ord \<in> set (all_orders bs). 0 < remaining ord" using wf_book_positive shard_rep_wf [OF rep] by blast
  then have pos': "\<forall>ord \<in> set (orders_of (opposite_book side bs)). 0 < remaining ord" for side
    by (simp add: all_orders_def opposite_book_def)
  have "0 \<le> volume (orders_of (bs_bids bs))" "0 \<le> volume (orders_of (bs_asks bs))"
    using pos by (auto simp: all_orders_def intro!: volume_nonneg)
  then have "volume (orders_of (opposite_book (rq_side order) bs)) \<le> resting_volume s"
    using resting_volume_rep [OF rep] by (simp add: opposite_book_def all_orders_def)
  then have "0 \<le> available bs order" "available bs order \<le> resting_volume s"
    using crossing_volume_le [OF pos'] crossing_volume_nonneg [OF pos'] by (auto simp: available_def intro: order_trans)
  then show ?thesis using in64_between [of 0 "resting_volume s"] fit by (simp add: in64_def)
qed

lemma spec_match_left:
  assumes "spec_match order bs = (bs', q', fs)" and "wf_book bs" and "0 \<le> rq_quantity order"
  shows "q' = max 0 (rq_quantity order - available bs order)"
  using assms(1)
proof (cases rule: spec_matchE)
  case (buy b')
  then show ?thesis using sweep_left [OF buy(3)] wf_book_positive [OF assms(2)] assms(3)
    by (simp add: available_def opposite_book_def all_orders_def)
next
  case (sell b')
  then show ?thesis using sweep_left [OF sell(3)] wf_book_positive [OF assms(2)] assms(3)
    by (simp add: available_def opposite_book_def all_orders_def)
qed

text \<open>
  C7. Fill-or-kill is all or nothing: as long as the resting volume of the market fits 64 bits, a
  fill-or-kill order is either completely filled, or rejected without a fill and without a change
  to the market. It never rests.
\<close>

theorem fok_all_or_nothing:
  assumes "engine_reachable eng" and "in64 (rq_quantity r)" and "submit r eng = Some (res, eng')"
    and "rq_tif r = kFok" and "in64 (resting_volume (ensure_market (oid_market (rq_id r)) eng))"
  shows "\<not> resting res
    \<and> (accepted res \<and> fully_filled res \<and> filled (fills res) = rq_quantity r
       \<or> \<not> accepted res \<and> reject_code res \<noteq> 0 \<and> fills res = []
         \<and> ensure_market (oid_market (rq_id r)) eng' = ensure_market (oid_market (rq_id r)) eng)"
proof -
  let ?m = "oid_market (rq_id r)" and ?s = "ensure_market (oid_market (rq_id r)) eng"
  have same: "ensure_market ?m eng' = ?s" if "place_order ?s r = Some (res, ?s)"
    using assms(3) that by (auto simp: submit_def Let_def ensure_market_def split: if_splits)
  show ?thesis
    using assms(1,2,3)
  proof (cases rule: submitE)
    case invalid
    then show ?thesis
      by (auto simp: empty_order_result_def kRejectInvalidQuantity_def kRejectInvalidDisplayQuantity_def)
  next
    case (placed bs s' bs')
    have ex: "fillable_quantity ?s r < rq_quantity r \<longleftrightarrow> available bs r < rq_quantity r"
      by (rule fillable_quantity_exact [OF placed(2) available_fits [OF placed(2) assms(5)]])
    from placed(6) show ?thesis unfolding book_place_def
    proof (cases rule: spec_placeE)
      case post_only
      then have "place_order ?s r = Some (res, ?s)"
        by (simp add: place_order_def would_cross_rep [OF placed(2)])
      with post_only same show ?thesis by (simp add: empty_order_result_def kRejectPostOnlyWouldCross_def)
    next
      case insufficient
      then have "place_order ?s r = Some (res, ?s)"
        by (auto simp: place_order_def would_cross_rep [OF placed(2)] fillable_quantity_book [OF placed(2)])
      with insufficient same show ?thesis by (simp add: empty_order_result_def kRejectInsufficientLiquidity_def)
    next
      case (matched bs2 q fs)
      have "\<not> available bs r < rq_quantity r"
        using matched(2) ex assms(4) fillable_quantity_book [OF placed(2)] by simp
      then have "q = 0"
        using spec_match_left [OF matched(3)] placed(1,3) by (simp add: available_def)
      with matched(4) spec_match_conserves(1) [OF matched(3)] show ?thesis by (simp add: empty_order_result_def)
    qed
  qed
qed

theorem fok_all_or_nothing_witness:
  "\<exists>eng res eng'. engine_reachable eng \<and> submit (sample_order 5 kBuy 3 101 kFok 0) eng = Some (res, eng')
     \<and> accepted res \<and> filled (fills res) = 3"
proof -
  let ?maker = "sample_order 2 kSell 5 101 kGtc 0" and ?r = "sample_order 5 kBuy 3 101 kFok 0"
  have "case submit ?maker Map.empty of None \<Rightarrow> False | Some (r1, eng) \<Rightarrow> accepted r1 \<and> fills r1 = []
      \<and> (case submit ?r eng of None \<Rightarrow> False | Some (res, _) \<Rightarrow> accepted res)" by code_simp
  then obtain r1 eng res eng' where e: "submit ?maker Map.empty = Some (r1, eng)" "accepted r1" "fills r1 = []"
    "submit ?r eng = Some (res, eng')" "accepted res" by (auto split: option.splits)
  have ok: "in64 (rq_quantity ?maker)" "in64 (rq_quantity ?r)" "rq_tif ?r = kFok" by code_simp+
  have eng: "engine_reachable eng"
    using engine_reachable.step [OF engine_reachable.start, of "Submit ?maker"] e(1) ok(1) by (simp add: engine_step_def)
  have "resting_volume (ensure_market 1 Map.empty) = 0"
    by (simp add: ensure_market_def new_shard_def resting_volume_def order_sum_def)
  then have "in64 (resting_volume (ensure_market 1 eng))"
    using accepted_order_account [OF engine_reachable.start ok(1) e(1,2)] e(3)
    by (auto simp: sample_order_def in64_def)
  then have "in64 (resting_volume (ensure_market (oid_market (rq_id ?r)) eng))" by (simp add: sample_order_def)
  from fok_all_or_nothing [OF eng ok(2) e(4) ok(3) this] e eng show ?thesis by (auto simp: sample_order_def)
qed

text \<open>
  A post-only order never trades: whatever the book, it either rests without a fill or is
  rejected.
\<close>

lemma post_only_never_trades:
  assumes "engine_reachable eng" and "in64 (rq_quantity r)" and "submit r eng = Some (res, eng')"
    and "HasFlag (rq_flags r) kPostOnly"
  shows "fills res = [] \<and> \<not> fully_filled res"
  using assms(1,2,3)
proof (cases rule: submitE)
  case invalid
  then show ?thesis by (auto simp: empty_order_result_def)
next
  case (placed bs s' bs')
  from placed(6) show ?thesis unfolding book_place_def
  proof (cases rule: spec_placeE)
    case (matched bs2 q fs)
    have "best_crosses bs r = False" using matched(1) assms(4) by blast
    then have "q = rq_quantity r" "fs = []"
      using sweep_no_fills [where b = "opposite_book (rq_side r) bs"] matched(3)
      by (auto simp: spec_match_def best_crosses_def split: if_splits)
    with matched(5-7) placed(1) show ?thesis by (fastforce simp: empty_order_result_def)
  qed (simp_all add: empty_order_result_def)
qed

text \<open>
  An immediate-or-cancel or fill-or-kill order leaves nothing behind: it is not reported as
  resting and the order store gains no entry.
\<close>

lemma immediate_orders_never_rest:
  assumes "engine_reachable eng" and "in64 (rq_quantity r)" and "submit r eng = Some (res, eng')"
    and "rq_tif r = kIoc \<or> rq_tif r = kFok"
  shows "\<not> resting res
    \<and> dom (book_orders (ensure_market (oid_market (rq_id r)) eng'))
        \<subseteq> dom (book_orders (ensure_market (oid_market (rq_id r)) eng))"
  using assms(1,2,3)
proof (cases rule: submitE)
  case invalid
  then show ?thesis by (auto simp: empty_order_result_def)
next
  case (placed bs s' bs')
  have s': "ensure_market (oid_market (rq_id r)) eng' = s'" using placed(4) by (simp add: ensure_market_def)
  have "keys (all_orders bs') \<subseteq> keys (all_orders bs) \<and> \<not> resting res"
    using placed(6) unfolding book_place_def
  proof (cases rule: spec_placeE)
    case (matched bs2 q fs)
    have "bs' = bs2 \<and> \<not> resting res"
      using matched(4,5) assms(4) by (cases "0 < q") (simp_all add: empty_order_result_def)
    with spec_match_keys [OF matched(3)] show ?thesis by (simp add: all_orders_def)
  qed (simp_all add: empty_order_result_def)
  then show ?thesis by (simp add: s' shard_repD(10) [OF placed(5)] shard_repD(10) [OF placed(2)])
qed

section \<open>Cancel and replace\<close>

text \<open>What the store holds for an order of the specification: the order with its level and links.\<close>

lemma unlinked_record:
  assumes rep: "shard_rep s bs" and ord: "ord \<in> set (all_orders bs)"
  shows "map_option unlinked (book_orders s (okey ord))
           = Some (ord\<lparr>rec_level := Some (book_side (rq_side (rec_request ord)), rq_price (rec_request ord)),
                       rec_prev := None, rec_next := None\<rparr>)"
proof -
  obtain bk p os where l: "(p, os) \<in> set (bs_side bs bk)" "ord \<in> set os" using ord by (auto simp: all_orders_side)
  moreover have "order_ok bk p ord" using shard_rep_side(2) [OF rep l(1)] l(2) by blast
  ultimately show ?thesis using record_at [OF rep l] by (auto simp: unlinked_def order_ok_def)
qed

lemma cancel_frame:
  assumes rep: "shard_rep s bs" and rep': "shard_rep s' (spec_remove k bs)" and "k' \<noteq> k"
  shows "map_option unlinked (book_orders s' k') = map_option unlinked (book_orders s k')"
proof (cases "k' \<in> keys (all_orders bs)")
  case True
  then obtain ord where ord: "ord \<in> set (all_orders bs)" "okey ord = k'" by (rule keysE)
  then have "ord \<in> set (all_orders (spec_remove k bs))" using assms(3) by (simp add: all_orders_remove)
  with ord unlinked_record [OF rep] unlinked_record [OF rep'] show ?thesis by metis
next
  case False
  then have "k' \<notin> keys (all_orders (spec_remove k bs))" by (auto simp: all_orders_remove keys_def)
  with False show ?thesis
    using resting_in_store [OF rep, of k'] resting_in_store [OF rep', of k'] by auto
qed

text \<open>
  C8. A cancel removes exactly the named order: it succeeds if and only if the market holds an order
  with this identifier; a refused cancel changes nothing; a successful one leaves every other order
  of the market with its request, quantities, level and sequence number, changes no other market,
  and the order is gone.
\<close>

theorem cancel_exact:
  assumes "engine_reachable eng" and "cancel req eng = Some (res, eng')"
  defines "m \<equiv> oid_market (cr_id req)" and "k \<equiv> order_key (cr_id req)"
  shows "(cancelled res \<longleftrightarrow> (\<exists>s. eng m = Some s \<and> book_orders s k \<noteq> None))
    \<and> (\<not> cancelled res \<longrightarrow> eng' = eng \<and> cancel_reject_code res \<noteq> 0)
    \<and> (cancelled res \<longrightarrow> (\<exists>s s'. eng m = Some s \<and> eng' = eng(m \<mapsto> s') \<and> book_orders s' k = None
        \<and> (\<forall>k'. k' \<noteq> k \<longrightarrow> map_option unlinked (book_orders s' k') = map_option unlinked (book_orders s k'))))"
proof (cases "\<exists>s. eng m = Some s \<and> book_orders s k \<noteq> None")
  case False
  then show ?thesis
    using assms(2) unfolding m_def k_def
    by (auto simp: cancel_def Let_def kRejectUnknownMarket_def kRejectOrderNotFound_def split: option.splits if_splits)
next
  case True
  then obtain s where s: "eng m = Some s" "book_orders s k \<noteq> None" by blast
  obtain bs where rep: "shard_rep s bs" using reachable_shard [OF assms(1) s(1)] .
  obtain ord where ord: "ord \<in> set (all_orders bs)" "okey ord = k"
    using s(2) resting_in_store [OF rep] by (auto elim: keysE)
  obtain s1 where s1: "remove_order_from_book s k = Some s1"
    "shard_rep (s1\<lparr>book_orders := (book_orders s1)(k := None)\<rparr>) (spec_remove k bs)"
    using remove_order_rep [OF rep ord(1)] ord(2) by auto
  let ?s' = "s1\<lparr>book_orders := (book_orders s1)(k := None)\<rparr>"
  have res: "cancelled res" "eng' = eng(m \<mapsto> ?s')"
    using assms(2) s s1(1) by (auto simp: cancel_def m_def k_def Let_def)
  have fr: "map_option unlinked (book_orders ?s' k') = map_option unlinked (book_orders s k')" if "k' \<noteq> k" for k'
    by (rule cancel_frame [OF rep s1(2) that])
  have "book_orders ?s' k = None" by simp
  then show ?thesis using s(1) True res fr by blast
qed

theorem cancel_exact_witness:
  "\<exists>eng res eng'. engine_reachable eng
     \<and> cancel \<lparr>cr_id = \<lparr>oid_market = 1, oid_session = 7, oid_local = 2\<rparr>\<rparr> eng = Some (res, eng') \<and> cancelled res
     \<and> (\<exists>s s'. eng 1 = Some s \<and> eng' = eng(1 \<mapsto> s')
          \<and> book_orders s' (order_key \<lparr>oid_market = 1, oid_session = 7, oid_local = 2\<rparr>) = None)"
proof -
  let ?req = "\<lparr>cr_id = \<lparr>oid_market = 1, oid_session = 7, oid_local = 2\<rparr>\<rparr>"
  have "after sample_ops (\<lambda>eng. case cancel ?req eng of None \<Rightarrow> False | Some (res, _) \<Rightarrow> cancelled res)" by code_simp
  then obtain eng res eng' where e: "engine_reachable eng" "cancel ?req eng = Some (res, eng')" "cancelled res"
    by (elim afterE) (auto split: option.splits)
  from cancel_exact [OF e(1,2)] e show ?thesis by auto
qed

lemma place_refused:
  assumes "spec_place liq order bs = (res, bs')"
    and "reject_code res = kRejectPostOnlyWouldCross \<or> reject_code res = kRejectInsufficientLiquidity"
  shows "\<not> accepted res \<and> bs' = bs"
  using assms
  by (auto simp: spec_place_def Let_def empty_order_result_def kRejectPostOnlyWouldCross_def
      kRejectInsufficientLiquidity_def kRejectDuplicateOrderId_def split: prod.splits if_splits)

text \<open>
  C10. A replace that the book refuses loses the original order: when the new terms are rejected as
  post-only crossing or as unfillable, the order that was to be replaced is no longer in the book,
  although the request is reported as rejected.
\<close>

theorem rejected_replace_drops_order:
  assumes "engine_reachable eng" and "in64 (rp_new_quantity req)" and "replace req eng = Some (res, eng')"
    and "rr_reject_code res = kRejectPostOnlyWouldCross \<or> rr_reject_code res = kRejectInsufficientLiquidity"
  shows "\<not> rr_accepted res
    \<and> (\<exists>s s'. eng (oid_market (rp_id req)) = Some s \<and> book_orders s (order_key (rp_id req)) \<noteq> None
         \<and> eng' (oid_market (rp_id req)) = Some s' \<and> book_orders s' (order_key (rp_id req)) = None)"
proof -
  let ?m = "oid_market (rp_id req)" and ?k = "order_key (rp_id req)"
  have codes: "rr_reject_code res \<noteq> kRejectUnknownMarket" "rr_reject_code res \<noteq> kRejectOrderNotFound"
    using assms(4) by (auto simp: kRejectPostOnlyWouldCross_def kRejectInsufficientLiquidity_def
        kRejectUnknownMarket_def kRejectOrderNotFound_def)
  obtain s where s: "eng ?m = Some s" using assms(3) codes by (auto simp: replace_def split: option.splits)
  obtain bs where rep: "shard_rep s bs" using reachable_shard [OF assms(1) s] .
  obtain old where old: "book_orders s ?k = Some old"
    using assms(3) codes s by (auto simp: replace_def Let_def split: option.splits)
  obtain ord where ord: "ord \<in> set (all_orders bs)" "okey ord = ?k"
    using old resting_in_store [OF rep, of ?k] by (auto elim: keysE)
  obtain s1 where s1: "remove_order_from_book s ?k = Some s1"
    "shard_rep (s1\<lparr>book_orders := (book_orders s1)(?k := None)\<rparr>) (spec_remove ?k bs)"
    using remove_order_rep [OF rep ord(1)] ord(2) by auto
  let ?new = "replaced_request req (rec_request old)"
  obtain res1 bs2 where bp: "book_place ?new (spec_remove ?k bs) = (res1, bs2)"
    by (cases "book_place ?new (spec_remove ?k bs)")
  obtain s2 where s2: "place_order (s1\<lparr>book_orders := (book_orders s1)(?k := None)\<rparr>) ?new = Some (res1, s2)"
    "shard_rep s2 bs2"
    using place_order_rep [OF s1(2) _ bp] assms(2) by (auto simp: replaced_request_def)
  have r: "eng' = eng(?m \<mapsto> s2)" "rr_accepted res = accepted res1" "rr_reject_code res = reject_code res1"
    using assms(3) s old s1(1) s2(1) by (auto simp: replace_def Let_def replaced_request_def)
  have "\<not> accepted res1 \<and> bs2 = spec_remove ?k bs"
    using place_refused [OF bp [unfolded book_place_def]] assms(4) r(3) by simp
  moreover from this have "book_orders s2 ?k = None"
    using resting_in_store [OF s2(2), of ?k] by (auto simp: all_orders_remove keys_def)
  ultimately show ?thesis using r s old by simp
qed

theorem rejected_replace_drops_order_witness:
  "\<exists>eng res eng'. engine_reachable eng
     \<and> replace \<lparr>rp_id = \<lparr>oid_market = 1, oid_session = 7, oid_local = 1\<rparr>, rp_new_quantity = 5, rp_new_price = 101,
                rp_new_display_quantity = 0, rp_new_tif = kGtc, rp_new_flags = kPostOnly\<rparr> eng = Some (res, eng')
     \<and> \<not> rr_accepted res
     \<and> (\<exists>s'. eng' 1 = Some s' \<and> book_orders s' (order_key \<lparr>oid_market = 1, oid_session = 7, oid_local = 1\<rparr>) = None)"
proof -
  let ?req = "\<lparr>rp_id = \<lparr>oid_market = 1, oid_session = 7, oid_local = 1\<rparr>, rp_new_quantity = 5, rp_new_price = 101,
                rp_new_display_quantity = 0, rp_new_tif = kGtc, rp_new_flags = kPostOnly\<rparr>"
  have "after sample_ops (\<lambda>eng. case replace ?req eng of
      None \<Rightarrow> False | Some (res, _) \<Rightarrow> rr_reject_code res = kRejectPostOnlyWouldCross)" by code_simp
  then obtain eng res eng' where e: "engine_reachable eng" "replace ?req eng = Some (res, eng')"
    "rr_reject_code res = kRejectPostOnlyWouldCross"
    by (elim afterE) (auto split: option.splits)
  have "in64 (rp_new_quantity ?req)" by code_simp
  from rejected_replace_drops_order [OF e(1) this e(2)] e show ?thesis by auto
qed

text \<open>
  An order refused for a duplicate identifier has traded all the same: the result is not
  accepted, yet its fills have been taken from the resting volume of the market.
\<close>

lemma duplicate_id_trades_before_reject:
  assumes "engine_reachable eng" and "in64 (rq_quantity r)" and "submit r eng = Some (res, eng')"
    and "reject_code res = kRejectDuplicateOrderId"
  shows "\<not> accepted res
    \<and> resting_volume (ensure_market (oid_market (rq_id r)) eng')
        = resting_volume (ensure_market (oid_market (rq_id r)) eng) - filled (fills res)"
  using assms(1,2,3)
proof (cases rule: submitE)
  case invalid
  with assms(4) show ?thesis
    by (auto simp: empty_order_result_def kRejectDuplicateOrderId_def kRejectInvalidQuantity_def
        kRejectInvalidDisplayQuantity_def)
next
  case (placed bs s' bs')
  have s': "ensure_market (oid_market (rq_id r)) eng' = s'" using placed(4) by (simp add: ensure_market_def)
  from placed(6) have "\<not> accepted res \<and> volume (all_orders bs') = volume (all_orders bs) - filled (fills res)"
    unfolding book_place_def
  proof (cases rule: spec_placeE)
    case (matched bs2 q fs)
    have "reject_code res \<noteq> 0" using assms(4) by (simp add: kRejectDuplicateOrderId_def)
    then have "res = empty_order_result\<lparr>reject_code := kRejectDuplicateOrderId, fills := fs\<rparr> \<and> bs' = bs2"
      using matched(4-7) by (smt (verit) OrderResult.select_convs OrderResult.simps empty_order_result_def)
    then show ?thesis using spec_match_conserves(2) [OF matched(3)]
      by (simp add: all_orders_def empty_order_result_def)
  qed (use assms(4) in \<open>simp_all add: empty_order_result_def kRejectDuplicateOrderId_def
      kRejectPostOnlyWouldCross_def kRejectInsufficientLiquidity_def\<close>)
  then show ?thesis by (simp add: s' resting_volume_rep [OF placed(2)] resting_volume_rep [OF placed(5)])
qed

text \<open>
  What a resting order shows: in every reachable state a resting order has a positive quantity
  left and shows between nothing and all of it; a hidden order shows nothing, an iceberg order at
  most its display size, any other order everything.
\<close>

lemma displayed_quantity_bounded:
  assumes "engine_reachable eng" and "eng m = Some s" and "book_orders s k = Some rec"
  shows "0 < remaining rec \<and> display_remaining rec \<le> remaining rec \<and> 0 \<le> display_remaining rec
    \<and> (is_hidden rec \<longrightarrow> display_remaining rec = 0)
    \<and> (\<not> is_hidden rec \<and> is_iceberg rec \<and> 0 < display_size rec \<longrightarrow>
         display_remaining rec = min (display_size rec) (remaining rec))
    \<and> (\<not> is_hidden rec \<and> \<not> is_iceberg rec \<longrightarrow> display_remaining rec = remaining rec)"
proof -
  obtain bs where rep: "shard_rep s bs" using reachable_shard [OF assms(1,2)] .
  obtain ord where ord: "ord \<in> set (all_orders bs)" "okey ord = k"
    using assms(3) resting_in_store [OF rep, of k] by (auto elim: keysE)
  obtain bk p os where l: "(p, os) \<in> set (bs_side bs bk)" "ord \<in> set os" using ord(1) by (auto simp: all_orders_side)
  have ok: "0 < remaining ord" "refresh_display ord = ord"
    using shard_rep_side(2) [OF rep l(1)] l(2) by (auto simp: order_ok_def)
  obtain a c where rec: "rec = ord\<lparr>rec_level := Some (bk, p), rec_prev := a, rec_next := c\<rparr>"
    using record_at [OF rep l] assms(3) ord(2) by auto
  have "display_remaining ord = display_remaining (refresh_display ord)" using ok(2) by simp
  with ok(1) show ?thesis by (auto simp: rec refresh_display_def is_hidden_def is_iceberg_def split: if_splits)
qed

end
