(* ===== verification/Matching_Replace.thy ===== *)
theory Matching_Replace
  imports Matching_Guarantees
begin

text \<open>
  What a replace is: a cancel followed by a new order with the amended terms, which loses its place in the
  queue; but without the validation of \<open>submit\<close>, so that terms which a new order cannot have are accepted.
\<close>

definition replace_result_of :: "OrderResult \<Rightarrow> ReplaceResult" where
  "replace_result_of res = \<lparr>rr_accepted = accepted res, rr_resting = resting res,
     rr_reject_code = reject_code res, rr_fills = fills res\<rparr>"

text \<open>
  C9. Replacing a resting order by valid terms is the same as cancelling it and submitting the amended
  order: same result, same fills, same engine state.
\<close>

theorem replace_is_cancel_then_submit:
  assumes "eng (oid_market (rp_id req)) = Some shard" and "book_orders shard (order_key (rp_id req)) = Some old"
    and "0 < rp_new_quantity req"
    and "HasFlag (rp_new_flags req) kIceberg \<Longrightarrow> 0 < rp_new_display_quantity req \<and> rp_new_display_quantity req \<le> rp_new_quantity req"
  shows "replace req eng =
     Option.bind (cancel \<lparr>cr_id = rp_id req\<rparr> eng) (\<lambda>(_, eng1).
       map_option (map_prod replace_result_of id) (submit (replaced_request req (rec_request old)) eng1))"
  using assms
  by (auto simp: replace_def cancel_def submit_def ensure_market_def replaced_request_def replace_result_of_def Let_def
      split: bind_splits)

theorem replace_is_cancel_then_submit_witness:
  "\<exists>eng shard old. engine_reachable eng \<and> eng 1 = Some shard
     \<and> book_orders shard (order_key \<lparr>oid_market = 1, oid_session = 7, oid_local = 1\<rparr>) = Some old
     \<and> replace \<lparr>rp_id = \<lparr>oid_market = 1, oid_session = 7, oid_local = 1\<rparr>, rp_new_quantity = 8, rp_new_price = 101,
                rp_new_display_quantity = 2, rp_new_tif = kGtc, rp_new_flags = kIceberg\<rparr> eng =
     Option.bind (cancel \<lparr>cr_id = \<lparr>oid_market = 1, oid_session = 7, oid_local = 1\<rparr>\<rparr> eng) (\<lambda>(_, eng1).
       map_option (map_prod replace_result_of id) (submit (replaced_request \<lparr>rp_id = \<lparr>oid_market = 1, oid_session = 7, oid_local = 1\<rparr>,
         rp_new_quantity = 8, rp_new_price = 101, rp_new_display_quantity = 2, rp_new_tif = kGtc, rp_new_flags = kIceberg\<rparr> (rec_request old)) eng1))"
proof -
  let ?id = "\<lparr>oid_market = 1, oid_session = 7, oid_local = 1\<rparr>"
  let ?req = "\<lparr>rp_id = ?id, rp_new_quantity = 8, rp_new_price = 101, rp_new_display_quantity = 2, rp_new_tif = kGtc, rp_new_flags = kIceberg\<rparr>"
  have "after sample_ops (\<lambda>eng. case eng 1 of None \<Rightarrow> False | Some s \<Rightarrow> book_orders s (order_key ?id) \<noteq> None)" by code_simp
  then obtain eng shard old where e: "engine_reachable eng" "eng 1 = Some shard" "book_orders shard (order_key ?id) = Some old"
    by (elim afterE) (auto split: option.splits)
  from replace_is_cancel_then_submit [of eng ?req shard old] e show ?thesis by (intro exI conjI) auto
qed

text \<open>
  Without validation: a replace with a quantity of zero or less, which \<open>submit\<close> refuses, is accepted as
  filled, although nothing traded, and takes the order off the book.
\<close>

lemma sweep_nothing: "q \<le> 0 \<Longrightarrow> sweep side limit tid q b = (b, q, [])"
  by (cases b) auto

lemma place_nothing:
  assumes "rq_quantity order \<le> 0" and "\<not> HasFlag (rq_flags order) kPostOnly" and "rq_tif order \<noteq> kFok"
  shows "book_place order bs = (empty_order_result\<lparr>fully_filled := True, accepted := True\<rparr>, bs\<lparr>bs_next := bs_next bs + 1\<rparr>)"
  using assms by (cases bs) (auto simp: book_place_def spec_place_def spec_match_def sweep_nothing opposite_book_def empty_order_result_def)

lemma replace_unchecked_quantity:
  assumes "engine_reachable eng" and "in64 (rp_new_quantity req)" and "rp_new_quantity req \<le> 0"
    and "\<not> HasFlag (rp_new_flags req) kPostOnly" and "rp_new_tif req \<noteq> kFok"
    and s: "eng (oid_market (rp_id req)) = Some shard" and "book_orders shard (order_key (rp_id req)) \<noteq> None"
  shows "\<exists>shard'. replace req eng = Some (\<lparr>rr_accepted = True, rr_resting = False, rr_reject_code = 0, rr_fills = []\<rparr>,
       eng(oid_market (rp_id req) \<mapsto> shard')) \<and> book_orders shard' (order_key (rp_id req)) = None"
proof -
  let ?k = "order_key (rp_id req)"
  obtain old where old: "book_orders shard ?k = Some old" using assms(7) by blast
  obtain bs where rep: "shard_rep shard bs" using reachable_shard [OF assms(1) s] .
  obtain ord where ord: "ord \<in> set (all_orders bs)" "okey ord = ?k"
    using old resting_in_store [OF rep, of ?k] by (auto elim: keysE)
  obtain s1 where s1: "remove_order_from_book shard ?k = Some s1"
    "shard_rep (s1\<lparr>book_orders := (book_orders s1)(?k := None)\<rparr>) (spec_remove ?k bs)"
    using remove_order_rep [OF rep ord(1)] ord(2) by auto
  let ?new = "replaced_request req (rec_request old)"
  have bp: "book_place ?new (spec_remove ?k bs) = (empty_order_result\<lparr>fully_filled := True, accepted := True\<rparr>,
      (spec_remove ?k bs)\<lparr>bs_next := bs_next (spec_remove ?k bs) + 1\<rparr>)"
    by (rule place_nothing) (use assms(3-5) in \<open>simp_all add: replaced_request_def\<close>)
  obtain s2 where s2: "place_order (s1\<lparr>book_orders := (book_orders s1)(?k := None)\<rparr>) ?new
      = Some (empty_order_result\<lparr>fully_filled := True, accepted := True\<rparr>, s2)"
      "shard_rep s2 ((spec_remove ?k bs)\<lparr>bs_next := bs_next (spec_remove ?k bs) + 1\<rparr>)"
    using place_order_rep [OF s1(2) _ bp] assms(2) by (auto simp: replaced_request_def)
  have "?k \<notin> keys (all_orders ((spec_remove ?k bs)\<lparr>bs_next := bs_next (spec_remove ?k bs) + 1\<rparr>))"
    using all_orders_remove [of ?k bs] by (auto simp: keys_def all_orders_def)
  then have "book_orders s2 ?k = None" using resting_in_store [OF s2(2), of ?k] by auto
  with s old s1(1) s2(1) show ?thesis
    by (auto simp: replace_def Let_def replaced_request_def empty_order_result_def)
qed

end
