(* ===== verification/Matching_Priority.thy ===== *)
theory Matching_Priority
  imports Matching_Guarantees
begin

text \<open>
  Price-time priority: the queue that the matching follows has the best price first and, at one price, the order
  that came first. That an order came before another shows in the sequence numbers that the engine gives
  to the orders it places; the queues of the book are sorted by them, on every state that the engine reaches
  with fewer operations than there are numbers.
\<close>

section \<open>Queues by age\<close>

definition queue_aged :: "u64 \<Rightarrow> Queue \<Rightarrow> bool" where
  "queue_aged n os \<longleftrightarrow> sorted_wrt (\<lambda>a b. fifo_seq a < fifo_seq b) os \<and> (\<forall>ord \<in> set os. fifo_seq ord < n)"

definition book_aged :: "u64 \<Rightarrow> QueueMap \<Rightarrow> bool" where
  "book_aged n b \<longleftrightarrow> (\<forall>(p, os) \<in> set b. queue_aged n os)"

definition aged :: "BookState \<Rightarrow> bool" where
  "aged bs \<longleftrightarrow> book_aged (bs_next bs) (bs_bids bs) \<and> book_aged (bs_next bs) (bs_asks bs)"

lemma queue_aged_simps [simp]:
  "queue_aged n []" "queue_aged n (ord # os) \<longleftrightarrow> (\<forall>o' \<in> set os. fifo_seq ord < fifo_seq o') \<and> fifo_seq ord < n \<and> queue_aged n os"
  by (auto simp: queue_aged_def)

lemma book_aged_simps [simp]: "book_aged n []" "book_aged n ((p, os) # b) \<longleftrightarrow> queue_aged n os \<and> book_aged n b"
  by (auto simp: book_aged_def)

lemma book_aged_mono: "book_aged n b \<Longrightarrow> n \<le> n' \<Longrightarrow> book_aged n' b"
  by (fastforce simp: book_aged_def queue_aged_def)

lemma book_aged_orders: "book_aged n b \<Longrightarrow> ord \<in> set (orders_of b) \<Longrightarrow> fifo_seq ord < n"
  by (induction b) (auto simp: queue_aged_def)

lemma fill_queue_aged: "fill_queue tid p q os = (os', q', fs) \<Longrightarrow> queue_aged n os \<Longrightarrow> queue_aged n os'"
  by (induction os arbitrary: q os' q' fs) (auto split: if_splits prod.splits)

lemma sweep_aged: "sweep side limit tid q b = (b', q', fs) \<Longrightarrow> book_aged n b \<Longrightarrow> book_aged n b'"
proof (induction b arbitrary: q b' q' fs)
  case (Cons x b)
  obtain p os where x: "x = (p, os)" by (cases x)
  from Cons.prems(1) [unfolded x] Cons.prems(2) show ?case
    by (cases rule: sweep_Cons_cases) (auto simp: x dest!: Cons.IH fill_queue_aged split: if_splits)
qed simp

lemma without_aged: "book_aged n b \<Longrightarrow> book_aged n (without k b)"
  by (auto simp: book_aged_def without_def queue_aged_def sorted_wrt_filter)

lemma omap_put_set: "set (omap_put lt k v b) \<subseteq> insert (k, v) (set b)"
  by (induction lt k v b rule: omap_put.induct) auto

lemma omap_find_in: "omap_find k b = Some v \<Longrightarrow> (k, v) \<in> set b"
  by (induction b) (auto split: if_splits)

lemma enqueue_aged:
  assumes "book_aged (fifo_seq r) b" and "fifo_seq r < n"
  shows "book_aged n (enqueue lt r b)"
proof -
  let ?p = "rq_price (rec_request r)"
  have "queue_aged (fifo_seq r) (queue_at ?p b)"
    using assms(1) omap_find_in [of ?p b] by (fastforce simp: queue_at_def book_aged_def split: option.splits)
  then have "queue_aged n (queue_at ?p b @ [r])" using assms(2) by (fastforce simp: queue_aged_def sorted_wrt_append)
  moreover have "book_aged n b" using book_aged_mono [OF assms(1)] assms(2) by simp
  ultimately show ?thesis using omap_put_set [of lt ?p "queue_at ?p b @ [r]" b] by (fastforce simp: enqueue_def book_aged_def)
qed

section \<open>Every operation keeps the order of age\<close>

lemma spec_match_aged:
  assumes "spec_match order bs = (bs', q', fs)"
  shows "bs_next bs' = bs_next bs" "book_aged n (bs_bids bs) \<Longrightarrow> book_aged n (bs_bids bs')" "book_aged n (bs_asks bs) \<Longrightarrow> book_aged n (bs_asks bs')"
  using assms by (cases rule: spec_matchE; auto dest: sweep_aged)+

lemma spec_remove_aged: "aged bs \<Longrightarrow> aged (spec_remove k bs) \<and> bs_next (spec_remove k bs) = bs_next bs"
  by (simp add: aged_def spec_remove_def without_aged)

lemma spec_rest_aged:
  assumes "book_aged (fifo_seq r) (bs_bids bs)" and "book_aged (fifo_seq r) (bs_asks bs)" and "fifo_seq r < bs_next bs"
  shows "aged (spec_rest r bs)" "bs_next (spec_rest r bs) = bs_next bs"
  using enqueue_aged [OF assms(1,3)] enqueue_aged [OF assms(2,3)] book_aged_mono [OF assms(1)] book_aged_mono [OF assms(2)] assms(3)
  by (auto simp: aged_def spec_rest_def)

lemma spec_place_aged:
  assumes "spec_place liq order bs = (res, bs')" and "aged bs" and "bs_next bs < bs_next bs + 1"
  shows "aged bs'" "bs_next bs' = bs_next bs \<or> bs_next bs' = bs_next bs + 1"
proof -
  have "aged bs' \<and> (bs_next bs' = bs_next bs \<or> bs_next bs' = bs_next bs + 1)"
    using assms(1)
  proof (cases rule: spec_placeE)
    case (matched bs2 q fs)
    note m = spec_match_aged [OF matched(3)]
    have b: "book_aged (bs_next bs) (bs_bids bs2)" "book_aged (bs_next bs) (bs_asks bs2)" "bs_next bs2 = bs_next bs + 1"
      using m assms(2) by (simp_all add: aged_def)
    then have "aged bs2" using assms(3) by (auto simp: aged_def intro: book_aged_mono)
    moreover have "aged (spec_rest (resting_record order (bs_next bs) q) bs2)" "bs_next (spec_rest (resting_record order (bs_next bs) q) bs2) = bs_next bs2"
      using spec_rest_aged [of "resting_record order (bs_next bs) q" bs2] b assms(3) by simp_all
    ultimately show ?thesis
      using matched(4-7) b(3) by (cases "q > 0"; cases "rq_tif order = kIoc \<or> rq_tif order = kFok"; cases "order_key (rq_id order) \<in> keys (all_orders bs2)") auto
  qed (use assms(2) in simp_all)
  then show "aged bs'" "bs_next bs' = bs_next bs \<or> bs_next bs' = bs_next bs + 1" by simp_all
qed

text \<open>After \<open>n\<close> operations at most \<open>n\<close> numbers have been given in a market.\<close>

definition books_aged :: "nat \<Rightarrow> BookEngine \<Rightarrow> bool" where
  "books_aged n be \<longleftrightarrow> (\<forall>m bs. be m = Some bs \<longrightarrow> aged bs \<and> unat (bs_next bs) \<le> Suc n)"

lemma new_book_aged: "aged new_book" "unat (bs_next new_book) \<le> Suc n"
  by (simp_all add: new_book_def aged_def)

lemma next_number:
  fixes x :: u64
  assumes "unat x \<le> Suc n" and "Suc n < 2 ^ 64 - 1"
  shows "x < x + 1" "unat (x + 1) \<le> Suc (Suc n)"
proof -
  have "unat (x + 1) = unat x + 1" using assms by (simp add: unat_word_ariths)
  then show "x < x + 1" "unat (x + 1) \<le> Suc (Suc n)" using assms(1) by (simp_all add: word_less_nat_alt)
qed

lemma book_place_aged:
  assumes "book_place r bs = (res, bs')" and "aged bs" and "unat (bs_next bs) \<le> Suc n" and "Suc n < 2 ^ 64 - 1"
  shows "aged bs' \<and> unat (bs_next bs') \<le> Suc (Suc n)"
  using spec_place_aged [OF assms(1) [unfolded book_place_def] assms(2) next_number(1) [OF assms(3,4)]] next_number(2) [OF assms(3,4)] assms(3) by auto

lemma books_aged_upd: "books_aged n be \<Longrightarrow> aged bs \<and> unat (bs_next bs) \<le> Suc n' \<Longrightarrow> n \<le> n' \<Longrightarrow> books_aged n' (be(m \<mapsto> bs))"
  by (fastforce simp: books_aged_def)

lemma books_aged_later: "books_aged n be \<Longrightarrow> books_aged (Suc n) be"
  by (fastforce simp: books_aged_def)

lemma book_at_aged: "books_aged n be \<Longrightarrow> aged (book_at m be) \<and> unat (bs_next (book_at m be)) \<le> Suc n"
  using new_book_aged by (auto simp: book_at_def books_aged_def split: option.splits)

lemma book_step_aged:
  assumes "books_aged n be" and "Suc n < 2 ^ 64 - 1"
  shows "books_aged (Suc n) (snd (book_step op be))"
proof (cases op)
  case (Submit r)
  let ?m = "oid_market (rq_id r)"
  obtain res bs' where "book_place r (book_at ?m be) = (res, bs')" by (metis surj_pair)
  with book_place_aged [OF this _ _ assms(2)] book_at_aged [OF assms(1)] books_aged_upd [OF assms(1), of bs' "Suc n"] show ?thesis
    by (simp add: Submit book_step_def book_submit_def books_aged_later [OF assms(1)] Let_def)
next
  case (Cancel r)
  then show ?thesis
    using books_aged_later [OF assms(1)] spec_remove_aged assms(1)
    by (auto simp: book_step_def book_cancel_def books_aged_def le_SucI split: option.splits)
next
  case (Replace r)
  show ?thesis
  proof (cases "be (oid_market (rp_id r))")
    case None
    then show ?thesis using books_aged_later [OF assms(1)] by (simp add: Replace book_step_def book_replace_def)
  next
    case (Some bs)
    then have "aged bs" "unat (bs_next bs) \<le> Suc n" using assms(1) by (auto simp: books_aged_def)
    with spec_remove_aged [of bs] have rm: "aged (spec_remove k bs)" "unat (bs_next (spec_remove k bs)) \<le> Suc n" for k by simp_all
    have "books_aged (Suc n) (be(oid_market (rp_id r) \<mapsto> bs'))" if "book_place x (spec_remove k bs) = (res, bs')" for x k res bs'
      using books_aged_upd [OF assms(1) book_place_aged [OF that rm assms(2)]] by simp
    then show ?thesis using Some books_aged_later [OF assms(1)]
      by (simp add: Replace book_step_def book_replace_def Let_def split: option.split prod.split)
  qed
qed (use assms(1) books_aged_upd [OF assms(1)] new_book_aged books_aged_later in \<open>simp_all add: book_step_def\<close>)

lemma run_spec_aged:
  assumes "books_aged n be" and "n + length ops < 2 ^ 64 - 1"
  shows "books_aged (n + length ops) (snd (run_spec book_step ops be))"
  using assms
proof (induction ops arbitrary: n be)
  case (Cons op ops)
  have "books_aged (Suc n) (snd (book_step op be))" using book_step_aged [OF Cons.prems(1)] Cons.prems(2) by simp
  from Cons.IH [OF this] Cons.prems(2) show ?case by (simp add: case_prod_unfold Let_def)
qed simp

section \<open>Priority\<close>

text \<open>The priority of two resting orders: the better price, and at the same price the smaller sequence number.\<close>

definition before :: "Book \<Rightarrow> OrderRecord \<Rightarrow> OrderRecord \<Rightarrow> bool" where
  "before bk a b \<longleftrightarrow>
     (if bk = Bids then rq_price (rec_request a) > rq_price (rec_request b) else rq_price (rec_request a) < rq_price (rec_request b))
     \<or> rq_price (rec_request a) = rq_price (rec_request b) \<and> fifo_seq a < fifo_seq b"

lemma orders_sorted:
  assumes "book_ok lt bk b" and "book_aged n b" and "\<And>p q. lt p q \<longleftrightarrow> (if bk = Bids then p > q else p < (q :: int))"
  shows "sorted_wrt (before bk) (orders_of b)"
  using assms(1,2)
proof (induction b)
  case (Cons x b)
  obtain p os where x: "x = (p, os)" by (cases x)
  have level: "rq_price (rec_request ord) = p" if "ord \<in> set os" for ord using Cons.prems(1) that by (simp add: x order_ok_def)
  have "sorted_wrt (\<lambda>a b. fifo_seq a < fifo_seq b) os" using Cons.prems(2) by (simp add: x queue_aged_def)
  then have "sorted_wrt (before bk) os" by (rule sorted_wrt_mono_rel [rotated]) (simp add: before_def level)
  moreover have "before bk a c" if "a \<in> set os" "c \<in> set (orders_of b)" for a c
  proof -
    have "lt p (rq_price (rec_request c))" using book_ok_orderD [of lt bk b c] Cons.prems(1) that(2) by (auto simp: x)
    then show ?thesis using level [OF that(1)] assms(3) [of p "rq_price (rec_request c)"] by (simp add: before_def)
  qed
  ultimately show ?case using Cons by (simp add: x sorted_wrt_append)
qed simp

lemma stored_fields:
  assumes "shard_rep s bs" and "ord \<in> set (all_orders bs)"
  shows "rec_request (the (book_orders s (okey ord))) = rec_request ord" "fifo_seq (the (book_orders s (okey ord))) = fifo_seq ord"
  using store_record [OF assms] by auto

lemma book_queue_sorted:
  assumes "shard_rep s bs" and "aged bs"
  shows "sorted_wrt (before bk) (book_queue s bk)"
proof -
  have wf: "wf_book bs" by (rule shard_rep_wf [OF assms(1)])
  have "sorted_wrt (before bk) (orders_of (bs_side bs bk))"
  proof (cases bk)
    case Bids
    then show ?thesis using orders_sorted [of "(>)" Bids "bs_bids bs" "bs_next bs"] wf assms(2) by (simp add: wf_book_def aged_def bs_side_def)
  next
    case Asks
    then show ?thesis using orders_sorted [of "(<)" Asks "bs_asks bs" "bs_next bs"] wf assms(2) by (simp add: wf_book_def aged_def bs_side_def)
  qed
  moreover have "before bk (the (book_orders s (okey a))) (the (book_orders s (okey c))) = before bk a c"
    if "a \<in> set (orders_of (bs_side bs bk))" "c \<in> set (orders_of (bs_side bs bk))" for a c
  proof -
    have "a \<in> set (all_orders bs)" "c \<in> set (all_orders bs)" using that shard_rep_side(4) [OF assms(1), of bk] by auto
    then show ?thesis by (simp add: before_def stored_fields [OF assms(1)])
  qed
  ultimately show ?thesis
    unfolding book_queue_rep [OF assms(1)] sorted_wrt_map by (auto intro: sorted_wrt_mono_rel [of _ "before bk"])
qed

lemma set_spec_rest:
  assumes "wf_book bs" shows "set (all_orders (spec_rest r bs)) = insert r (set (all_orders bs))"
proof -
  have "mset (all_orders (spec_rest r bs)) = mset (r # all_orders bs)"
    using assms bid_book.mset_enqueue [of "bs_bids bs" r] ask_book.mset_enqueue [of "bs_asks bs" r]
    by (auto simp: spec_rest_def all_orders_def wf_book_def book_ok_def)
  from mset_eq_setD [OF this] show ?thesis by simp
qed

text \<open>An order that rests is the youngest of its market.\<close>

lemma rested_youngest:
  assumes "book_place r bs = (res, bs')" and "aged bs" and "shard_rep s' bs'" and "wf_book bs" and "resting res"
  shows "\<exists>rec. book_orders s' (order_key (rq_id r)) = Some rec \<and> rec_request rec = r
     \<and> (\<forall>ord \<in> set (book_queue s' Bids) \<union> set (book_queue s' Asks). ord = rec \<or> fifo_seq ord < fifo_seq rec)"
  using assms(1) unfolding book_place_def
proof (cases rule: spec_placeE)
  case (matched bs2 q fs)
  let ?r = "resting_record r (bs_next bs) q"
  have rest: "q > 0" "\<not> (rq_tif r = kIoc \<or> rq_tif r = kFok)" "order_key (rq_id r) \<notin> keys (all_orders bs2)"
    using assms(5) matched(4-6) by (fastforce simp: empty_order_result_def)+
  then have bs': "bs' = spec_rest ?r bs2" using matched(7) by blast
  have wf2: "wf_book bs2" by (rule spec_match_wf [OF matched(3)]) (use assms(4) in \<open>simp add: wf_book_def uncrossed_def all_orders_def\<close>)
  have seq: "fifo_seq ord < bs_next bs" if "ord \<in> set (all_orders bs2)" for ord
    using that spec_match_aged(2,3) [OF matched(3), of "bs_next bs"] assms(2) book_aged_orders by (auto simp: all_orders_def aged_def)
  have all: "set (all_orders bs') = insert ?r (set (all_orders bs2))" by (simp add: bs' set_spec_rest [OF wf2])
  have k: "okey ?r = order_key (rq_id r)" by (simp add: okey_def)
  obtain rec where rec: "book_orders s' (okey ?r) = Some rec" "rec_request rec = r" "fifo_seq rec = bs_next bs"
    using store_record [OF assms(3), of ?r] all by auto
  have "ord = rec \<or> fifo_seq ord < fifo_seq rec" if queued: "ord \<in> set (book_queue s' Bids) \<union> set (book_queue s' Asks)" for ord
  proof -
    obtain o' where o': "o' \<in> set (all_orders bs')" "ord = the (book_orders s' (okey o'))"
      using queued [unfolded book_queue_rep [OF assms(3)]] shard_rep_side(4) [OF assms(3), of Bids] shard_rep_side(4) [OF assms(3), of Asks] by auto
    then show ?thesis using all seq [of o'] stored_fields(2) [OF assms(3) o'(1)] rec by auto
  qed
  then show ?thesis using rec k by auto
qed (use assms(5) in \<open>simp_all add: empty_order_result_def\<close>)

lemma submit_shards:
  assumes "engine_rep eng be" and "in64 (rq_quantity r)" and "submit r eng = Some (res, eng')"
  obtains (invalid) "\<not> resting res"
  | (placed) s' bs' where "eng' = eng(oid_market (rq_id r) \<mapsto> s')" "shard_rep s' bs'" "book_place r (book_at (oid_market (rq_id r)) be) = (res, bs')"
proof -
  let ?m = "oid_market (rq_id r)"
  have rm: "shard_rep (ensure_market ?m eng) (book_at ?m be)"
    using assms(1) by (cases rule: engine_rep_cases [of eng be ?m]) (auto simp: ensure_market_def book_at_def new_book_rep)
  obtain r2 bs' where bp: "book_place r (book_at ?m be) = (r2, bs')" by (metis surj_pair)
  obtain s' where "place_order (ensure_market ?m eng) r = Some (r2, s')" "shard_rep s' bs'"
    using place_order_rep [OF rm assms(2) bp] by blast
  with assms(3) bp show thesis
    by (auto simp: submit_def Let_def empty_order_result_def split: if_splits intro: invalid placed)
qed

text \<open>
  C3. Price-time priority: on every state that the engine reaches from the empty engine by fewer than
  \<open>2 ^ 64 - 2\<close> operations, the queue of each book of a market, levels in the order of the code's map and each level
  from its head to its tail, is sorted by price, best price first, and at one price by the sequence number
  that the orders got on arrival. The fills of a submitted order go through the queue of the opposite book in
  this order and without skipping an order; every maker but the last is filled completely, every fill is at
  the maker's price, and no fill is outside the taker's limit. An order that then rests has a larger
  sequence number than every other resting order of the market.
\<close>

theorem price_time_priority:
  assumes "list_all op_ok ops" and "length ops < 2 ^ 64 - 2" and "run_impl engine_step ops Map.empty = Some (outs, eng)"
    and "in64 (rq_quantity r)" and "submit r eng = Some (res, eng')"
  defines "s \<equiv> ensure_market (oid_market (rq_id r)) eng" and "s' \<equiv> ensure_market (oid_market (rq_id r)) eng'"
  shows "sorted_wrt (before Bids) (book_queue s Bids) \<and> sorted_wrt (before Asks) (book_queue s Asks)
     \<and> priority_fills (rq_side r) (rq_price r) (rq_id r) (book_queue s (opposite (rq_side r))) (fills res)
     \<and> (resting res \<longrightarrow> (\<exists>rec. book_orders s' (order_key (rq_id r)) = Some rec \<and> rec_request rec = r
          \<and> (\<forall>ord \<in> set (book_queue s' Bids) \<union> set (book_queue s' Asks). ord = rec \<or> fifo_seq ord < fifo_seq rec)))"
proof -
  let ?m = "oid_market (rq_id r)" and ?be = "snd (run_spec book_step ops Map.empty)"
  have rep: "engine_rep eng ?be" using engine.run_refines [OF engine_rep_empty assms(1)] assms(3) by auto
  have reach: "engine_reachable eng" by (rule run_reachable [OF engine_reachable.start assms(1,3)])
  have "books_aged (0 + length ops) ?be" by (rule run_spec_aged) (use assms(2) in \<open>simp_all add: books_aged_def\<close>)
  then have aged: "aged (book_at ?m ?be)" using book_at_aged by blast
  have rm: "shard_rep s (book_at ?m ?be)" unfolding s_def
    using rep by (cases rule: engine_rep_cases [of eng ?be ?m]) (auto simp: ensure_market_def book_at_def new_book_rep)
  have "resting res \<longrightarrow> (\<exists>rec. book_orders s' (order_key (rq_id r)) = Some rec \<and> rec_request rec = r
      \<and> (\<forall>ord \<in> set (book_queue s' Bids) \<union> set (book_queue s' Asks). ord = rec \<or> fifo_seq ord < fifo_seq rec))"
    using rep assms(4,5)
  proof (cases rule: submit_shards)
    case (placed t bs')
    then have "s' = t" by (simp add: s'_def ensure_market_def)
    with rested_youngest [OF placed(3) aged placed(2) shard_rep_wf [OF rm]] show ?thesis by simp
  qed simp
  with book_queue_sorted [OF rm aged] submit_priority [OF reach assms(4,5)] show ?thesis unfolding s_def by blast
qed

text \<open>A buy order against the two oldest of three asks.\<close>

theorem price_time_priority_witness:
  "\<exists>outs eng res eng'. run_impl engine_step sample_ops Map.empty = Some (outs, eng)
     \<and> submit (sample_order 5 kBuy 7 101 kGtc 0) eng = Some (res, eng') \<and> length (fills res) = 2
     \<and> sorted_wrt (before Asks) (book_queue (ensure_market 1 eng) Asks)
     \<and> priority_fills kBuy 101 \<lparr>oid_market = 1, oid_session = 7, oid_local = 5\<rparr> (book_queue (ensure_market 1 eng) Asks) (fills res)"
proof -
  have run: "case run_impl engine_step sample_ops Map.empty of None \<Rightarrow> False | Some (_, eng) \<Rightarrow>
      (case submit (sample_order 5 kBuy 7 101 kGtc 0) eng of None \<Rightarrow> False | Some (res, _) \<Rightarrow> length (fills res) = 2)" by code_simp
  obtain outs eng res eng' where e: "run_impl engine_step sample_ops Map.empty = Some (outs, eng)"
    "submit (sample_order 5 kBuy 7 101 kGtc 0) eng = Some (res, eng')" "length (fills res) = 2" using run by (auto split: option.splits)
  have ok: "list_all op_ok sample_ops" "in64 (rq_quantity (sample_order 5 kBuy 7 101 kGtc 0))" by code_simp+
  have "length sample_ops < 2 ^ 64 - 2" by (simp add: sample_ops_def)
  from price_time_priority [OF ok(1) this e(1) ok(2) e(2)] e show ?thesis by (auto simp: sample_order_def opposite_def)
qed

end
