(* ===== verification/Wire.thy ===== *)
theory Wire
  imports Types
begin

text \<open>
  Bytes on the wire: the little-endian encoding of the primitive types (\<open>append_primitive\<close>,
  \<open>read_primitive\<close>), the order messages of \<open>ingest/sbe_messages.hpp\<close> with their encoders and
  decoders, and the frames of \<open>ingest/frame.hpp\<close>. \<open>std::bit_cast\<close> to an array of bytes is the memory
  image of a value, which is little-endian on the platforms the daemon is built for.
\<close>

section \<open>Little-endian words\<close>

type_synonym bytes = "u8 list"

fun put_le :: "nat \<Rightarrow> 'a::len word \<Rightarrow> bytes" where
  "put_le 0 w = []"
| "put_le (Suc n) w = ucast w # put_le n (drop_bit 8 w)"

fun get_le :: "bytes \<Rightarrow> 'a::len word" where
  "get_le [] = 0"
| "get_le (b # bs) = ucast b OR push_bit 8 (get_le bs)"

lemma length_put_le [simp]: "length (put_le n w) = n"
  by (induction n arbitrary: w) auto

lemma get_put_le: "get_le (put_le n w) = take_bit (8 * n) w"
proof (induction n arbitrary: w)
  case 0
  then show ?case by simp
next
  case (Suc n)
  show ?case
    by (rule bit_word_eqI)
      (auto simp: Suc bit_or_iff bit_push_bit_iff bit_take_bit_iff bit_drop_bit_eq bit_ucast_iff not_less)
qed

lemma get_put_full [simp]: "8 * n = LENGTH('a) \<Longrightarrow> get_le (put_le n w) = (w :: 'a::len word)"
  by (simp add: get_put_le)

lemma put_get_le: "8 * length bs \<le> LENGTH('a::len) \<Longrightarrow> put_le (length bs) (get_le bs :: 'a word) = bs"
proof (induction bs)
  case Nil
  then show ?case by simp
next
  case (Cons b bs)
  have "ucast (ucast b OR push_bit 8 (get_le bs) :: 'a word) = b"
    using Cons.prems
    by (intro bit_word_eqI) (auto simp: bit_ucast_iff bit_or_iff bit_push_bit_iff)
  moreover have "drop_bit 8 (ucast b OR push_bit 8 (get_le bs) :: 'a word) = get_le bs"
  proof (rule bit_word_eqI)
    fix i
    assume i: "i < LENGTH('a)"
    have "\<not> bit b (8 + i)" using bit_imp_le_length [of b "8 + i"] by auto
    moreover have "8 + i < LENGTH('a)" if "bit (get_le bs :: 'a word) i"
    proof -
      have "get_le bs = take_bit (8 * length bs) (get_le bs :: 'a word)"
        using Cons.IH Cons.prems get_put_le [of "length bs" "get_le bs :: 'a word"] by simp
      then have "i < 8 * length bs" using that by (metis bit_take_bit_iff)
      then show ?thesis using Cons.prems by simp
    qed
    ultimately show "bit (drop_bit 8 (ucast b OR push_bit 8 (get_le bs) :: 'a word)) i = bit (get_le bs :: 'a word) i"
      by (auto simp: bit_drop_bit_eq bit_or_iff bit_ucast_iff bit_push_bit_iff)
  qed
  ultimately show ?case using Cons by simp
qed

section \<open>Reading and writing primitives\<close>

text \<open>A signed 64-bit value as the word with the same representation, and back.\<close>

definition i64_word :: "int \<Rightarrow> u64" where
  "i64_word x = word_of_int x"

lemma sint_i64_word [simp]: "in64 x \<Longrightarrow> sint (i64_word x) = x"
  unfolding i64_word_def in64_def
  by (simp add: signed_of_int signed_take_bit_int_eq_self_iff)

lemma i64_word_sint [simp]: "i64_word (sint w) = w"
  by (simp add: i64_word_def)

lemma in64_sint [simp]: "in64 (sint (w :: u64))"
  using sint_greater_eq [of w] sint_less [of w] by (simp add: in64_def)

text \<open>
  \<open>append_primitive\<close> for a type of \<open>n\<close> bytes appends the memory image; \<open>read_primitive\<close> reads one at
  an offset, or throws (the message is the left value) when the data is too short.
\<close>

definition append_primitive :: "nat \<Rightarrow> 'a::len word \<Rightarrow> bytes \<Rightarrow> bytes" where
  "append_primitive n w buffer = buffer @ put_le n w"

definition read_primitive :: "nat \<Rightarrow> bytes \<Rightarrow> nat \<Rightarrow> string + ('a::len word \<times> nat)" where
  "read_primitive n data offset =
     (if offset + n > length data then Inl ''sbe decode out of bounds''
      else Inr (get_le (take n (drop offset data)), offset + n))"

lemma read_primitive_ok:
  "length pre + n \<le> length (pre @ mid @ rest) \<Longrightarrow> length mid = n \<Longrightarrow>
     read_primitive n (pre @ mid @ rest) (length pre) = Inr (get_le mid, length pre + n)"
  by (simp add: read_primitive_def)

section \<open>Order messages\<close>

record NewOrder =
  no_side :: Side
  no_quantity :: int
  no_price :: int
  no_flags :: u16

record CancelMsg =
  cm_order_id :: u64

record ReplaceMsg =
  rm_order_id :: u64
  rm_new_quantity :: int
  rm_new_price :: int
  rm_new_flags :: u16

definition kNewOrderEncodedSize :: nat where "kNewOrderEncodedSize = 1 + 8 + 8 + 2"
definition kCancelEncodedSize :: nat where "kCancelEncodedSize = 8"
definition kReplaceEncodedSize :: nat where "kReplaceEncodedSize = 8 + 8 + 8 + 2"

definition encode_new_order :: "NewOrder \<Rightarrow> bytes" where
  "encode_new_order msg =
     (let b0 = [];
          b1 = append_primitive 1 (side_to_byte (no_side msg)) b0;
          b2 = append_primitive 8 (i64_word (no_quantity msg)) b1;
          b3 = append_primitive 8 (i64_word (no_price msg)) b2
      in append_primitive 2 (no_flags msg) b3)"

definition decode_new_order :: "bytes \<Rightarrow> string + NewOrder" where
  "decode_new_order data =
     (if length data < kNewOrderEncodedSize then Inl ''sbe new_order decode out of bounds''
      else case read_primitive 1 data 0 of Inl e \<Rightarrow> Inl e | Inr (side :: u8, o1) \<Rightarrow>
       (case read_primitive 8 data o1 of Inl e \<Rightarrow> Inl e | Inr (quantity :: u64, o2) \<Rightarrow>
       (case read_primitive 8 data o2 of Inl e \<Rightarrow> Inl e | Inr (price :: u64, o3) \<Rightarrow>
       (case read_primitive 2 data o3 of Inl e \<Rightarrow> Inl e | Inr (flags :: u16, o4) \<Rightarrow>
          Inr \<lparr>no_side = side_of_byte side, no_quantity = sint quantity, no_price = sint price, no_flags = flags\<rparr>))))"

definition encode_cancel :: "CancelMsg \<Rightarrow> bytes" where
  "encode_cancel msg = append_primitive 8 (cm_order_id msg) []"

definition decode_cancel :: "bytes \<Rightarrow> string + CancelMsg" where
  "decode_cancel data =
     (if length data < kCancelEncodedSize then Inl ''sbe cancel decode out of bounds''
      else case read_primitive 8 data 0 of Inl e \<Rightarrow> Inl e | Inr (oid :: u64, o1) \<Rightarrow> Inr \<lparr>cm_order_id = oid\<rparr>)"

definition encode_replace :: "ReplaceMsg \<Rightarrow> bytes" where
  "encode_replace msg =
     (let b0 = [];
          b1 = append_primitive 8 (rm_order_id msg) b0;
          b2 = append_primitive 8 (i64_word (rm_new_quantity msg)) b1;
          b3 = append_primitive 8 (i64_word (rm_new_price msg)) b2
      in append_primitive 2 (rm_new_flags msg) b3)"

definition decode_replace :: "bytes \<Rightarrow> string + ReplaceMsg" where
  "decode_replace data =
     (if length data < kReplaceEncodedSize then Inl ''sbe replace decode out of bounds''
      else case read_primitive 8 data 0 of Inl e \<Rightarrow> Inl e | Inr (oid :: u64, o1) \<Rightarrow>
       (case read_primitive 8 data o1 of Inl e \<Rightarrow> Inl e | Inr (quantity :: u64, o2) \<Rightarrow>
       (case read_primitive 8 data o2 of Inl e \<Rightarrow> Inl e | Inr (price :: u64, o3) \<Rightarrow>
       (case read_primitive 2 data o3 of Inl e \<Rightarrow> Inl e | Inr (flags :: u16, o4) \<Rightarrow>
          Inr \<lparr>rm_order_id = oid, rm_new_quantity = sint quantity, rm_new_price = sint price, rm_new_flags = flags\<rparr>))))"

section \<open>Frames\<close>

datatype MessageKind = kNewOrder | kCancel | kReplace | kHeartbeat

record FrameHeader =
  fh_account :: AccountId
  fh_nonce :: u64
  received_time_ns :: int
  priority :: u8
  fh_kind :: MessageKind

text \<open>
  A frame with a view of its payload and a frame that owns a copy of it are the same value: the header
  and the bytes.
\<close>

record OwnedFrame =
  fr_header :: FrameHeader
  fr_payload :: bytes

fun kind_to_byte :: "MessageKind \<Rightarrow> u8" where
  "kind_to_byte kNewOrder = 0"
| "kind_to_byte kCancel = 1"
| "kind_to_byte kReplace = 2"
| "kind_to_byte kHeartbeat = 3"

text \<open>The cast of a byte that is not above \<open>kHeartbeat\<close>.\<close>

definition kind_of_byte :: "u8 \<Rightarrow> MessageKind" where
  "kind_of_byte b = (if b = 0 then kNewOrder else if b = 1 then kCancel else if b = 2 then kReplace else kHeartbeat)"

lemma kind_of_to_byte [simp]: "kind_of_byte (kind_to_byte k) = k"
  by (cases k) (simp_all add: kind_of_byte_def)

section \<open>Round trips\<close>

definition side_ok :: "Side \<Rightarrow> bool" where
  "side_ok s \<longleftrightarrow> s \<noteq> Side_raw 0 \<and> s \<noteq> Side_raw 1"

lemma side_of_to_byte [simp]: "side_ok s \<Longrightarrow> side_of_byte (side_to_byte s) = s"
  by (cases s) (simp_all add: side_of_byte_def side_ok_def)

lemma side_to_of_byte [simp]: "side_to_byte (side_of_byte b) = b"
  by (simp add: side_of_byte_def)

lemma side_of_byte_ok: "side_ok (side_of_byte b)"
  by (simp add: side_of_byte_def side_ok_def)

lemma decode_new_order_eq:
  "kNewOrderEncodedSize \<le> length data \<Longrightarrow>
     decode_new_order data = Inr \<lparr>no_side = side_of_byte (get_le (take 1 data)),
       no_quantity = sint (get_le (take 8 (drop 1 data)) :: u64), no_price = sint (get_le (take 8 (drop 9 data)) :: u64),
       no_flags = get_le (take 2 (drop 17 data))\<rparr>"
  by (auto simp: decode_new_order_def read_primitive_def kNewOrderEncodedSize_def)

lemma decode_cancel_eq:
  "kCancelEncodedSize \<le> length data \<Longrightarrow> decode_cancel data = Inr \<lparr>cm_order_id = get_le (take 8 data)\<rparr>"
  by (simp add: decode_cancel_def read_primitive_def kCancelEncodedSize_def)

lemma decode_replace_eq:
  "kReplaceEncodedSize \<le> length data \<Longrightarrow>
     decode_replace data = Inr \<lparr>rm_order_id = get_le (take 8 data),
       rm_new_quantity = sint (get_le (take 8 (drop 8 data)) :: u64), rm_new_price = sint (get_le (take 8 (drop 16 data)) :: u64),
       rm_new_flags = get_le (take 2 (drop 24 data))\<rparr>"
  by (simp add: decode_replace_def read_primitive_def kReplaceEncodedSize_def)

lemma length_encoded [simp]:
  "length (encode_new_order m) = kNewOrderEncodedSize" "length (encode_cancel c) = kCancelEncodedSize"
  "length (encode_replace r) = kReplaceEncodedSize"
  by (simp_all add: encode_new_order_def encode_cancel_def encode_replace_def append_primitive_def Let_def
      kNewOrderEncodedSize_def kCancelEncodedSize_def kReplaceEncodedSize_def)

lemma decode_encode_new_order:
  assumes "side_ok (no_side m)" and "in64 (no_quantity m)" and "in64 (no_price m)"
  shows "decode_new_order (encode_new_order m @ rest) = Inr m"
  using assms
  by (subst decode_new_order_eq) (simp_all add: encode_new_order_def append_primitive_def Let_def kNewOrderEncodedSize_def)

text \<open>
  C27. The order messages survive the wire: decoding the encoding of a new order, cancel or replace
  message, whatever bytes follow it, gives the message back.
\<close>

theorem sbe_decode_encode:
  assumes "side_ok (no_side m)" and "in64 (no_quantity m)" and "in64 (no_price m)"
    and "in64 (rm_new_quantity r)" and "in64 (rm_new_price r)"
  shows "decode_new_order (encode_new_order m @ rest) = Inr m
    \<and> decode_cancel (encode_cancel c @ rest) = Inr c
    \<and> decode_replace (encode_replace r @ rest) = Inr r"
proof (intro conjI)
  show "decode_new_order (encode_new_order m @ rest) = Inr m" using assms(1-3) by (rule decode_encode_new_order)
  show "decode_cancel (encode_cancel c @ rest) = Inr c"
    by (subst decode_cancel_eq) (simp_all add: encode_cancel_def append_primitive_def kCancelEncodedSize_def)
  show "decode_replace (encode_replace r @ rest) = Inr r"
    using assms(4,5)
    by (subst decode_replace_eq) (simp_all add: encode_replace_def append_primitive_def Let_def kReplaceEncodedSize_def)
qed

theorem sbe_decode_encode_witness:
  "decode_new_order (encode_new_order \<lparr>no_side = kSell, no_quantity = 5, no_price = - 7, no_flags = 1\<rparr> @ [255])
     = Inr \<lparr>no_side = kSell, no_quantity = 5, no_price = - 7, no_flags = 1\<rparr>"
  using sbe_decode_encode [of "\<lparr>no_side = kSell, no_quantity = 5, no_price = - 7, no_flags = 1\<rparr>"
      "\<lparr>rm_order_id = 1, rm_new_quantity = 2, rm_new_price = 3, rm_new_flags = 0\<rparr>" "[255]"]
  by (simp add: side_ok_def in64_def)

text \<open>The chunks of the data that the decoders read, glued together again.\<close>

lemma take_chunk: "take a xs @ take b (drop a xs) = take (a + b) xs"
  by (simp add: take_add)

lemma put_get_chunk:
  assumes "n + k \<le> length data" and "8 * n \<le> LENGTH('a::len)"
  shows "put_le n (get_le (take n (drop k data)) :: 'a word) = take n (drop k data)"
proof -
  have "length (take n (drop k data)) = n" using assms(1) by simp
  with put_get_le [of "take n (drop k data)", where ?'a = 'a] assms(2) show ?thesis by metis
qed

lemma encode_decode_new_order:
  assumes "kNewOrderEncodedSize \<le> length data"
  shows "\<exists>m. decode_new_order data = Inr m \<and> encode_new_order m = take kNewOrderEncodedSize data"
proof -
  have len: "19 \<le> length data" using assms by (simp add: kNewOrderEncodedSize_def)
  have "take 1 (drop 0 data) @ take 8 (drop 1 data) @ take 8 (drop 9 data) @ take 2 (drop 17 data) = take 19 data"
    using take_chunk [of 1 data 8] take_chunk [of 9 data 8] take_chunk [of 17 data 2] by (simp flip: append_assoc)
  moreover note put_get_chunk [of 1 0 data, where ?'a = 8] put_get_chunk [of 8 1 data, where ?'a = 64]
    put_get_chunk [of 8 9 data, where ?'a = 64] put_get_chunk [of 2 17 data, where ?'a = 16]
  ultimately show ?thesis
    using len assms
    by (simp add: decode_new_order_eq encode_new_order_def append_primitive_def Let_def kNewOrderEncodedSize_def
        del: put_le.simps)
qed

lemma encode_decode_cancel:
  assumes "kCancelEncodedSize \<le> length data"
  shows "\<exists>c. decode_cancel data = Inr c \<and> encode_cancel c = take kCancelEncodedSize data"
  using put_get_chunk [of 8 0 data, where ?'a = 64] assms
  by (simp add: decode_cancel_eq encode_cancel_def append_primitive_def kCancelEncodedSize_def)

lemma encode_decode_replace:
  assumes "kReplaceEncodedSize \<le> length data"
  shows "\<exists>r. decode_replace data = Inr r \<and> encode_replace r = take kReplaceEncodedSize data"
proof -
  have len: "26 \<le> length data" using assms by (simp add: kReplaceEncodedSize_def)
  have "take 8 (drop 0 data) @ take 8 (drop 8 data) @ take 8 (drop 16 data) @ take 2 (drop 24 data) = take 26 data"
    using take_chunk [of 8 data 8] take_chunk [of 16 data 8] take_chunk [of 24 data 2] by (simp flip: append_assoc)
  moreover note put_get_chunk [of 8 0 data, where ?'a = 64] put_get_chunk [of 8 8 data, where ?'a = 64]
    put_get_chunk [of 8 16 data, where ?'a = 64] put_get_chunk [of 2 24 data, where ?'a = 16]
  ultimately show ?thesis
    using len assms
    by (simp add: decode_replace_eq encode_replace_def append_primitive_def Let_def kReplaceEncodedSize_def
        del: put_le.simps)
qed

text \<open>
  The decoders accept exactly the data that is long enough, never read outside it, and lose
  nothing: the decoded message encodes to the bytes it was read from, values without a name
  included.
\<close>

lemma sbe_encode_decode:
  "(if length data < kNewOrderEncodedSize then decode_new_order data = Inl ''sbe new_order decode out of bounds''
    else \<exists>m. decode_new_order data = Inr m \<and> encode_new_order m = take kNewOrderEncodedSize data)
   \<and> (if length data < kCancelEncodedSize then decode_cancel data = Inl ''sbe cancel decode out of bounds''
      else \<exists>c. decode_cancel data = Inr c \<and> encode_cancel c = take kCancelEncodedSize data)
   \<and> (if length data < kReplaceEncodedSize then decode_replace data = Inl ''sbe replace decode out of bounds''
      else \<exists>r. decode_replace data = Inr r \<and> encode_replace r = take kReplaceEncodedSize data)"
  using encode_decode_new_order [of data] encode_decode_cancel [of data] encode_decode_replace [of data]
  by (simp add: decode_new_order_def decode_cancel_def decode_replace_def)

end
