(* ===== verification/Wal.thy ===== *)
theory Wal
  imports Wire
begin

text \<open>
  The write-ahead log (\<open>libs/wal\<close>): records with a header, a sequence number and a checksum, a writer
  that buffers them, appends them to a file and recovers the sequence from an existing file, and a
  reader. The file is its bytes; between the buffer of the writer and the file there is the buffer of the C
  stream. How many bytes \<open>fwrite\<close> takes and how many \<open>fflush\<close> stores are parameters, as are the results of the
  other calls of the system. Errors are the messages of the exceptions.
\<close>

section \<open>Records\<close>

record RecordHeader =
  rh_magic :: u32
  rh_version :: u16
  rh_reserved :: u16
  rh_sequence :: u64
  rh_payload_size :: u32
  rh_checksum :: u32

record WalRecord =
  wr_header :: RecordHeader
  wr_payload :: bytes

definition kWalMagic :: u32 where "kWalMagic = 0x5443574c"
definition kRecordHeaderSize :: nat where "kRecordHeaderSize = 24"

text \<open>The 32-bit FNV-1a hash.\<close>

fun fnv_loop :: "u32 \<Rightarrow> bytes \<Rightarrow> u32" where
  "fnv_loop hash [] = hash"
| "fnv_loop hash (b # bs) = fnv_loop ((hash XOR ucast b) * 16777619) bs"

definition checksum32 :: "bytes \<Rightarrow> u32" where
  "checksum32 data = fnv_loop 2166136261 data"

text \<open>The memory image of a header, which has no padding, and its inverse.\<close>

definition header_bytes :: "RecordHeader \<Rightarrow> bytes" where
  "header_bytes h = put_le 4 (rh_magic h) @ put_le 2 (rh_version h) @ put_le 2 (rh_reserved h)
     @ put_le 8 (rh_sequence h) @ put_le 4 (rh_payload_size h) @ put_le 4 (rh_checksum h)"

definition header_of :: "bytes \<Rightarrow> RecordHeader" where
  "header_of bs =
     \<lparr>rh_magic = get_le (take 4 bs), rh_version = get_le (take 2 (drop 4 bs)), rh_reserved = get_le (take 2 (drop 6 bs)),
      rh_sequence = get_le (take 8 (drop 8 bs)), rh_payload_size = get_le (take 4 (drop 16 bs)),
      rh_checksum = get_le (take 4 (drop 20 bs))\<rparr>"

section \<open>Reading\<close>

record WalReader =
  rd_file :: bytes
  rd_pos :: nat

definition open_reader :: "bytes \<Rightarrow> WalReader" where
  "open_reader file = \<lparr>rd_file = file, rd_pos = 0\<rparr>"

text \<open>\<open>Reader::next\<close>: an exception, the end of the log, or a record.\<close>

definition reader_next :: "WalReader \<Rightarrow> string + (WalRecord option \<times> WalReader)" where
  "reader_next rd =
     (let rest = drop (rd_pos rd) (rd_file rd) in
      if length rest < kRecordHeaderSize then Inr (None, rd\<lparr>rd_pos := length (rd_file rd)\<rparr>)
      else
        (let header = header_of (take kRecordHeaderSize rest);
             size = unat (rh_payload_size header);
             payload = take size (drop kRecordHeaderSize rest)
         in if rh_magic header \<noteq> kWalMagic then Inl ''invalid WAL magic''
            else if size > 0 \<and> length payload \<noteq> size then Inl ''truncated WAL record''
            else if size > 0 \<and> rh_checksum header \<noteq> checksum32 payload then Inl ''WAL checksum mismatch''
            else Inr (Some \<lparr>wr_header = header, wr_payload = payload\<rparr>,
                      rd\<lparr>rd_pos := rd_pos rd + kRecordHeaderSize + size\<rparr>)))"

text \<open>
  The loop \<open>while (reader.next(record))\<close> of the clients: the records up to the end of the log or up to
  an exception. Every record takes at least a header, so the loop ends.
\<close>

function read_all :: "WalReader \<Rightarrow> WalRecord list \<times> string option" where
  "read_all rd =
     (case reader_next rd of
        Inl e \<Rightarrow> ([], Some e)
      | Inr (None, _) \<Rightarrow> ([], None)
      | Inr (Some r, rd') \<Rightarrow> (let (rs, e) = read_all rd' in (r # rs, e)))"
  by pat_completeness auto

lemma reader_next_pos:
  "reader_next rd = Inr (Some r, rd') \<Longrightarrow> rd_file rd' = rd_file rd \<and> rd_pos rd < rd_pos rd' \<and> rd_pos rd < length (rd_file rd)"
  by (auto simp: reader_next_def kRecordHeaderSize_def Let_def split: if_splits)

termination read_all
  by (relation "measure (\<lambda>rd. length (rd_file rd) - rd_pos rd)") (auto dest: reader_next_pos)

text \<open>\<open>Reader::seek_sequence\<close>: stand before the first record with this sequence number or a later one.\<close>

function seek_loop :: "u64 \<Rightarrow> WalReader \<Rightarrow> string + WalReader" where
  "seek_loop sequence rd =
     (case reader_next rd of
        Inl e \<Rightarrow> Inl e
      | Inr (None, rd') \<Rightarrow> Inr rd'
      | Inr (Some r, rd') \<Rightarrow>
          if rh_sequence (wr_header r) \<ge> sequence
          then Inr (rd'\<lparr>rd_pos := rd_pos rd' - (kRecordHeaderSize + unat (rh_payload_size (wr_header r)))\<rparr>)
          else seek_loop sequence rd')"
  by pat_completeness auto

termination seek_loop
  by (relation "measure (\<lambda>(s, rd). length (rd_file rd) - rd_pos rd)") (auto dest: reader_next_pos)

definition seek_sequence :: "u64 \<Rightarrow> WalReader \<Rightarrow> string + WalReader" where
  "seek_sequence sequence rd = seek_loop sequence (rd\<lparr>rd_pos := 0\<rparr>)"

section \<open>Writing\<close>

record WalWriter =
  ww_file :: bytes
  ww_stream :: bytes
  ww_buffer :: bytes
  flush_threshold :: nat
  ww_next_sequence :: u64

text \<open>\<open>ensure_open\<close>, once the file is open, reads all of it; an exception of the reader is one of the constructor.\<close>

definition open_writer :: "bytes \<Rightarrow> nat \<Rightarrow> string + WalWriter" where
  "open_writer file threshold =
     (case read_all (open_reader file) of
        (_, Some e) \<Rightarrow> Inl e
      | (rs, None) \<Rightarrow>
          Inr \<lparr>ww_file = file, ww_stream = [], ww_buffer = [], flush_threshold = threshold,
               ww_next_sequence = (if rs = [] then 1 else rh_sequence (wr_header (last rs)) + 1)\<rparr>)"

text \<open>What the constructor needs of the system: opening the file for appending, seeking to its end, and opening it for reading.\<close>

record LogCalls =
  lc_fopen :: "string \<Rightarrow> bool"
  lc_fseek :: "string \<Rightarrow> bool"
  lc_fopen_read :: "string \<Rightarrow> bool"

definition ensure_open :: "LogCalls \<Rightarrow> string \<Rightarrow> bytes \<Rightarrow> nat \<Rightarrow> string + WalWriter" where
  "ensure_open calls path file threshold =
     (if \<not> lc_fopen calls path then Inl (''failed to open WAL file: '' @ path)
      else if \<not> lc_fseek calls path then Inl (''failed to seek WAL file: '' @ path)
      else if \<not> lc_fopen_read calls path then Inl (''failed to open WAL for read: '' @ path)
      else open_writer file threshold)"

text \<open>
  The calls of the C library: \<open>st_fwrite bs\<close> is the number of bytes of \<open>bs\<close> that \<open>fwrite\<close> hands to the stream, and
  \<open>st_fflush bs\<close> how many of the bytes \<open>bs\<close> in the stream \<open>fflush\<close> (or \<open>fclose\<close>) stores in the file; the others stay
  in the stream.
\<close>

record StdioCalls =
  st_fwrite :: "bytes \<Rightarrow> nat"
  st_fflush :: "bytes \<Rightarrow> nat"

definition full_stdio :: StdioCalls where
  "full_stdio = \<lparr>st_fwrite = length, st_fflush = length\<rparr>"

text \<open>\<open>flush\<close>: a short \<open>fwrite\<close> throws; the result of \<open>fflush\<close> is not looked at.\<close>

definition wal_flush :: "StdioCalls \<Rightarrow> WalWriter \<Rightarrow> string option \<times> WalWriter" where
  "wal_flush io w =
     (if ww_buffer w = [] then (None, w)
      else
        (let wrote = st_fwrite io (ww_buffer w); stream = ww_stream w @ take wrote (ww_buffer w); w1 = w\<lparr>ww_stream := stream\<rparr>
         in if wrote \<noteq> length (ww_buffer w) then (Some ''failed to write WAL buffer'', w1)
            else
              (let stored = st_fflush io stream
               in (None, w1\<lparr>ww_file := ww_file w1 @ take stored stream, ww_stream := drop stored stream, ww_buffer := []\<rparr>))))"

definition wal_record :: "u64 \<Rightarrow> u16 \<Rightarrow> bytes \<Rightarrow> WalRecord" where
  "wal_record sequence reserved payload =
     \<lparr>wr_header = \<lparr>rh_magic = kWalMagic, rh_version = 1, rh_reserved = reserved, rh_sequence = sequence,
                   rh_payload_size = of_nat (length payload), rh_checksum = checksum32 payload\<rparr>,
      wr_payload = payload\<rparr>"

definition record_bytes :: "WalRecord \<Rightarrow> bytes" where
  "record_bytes r = header_bytes (wr_header r) @ wr_payload r"

definition wal_append :: "StdioCalls \<Rightarrow> u16 \<Rightarrow> bytes \<Rightarrow> WalWriter \<Rightarrow> string option \<times> WalWriter" where
  "wal_append io reserved payload w =
     (let r = wal_record (ww_next_sequence w) reserved payload;
          w1 = w\<lparr>ww_next_sequence := ww_next_sequence w + 1, ww_buffer := ww_buffer w @ record_bytes r\<rparr>
      in if length (ww_buffer w1) \<ge> flush_threshold w1 then wal_flush io w1 else (None, w1))"

text \<open>\<open>sync\<close>: flush, then \<open>fsync\<close>, which succeeds or throws; the reason that the system gives is left out.\<close>

definition fsync_file :: "bool \<Rightarrow> string option" where
  [simp]: "fsync_file fsync_ok = (if fsync_ok then None else Some ''fsync failed'')"

definition wal_sync :: "StdioCalls \<Rightarrow> bool \<Rightarrow> WalWriter \<Rightarrow> string option \<times> WalWriter" where
  "wal_sync io fsync_ok w =
     (case wal_flush io w of
        (Some e, w1) \<Rightarrow> (Some e, w1)
      | (None, w1) \<Rightarrow> (fsync_file fsync_ok, w1))"

section \<open>Round trip\<close>

lemma length_header_bytes [simp]: "length (header_bytes h) = kRecordHeaderSize"
  by (simp add: header_bytes_def kRecordHeaderSize_def)

lemma header_of_bytes [simp]: "header_of (header_bytes h) = h"
  by (simp add: header_of_def header_bytes_def del: put_le.simps)

definition record_ok :: "WalRecord \<Rightarrow> bool" where
  "record_ok r \<longleftrightarrow> rh_magic (wr_header r) = kWalMagic \<and> unat (rh_payload_size (wr_header r)) = length (wr_payload r)
     \<and> rh_checksum (wr_header r) = checksum32 (wr_payload r)"

lemma reader_next_record:
  assumes "record_ok r" and "rd_file rd = pre @ record_bytes r @ rest" and "rd_pos rd = length pre"
  shows "reader_next rd = Inr (Some r, rd\<lparr>rd_pos := length (pre @ record_bytes r)\<rparr>)"
  using assms by (auto simp: reader_next_def record_bytes_def record_ok_def Let_def)

lemma read_all_records:
  assumes "list_all record_ok rs" and "rd_file rd = pre @ concat (map record_bytes rs) @ tail"
    and "rd_pos rd = length pre" and "length tail < kRecordHeaderSize"
  shows "read_all rd = (rs, None)"
  using assms
proof (induction rs arbitrary: rd pre)
  case Nil
  then show ?case by (subst read_all.simps) (simp add: reader_next_def)
next
  case (Cons r rs)
  let ?rd = "rd\<lparr>rd_pos := length (pre @ record_bytes r)\<rparr>"
  have "reader_next rd = Inr (Some r, ?rd)"
    using reader_next_record [of r rd pre "concat (map record_bytes rs) @ tail"] Cons.prems by simp
  moreover have "read_all ?rd = (rs, None)"
    using Cons.IH [of ?rd "pre @ record_bytes r"] Cons.prems by simp
  ultimately show ?case by (subst read_all.simps) (simp del: read_all.simps)
qed


section \<open>Sessions\<close>

text \<open>
  A session of a writer: the constructor opens the file, payloads are appended, the destructor flushes.
  The first exception ends the session.
\<close>

fun wal_append_all :: "StdioCalls \<Rightarrow> (u16 \<times> bytes) list \<Rightarrow> WalWriter \<Rightarrow> string option \<times> WalWriter" where
  "wal_append_all io [] w = (None, w)"
| "wal_append_all io ((reserved, payload) # ps) w =
     (case wal_append io reserved payload w of
        (Some e, w1) \<Rightarrow> (Some e, w1)
      | (None, w1) \<Rightarrow> wal_append_all io ps w1)"

definition close_writer :: "StdioCalls \<Rightarrow> WalWriter \<Rightarrow> bytes" where
  "close_writer io w = (let w1 = snd (wal_flush io w) in ww_file w1 @ take (st_fflush io (ww_stream w1)) (ww_stream w1))"

definition wal_session :: "StdioCalls \<Rightarrow> nat \<Rightarrow> (u16 \<times> bytes) list \<Rightarrow> bytes \<Rightarrow> string + bytes" where
  "wal_session io threshold ps file =
     (case open_writer file threshold of
        Inl e \<Rightarrow> Inl e
      | Inr w \<Rightarrow> (case wal_append_all io ps w of
                   (Some e, _) \<Rightarrow> Inl e
                 | (None, w1) \<Rightarrow> Inr (close_writer io w1)))"

fun wal_sessions :: "StdioCalls \<Rightarrow> (nat \<times> (u16 \<times> bytes) list) list \<Rightarrow> bytes \<Rightarrow> string + bytes" where
  "wal_sessions io [] file = Inr file"
| "wal_sessions io ((threshold, ps) # ss) file =
     (case wal_session io threshold ps file of
        Inl e \<Rightarrow> Inl e
      | Inr file1 \<Rightarrow> wal_sessions io ss file1)"

text \<open>What the log is to hold: the payloads in order, numbered without gap.\<close>

fun numbered :: "u64 \<Rightarrow> (u16 \<times> bytes) list \<Rightarrow> WalRecord list" where
  "numbered s [] = []"
| "numbered s ((reserved, payload) # ps) = wal_record s reserved payload # numbered (s + 1) ps"

definition payload_ok :: "u16 \<times> bytes \<Rightarrow> bool" where
  "payload_ok p \<longleftrightarrow> length (snd p) < 2 ^ 32"

definition log_bytes :: "WalRecord list \<Rightarrow> bytes" where
  "log_bytes rs = concat (map record_bytes rs)"

lemma log_bytes_append [simp]: "log_bytes (rs @ rs') = log_bytes rs @ log_bytes rs'"
  by (simp add: log_bytes_def)

lemma log_bytes_simps [simp]: "log_bytes [] = []" "log_bytes (r # rs) = record_bytes r @ log_bytes rs"
  by (simp_all add: log_bytes_def)

lemma numbered_append: "numbered s (ps @ qs) = numbered s ps @ numbered (s + of_nat (length ps)) qs"
  by (induction ps arbitrary: s) (auto simp: algebra_simps)

lemma length_numbered [simp]: "length (numbered s ps) = length ps"
  by (induction ps arbitrary: s) auto

lemma numbered_Nil_iff [simp]: "numbered s ps = [] \<longleftrightarrow> ps = []"
  by (cases ps) auto

lemma numbered_last: "ps \<noteq> [] \<Longrightarrow> rh_sequence (wr_header (last (numbered s ps))) + 1 = s + of_nat (length ps)"
proof (induction ps arbitrary: s)
  case (Cons p ps)
  then show ?case by (cases p; cases "ps = []") (auto simp: wal_record_def algebra_simps)
qed simp

lemma wal_record_ok: "length payload < 2 ^ 32 \<Longrightarrow> record_ok (wal_record s reserved payload)"
  by (simp add: record_ok_def wal_record_def unat_of_nat)

lemma numbered_ok: "list_all payload_ok ps \<Longrightarrow> list_all record_ok (numbered s ps)"
  by (induction ps arbitrary: s) (auto simp: payload_ok_def wal_record_ok)

lemma read_log:
  assumes "list_all record_ok rs" shows "read_all (open_reader (log_bytes rs)) = (rs, None)"
  using read_all_records [OF assms, of "open_reader (log_bytes rs)" "[]" "[]"]
  by (simp add: open_reader_def log_bytes_def kRecordHeaderSize_def del: read_all.simps)

text \<open>With full writes no operation fails, the stream stays empty, and file and buffer together are the log.\<close>

lemma full_stdio_simps [simp]: "st_fwrite full_stdio = length" "st_fflush full_stdio = length"
  by (simp_all add: full_stdio_def)

lemma wal_flush_full:
  "ww_stream w = [] \<Longrightarrow> wal_flush full_stdio w = (None, w\<lparr>ww_file := ww_file w @ ww_buffer w, ww_stream := [], ww_buffer := []\<rparr>)"
  by (cases w) (auto simp: wal_flush_def Let_def)

lemma wal_append_full:
  "ww_stream w = [] \<Longrightarrow> \<exists>w1. wal_append full_stdio res payload w = (None, w1) \<and> ww_stream w1 = [] \<and>
     ww_file w1 @ ww_buffer w1 = ww_file w @ ww_buffer w @ record_bytes (wal_record (ww_next_sequence w) res payload) \<and>
     ww_next_sequence w1 = ww_next_sequence w + 1"
  by (simp add: wal_append_def wal_flush_full Let_def)

lemma wal_append_all_full:
  "ww_stream w = [] \<Longrightarrow> \<exists>w'. wal_append_all full_stdio ps w = (None, w') \<and> ww_stream w' = [] \<and>
        ww_file w' @ ww_buffer w' = ww_file w @ ww_buffer w @ log_bytes (numbered (ww_next_sequence w) ps)"
proof (induction ps arbitrary: w)
  case (Cons p ps)
  obtain res payload where p: "p = (res, payload)" by (cases p)
  obtain w1 where w1: "wal_append full_stdio res payload w = (None, w1)" "ww_stream w1 = []"
      "ww_file w1 @ ww_buffer w1 = ww_file w @ ww_buffer w @ record_bytes (wal_record (ww_next_sequence w) res payload)"
      "ww_next_sequence w1 = ww_next_sequence w + 1"
    using wal_append_full [OF Cons.prems, of res payload] by blast
  then show ?case using Cons.IH [of w1] by (auto simp: p simp flip: append_assoc)
qed simp

lemma open_writer_log:
  assumes "list_all payload_ok qs"
  shows "open_writer (log_bytes (numbered 1 qs)) threshold
     = Inr \<lparr>ww_file = log_bytes (numbered 1 qs), ww_stream = [], ww_buffer = [], flush_threshold = threshold, ww_next_sequence = 1 + of_nat (length qs)\<rparr>"
  using numbered_last [of qs 1] by (auto simp: open_writer_def read_log numbered_ok assms simp del: read_all.simps)

lemma wal_session_full:
  assumes "list_all payload_ok qs"
  shows "wal_session full_stdio threshold ps (log_bytes (numbered 1 qs)) = Inr (log_bytes (numbered 1 (qs @ ps)))"
proof -
  let ?w = "\<lparr>ww_file = log_bytes (numbered 1 qs), ww_stream = [], ww_buffer = [], flush_threshold = threshold,
             ww_next_sequence = 1 + of_nat (length qs)\<rparr>"
  obtain w' where "wal_append_all full_stdio ps ?w = (None, w')" "ww_stream w' = []"
      "ww_file w' @ ww_buffer w' = log_bytes (numbered 1 qs) @ log_bytes (numbered (1 + of_nat (length qs)) ps)"
    using wal_append_all_full [of ?w ps] by auto
  then show ?thesis
    by (simp add: wal_session_def close_writer_def wal_flush_full numbered_append open_writer_log [OF assms] Let_def)
qed

lemma wal_sessions_full:
  assumes "list_all payload_ok (qs @ concat (map snd ss))"
  shows "wal_sessions full_stdio ss (log_bytes (numbered 1 qs)) = Inr (log_bytes (numbered 1 (qs @ concat (map snd ss))))"
  using assms
proof (induction ss arbitrary: qs)
  case (Cons s ss)
  obtain threshold ps where s: "s = (threshold, ps)" by (cases s)
  from Cons have "wal_sessions full_stdio ss (log_bytes (numbered 1 (qs @ ps))) = Inr (log_bytes (numbered 1 ((qs @ ps) @ concat (map snd ss))))"
    by (simp add: s)
  then show ?case using Cons.prems by (simp add: s wal_session_full)
qed simp

text \<open>Seeking skips the records before the one sought.\<close>

lemma seek_loop_records:
  assumes "list_all record_ok rs" and "rd_file rd = pre @ log_bytes rs" and "rd_pos rd = length pre"
  shows "\<exists>rd'. seek_loop n rd = Inr rd' \<and> read_all rd' = (dropWhile (\<lambda>r. rh_sequence (wr_header r) < n) rs, None)"
  using assms
proof (induction rs arbitrary: rd pre)
  case Nil
  then have nxt: "reader_next rd = Inr (None, rd\<lparr>rd_pos := length (rd_file rd)\<rparr>)"
    by (simp add: reader_next_def kRecordHeaderSize_def)
  have "read_all (rd\<lparr>rd_pos := length (rd_file rd)\<rparr>) = ([], None)"
    by (subst read_all.simps) (simp add: reader_next_def kRecordHeaderSize_def)
  with nxt show ?case by (subst seek_loop.simps) (simp del: seek_loop.simps read_all.simps)
next
  case (Cons r rs)
  let ?rd = "rd\<lparr>rd_pos := length (pre @ record_bytes r)\<rparr>"
  have nxt: "reader_next rd = Inr (Some r, ?rd)"
    using reader_next_record [of r rd pre "log_bytes rs"] Cons.prems by simp
  show ?case
  proof (cases "rh_sequence (wr_header r) < n")
    case True
    have "\<exists>rd'. seek_loop n ?rd = Inr rd' \<and> read_all rd' = (dropWhile (\<lambda>r. rh_sequence (wr_header r) < n) rs, None)"
      using Cons.IH [of ?rd "pre @ record_bytes r"] Cons.prems by simp
    moreover have "\<not> n \<le> rh_sequence (wr_header r)" using True by simp
    ultimately show ?thesis using True nxt by (subst seek_loop.simps) (simp del: seek_loop.simps read_all.simps)
  next
    case False
    have len: "length (record_bytes r) = kRecordHeaderSize + unat (rh_payload_size (wr_header r))"
      using Cons.prems(1) by (simp add: record_bytes_def record_ok_def)
    have "?rd\<lparr>rd_pos := rd_pos ?rd - (kRecordHeaderSize + unat (rh_payload_size (wr_header r)))\<rparr> = rd"
      using Cons.prems(3) by (simp add: len)
    moreover have "read_all rd = (r # rs, None)"
      using read_all_records [OF Cons.prems(1), of rd pre "[]"] Cons.prems
      by (simp add: log_bytes_def kRecordHeaderSize_def del: read_all.simps)
    moreover have "n \<le> rh_sequence (wr_header r)" using False by simp
    ultimately show ?thesis using False nxt by (subst seek_loop.simps) (simp del: seek_loop.simps read_all.simps)
  qed
qed

lemma seek_log:
  "list_all record_ok rs \<Longrightarrow> \<exists>rd'. seek_sequence n (open_reader (log_bytes rs)) = Inr rd' \<and>
     read_all rd' = (dropWhile (\<lambda>r. rh_sequence (wr_header r) < n) rs, None)"
  using seek_loop_records [of rs "open_reader (log_bytes rs)\<lparr>rd_pos := 0\<rparr>" "[]" n]
  by (simp add: seek_sequence_def open_reader_def del: seek_loop.simps read_all.simps)

text \<open>
  C32. The log round trip: over any number of writer sessions on one file, with any flush thresholds and
  full writes, no operation fails, and reading the file back yields exactly the appended payloads, in
  order, numbered from 1 without gap across the sessions; seeking to a sequence number skips exactly the
  records before the first one that has this number or a later one.
\<close>

theorem wal_round_trip:
  assumes "list_all payload_ok (concat (map snd sessions))"
  shows "\<exists>file. wal_sessions full_stdio sessions [] = Inr file
     \<and> read_all (open_reader file) = (numbered 1 (concat (map snd sessions)), None)
     \<and> (\<exists>rd. seek_sequence n (open_reader file) = Inr rd
           \<and> read_all rd = (dropWhile (\<lambda>r. rh_sequence (wr_header r) < n) (numbered 1 (concat (map snd sessions))), None))"
proof -
  let ?ps = "concat (map snd sessions)"
  have "wal_sessions full_stdio sessions [] = Inr (log_bytes (numbered 1 ?ps))"
    using wal_sessions_full [of "[]" sessions] assms by simp
  with read_log [OF numbered_ok [OF assms]] seek_log [OF numbered_ok [OF assms]] show ?thesis by blast
qed

theorem wal_round_trip_witness:
  "\<exists>file rd. wal_sessions full_stdio [(64, [(0, [1, 2]), (7, [])]), (0, [(0, [3])])] [] = Inr file
     \<and> fst (read_all (open_reader file)) = [wal_record 1 0 [1, 2], wal_record 2 7 [], wal_record 3 0 [3]]
     \<and> seek_sequence 3 (open_reader file) = Inr rd \<and> fst (read_all rd) = [wal_record 3 0 [3]]"
proof -
  have seq: "rh_sequence (wr_header (wal_record s res p)) = s" for s res p by (simp add: wal_record_def)
  have eq: "numbered 1 (concat (map snd [(64 :: nat, [(0, [1, 2]), (7, [])]), (0, [(0, [3])])]))
      = [wal_record 1 0 [1, 2], wal_record 2 7 [], wal_record 3 0 [3]]" by simp
  have "list_all payload_ok (concat (map snd [(64 :: nat, [(0, [1, 2]), (7, [])]), (0, [(0, [3])])]))"
    by (simp add: payload_ok_def)
  from wal_round_trip [OF this, of 3] show ?thesis unfolding eq
    by (auto simp: seq simp del: read_all.simps wal_sessions.simps)
qed

end
