(* ===== verification/Wal_Integrity.thy ===== *)
theory Wal_Integrity
  imports Wal
begin

text \<open>
  What the log detects: a changed payload byte is found by the checksum, and a file that ends inside a
  record is read up to the record before. What it does not recover from: after a torn payload the
  writer cannot be opened, and after a torn header the writer appends behind the torn bytes.
\<close>

section \<open>The checksum\<close>

text \<open>A round of the hash can be undone: the prime is odd, so it has an inverse among the 32-bit words.\<close>

lemma fnv_prime_inverse: "(w * 16777619) * 899433627 = (w :: u32)"
proof -
  have "(16777619 :: u32) * 899433627 = 1" by simp
  then show ?thesis by (metis mult.assoc mult.right_neutral)
qed

lemma fnv_round_inject: "(x :: u32) * 16777619 = y * 16777619 \<longleftrightarrow> x = y"
  by (metis fnv_prime_inverse)

lemma xor_left_inject: "(h :: u32) XOR x = h XOR y \<longleftrightarrow> x = y"
proof
  assume "h XOR x = h XOR y"
  then have "h XOR (h XOR x) = h XOR (h XOR y)" by simp
  then show "x = y" by (simp flip: xor.assoc)
qed simp

lemma xor_right_inject: "(x :: u32) XOR h = y XOR h \<longleftrightarrow> x = y"
  using xor_left_inject [of h x y] by (simp add: xor.commute)

lemma ucast_byte_inject: "(ucast (a :: u8) :: u32) = ucast b \<longleftrightarrow> a = b"
proof
  assume eq: "(ucast a :: u32) = ucast b"
  have "bit a n = bit b n" if "n < 8" for n
  proof -
    have "bit (ucast a :: u32) n = bit (ucast b :: u32) n" using eq by simp
    with that show ?thesis by (simp add: bit_ucast_iff)
  qed
  then show "a = b" by (intro bit_word_eqI) simp
qed simp

lemmas fnv_inject = fnv_round_inject xor_left_inject xor_right_inject ucast_byte_inject

lemma fnv_loop_inject: "fnv_loop h bs = fnv_loop h' bs \<longleftrightarrow> h = h'"
  by (induction bs arbitrary: h h') (simp_all add: fnv_inject)

lemma fnv_loop_append: "fnv_loop h (xs @ ys) = fnv_loop (fnv_loop h xs) ys"
  by (induction xs arbitrary: h) simp_all

lemma checksum32_update:
  assumes "i < length data" and "b \<noteq> data ! i" shows "checksum32 (data[i := b]) \<noteq> checksum32 data"
proof -
  have "checksum32 (take i data @ c # drop (Suc i) data)
      = fnv_loop ((fnv_loop 2166136261 (take i data) XOR ucast c) * 16777619) (drop (Suc i) data)" for c
    by (simp add: checksum32_def fnv_loop_append)
  from this [of b] this [of "data ! i"] show ?thesis
    using assms by (simp add: fnv_loop_inject fnv_inject upd_conv_take_nth_drop id_take_nth_drop [symmetric])
qed

section \<open>Reading damaged logs\<close>

text \<open>Whatever follows a run of good records, the reader returns those records first.\<close>

lemma read_all_prefix:
  assumes "list_all record_ok rs" and "rd_file rd = pre @ log_bytes rs @ rest" and "rd_pos rd = length pre"
  shows "read_all rd = (let (ts, e) = read_all (rd\<lparr>rd_pos := length (pre @ log_bytes rs)\<rparr>) in (rs @ ts, e))"
  using assms
proof (induction rs arbitrary: rd pre)
  case Nil
  then have "rd\<lparr>rd_pos := length (pre @ log_bytes [])\<rparr> = rd" by simp
  then show ?case by (simp del: read_all.simps add: case_prod_unfold)
next
  case (Cons r rs)
  let ?rd = "rd\<lparr>rd_pos := length (pre @ record_bytes r)\<rparr>"
  have "reader_next rd = Inr (Some r, ?rd)"
    using reader_next_record [of r rd pre "log_bytes rs @ rest"] Cons.prems by simp
  moreover have "read_all ?rd = (let (ts, e) = read_all (?rd\<lparr>rd_pos := length ((pre @ record_bytes r) @ log_bytes rs)\<rparr>) in (rs @ ts, e))"
    by (rule Cons.IH) (use Cons.prems in simp_all)
  ultimately show ?case
    by (subst read_all.simps) (simp del: read_all.simps add: case_prod_unfold add.assoc Let_def)
qed

lemma read_log_then:
  assumes "list_all record_ok rs" and "reader_next \<lparr>rd_file = log_bytes rs @ rest, rd_pos = length (log_bytes rs)\<rparr> = Inl e"
  shows "read_all (open_reader (log_bytes rs @ rest)) = (rs, Some e)"
proof -
  have "read_all \<lparr>rd_file = log_bytes rs @ rest, rd_pos = length (log_bytes rs)\<rparr> = ([], Some e)"
    using assms(2) by (subst read_all.simps) (simp del: read_all.simps)
  with read_all_prefix [OF assms(1), of "open_reader (log_bytes rs @ rest)" "[]" rest] show ?thesis
    by (simp add: open_reader_def del: read_all.simps)
qed

text \<open>
  C34. A damaged payload is detected: when one byte of the payload of a record is changed, in any log and
  whatever follows the record, the reader returns exactly the records before it and then throws the
  checksum error, and a writer cannot be opened on the file.
\<close>

theorem wal_corruption_detected:
  assumes "list_all record_ok rs" and "record_ok r" and "i < length (wr_payload r)" and "b \<noteq> wr_payload r ! i"
    and f: "file = log_bytes rs @ record_bytes (r\<lparr>wr_payload := (wr_payload r)[i := b]\<rparr>) @ rest"
  shows "read_all (open_reader file) = (rs, Some ''WAL checksum mismatch'')
    \<and> open_writer file threshold = Inl ''WAL checksum mismatch''"
proof -
  have "reader_next \<lparr>rd_file = file, rd_pos = length (log_bytes rs)\<rparr> = Inl ''WAL checksum mismatch''"
    using assms(2-4) checksum32_update [OF assms(3,4)]
    by (auto simp: f reader_next_def record_bytes_def record_ok_def Let_def)
  from read_log_then [OF assms(1) this [unfolded f]]
  have "read_all (open_reader file) = (rs, Some ''WAL checksum mismatch'')" by (simp only: f)
  then show ?thesis by (simp add: open_writer_def del: read_all.simps)
qed

theorem wal_corruption_detected_witness:
  "read_all (open_reader (log_bytes [wal_record 1 0 [5]] @ record_bytes ((wal_record 2 0 [1, 2, 3])\<lparr>wr_payload := [1, 9, 3]\<rparr>)))
     = ([wal_record 1 0 [5]], Some ''WAL checksum mismatch'')"
proof -
  let ?r = "wal_record 2 0 [1, 2, 3]"
  have "wr_payload ?r = [1, 2, 3]" by (simp add: wal_record_def)
  with wal_corruption_detected [of "[wal_record 1 0 [5]]" ?r 1 9 _ "[]", OF _ _ _ _ refl]
  show ?thesis by (simp add: wal_record_ok del: read_all.simps)
qed

section \<open>Torn writes\<close>

text \<open>
  A file that ends inside the header of a record is read as if that record were not there; one that ends
  inside the payload makes the reader, and the constructor of a writer, throw.
\<close>

lemma wal_torn_header:
  assumes "list_all record_ok rs" and "length torn < kRecordHeaderSize"
  shows "read_all (open_reader (log_bytes rs @ torn)) = (rs, None)"
  using read_all_records [OF assms(1), of "open_reader (log_bytes rs @ torn)" "[]" torn] assms(2)
  by (simp add: open_reader_def log_bytes_def del: read_all.simps)

lemma reader_torn_payload:
  assumes "record_ok r" and "kRecordHeaderSize \<le> n" and "n < length (record_bytes r)"
  shows "reader_next \<lparr>rd_file = pre @ take n (record_bytes r), rd_pos = length pre\<rparr> = Inl ''truncated WAL record''"
  using assms by (auto simp: reader_next_def record_bytes_def record_ok_def Let_def)

lemma wal_torn_payload:
  assumes "list_all record_ok rs" and "record_ok r" and "kRecordHeaderSize \<le> n" and "n < length (record_bytes r)"
  shows "open_writer (log_bytes rs @ take n (record_bytes r)) threshold = Inl ''truncated WAL record''"
  using read_log_then [OF assms(1) reader_torn_payload [OF assms(2-4)]] by (simp add: open_writer_def del: read_all.simps)

text \<open>
  A record behind the first byte of another one is not readable. So after a torn header the writer opens
  and appends behind the torn bytes, and the record it writes next is lost.
\<close>

lemma reader_shifted_record:
  assumes "record_ok r"
  shows "reader_next \<lparr>rd_file = pre @ 0x4c # record_bytes r, rd_pos = length pre\<rparr> = Inl ''invalid WAL magic''"
proof -
  have "take 4 (take kRecordHeaderSize (0x4c # record_bytes r)) = 0x4c # take 3 (put_le 4 kWalMagic)"
    using assms by (simp add: kRecordHeaderSize_def record_bytes_def header_bytes_def record_ok_def del: put_le.simps)
  moreover have "get_le (0x4c # take 3 (put_le 4 kWalMagic)) \<noteq> kWalMagic" by code_simp
  ultimately show ?thesis by (simp add: reader_next_def header_of_def Let_def record_bytes_def del: get_le.simps)
qed

lemma wal_append_after_torn_header:
  "\<exists>file. wal_session full_stdio 0 [(0, [1])] [0x4c] = Inr file \<and> read_all (open_reader file) = ([], Some ''invalid WAL magic'')"
proof -
  have torn: "read_all (open_reader [0x4c]) = ([], None)"
    using wal_torn_header [of "[]" "[0x4c]"] by (simp add: kRecordHeaderSize_def del: read_all.simps)
  then have w: "open_writer [0x4c] 0 = Inr \<lparr>ww_file = [0x4c], ww_stream = [], ww_buffer = [], flush_threshold = 0, ww_next_sequence = 1\<rparr>"
    by (simp add: open_writer_def del: read_all.simps)
  have "wal_session full_stdio 0 [(0, [1])] [0x4c] = Inr (0x4c # record_bytes (wal_record 1 0 [1]))"
    by (simp add: wal_session_def w wal_append_def wal_flush_full close_writer_def Let_def)
  moreover have "read_all (open_reader (0x4c # record_bytes (wal_record 1 0 [1]))) = ([], Some ''invalid WAL magic'')"
    using read_log_then [of "[]", OF _ reader_shifted_record [of "wal_record 1 0 [1]" "log_bytes []"]]
    by (simp add: wal_record_ok del: read_all.simps)
  ultimately show ?thesis by blast
qed

end
