(* ===== verification/Snapshot.thy ===== *)
theory Snapshot
  imports Wal_Integrity "HOL-Library.Sublist"
begin

text \<open>
  The snapshot store (\<open>libs/snapshot\<close>): records with a header, a payload and a checksum appended to one
  file, and its compaction to a number of records and a size. The file system is a map from paths to
  contents. \<open>persist_io\<close> is \<open>Store::persist\<close> as the steps it takes on its files, each of which may succeed, fail
  with the exception of the code, or be the one in which the process dies; \<open>persist\<close> is the case in which all
  of them succeed, which the theorems here are about. What the failures leave behind is the subject of
  \<open>Snapshot_Crash\<close>. Errors are the messages of the exceptions. Sizes are natural numbers.
\<close>

section \<open>Records\<close>

record SnapshotHeader =
  sh_magic :: u32
  sh_version :: u16
  sh_reserved :: u16
  sh_sequence :: u32
  sh_payload_size :: u32

record EncodedRecord =
  er_header :: SnapshotHeader
  er_payload :: bytes

record SnapshotRecord =
  sr_sequence :: SequenceId
  sr_payload :: bytes

record StoreOptions =
  max_records :: nat
  max_file_bytes :: nat

definition default_store_options :: StoreOptions where
  "default_store_options = \<lparr>max_records = 1024, max_file_bytes = 64 * 2 ^ 20\<rparr>"

definition kSnapshotMagic :: u32 where "kSnapshotMagic = 0x5443534e"
definition kVersionLegacy :: u16 where "kVersionLegacy = 1"
definition kVersionChecksummed :: u16 where "kVersionChecksummed = 2"
definition kSnapshotHeaderSize :: nat where "kSnapshotHeaderSize = 16"

text \<open>The memory image of a header, which has no padding, and its inverse.\<close>

definition snapshot_header_bytes :: "SnapshotHeader \<Rightarrow> bytes" where
  "snapshot_header_bytes h = put_le 4 (sh_magic h) @ put_le 2 (sh_version h) @ put_le 2 (sh_reserved h)
     @ put_le 4 (sh_sequence h) @ put_le 4 (sh_payload_size h)"

definition snapshot_header_of :: "bytes \<Rightarrow> SnapshotHeader" where
  "snapshot_header_of bs =
     \<lparr>sh_magic = get_le (take 4 bs), sh_version = get_le (take 2 (drop 4 bs)), sh_reserved = get_le (take 2 (drop 6 bs)),
      sh_sequence = get_le (take 4 (drop 8 bs)), sh_payload_size = get_le (take 4 (drop 12 bs))\<rparr>"

definition encoded_record_size :: "EncodedRecord \<Rightarrow> nat" where
  "encoded_record_size r = kSnapshotHeaderSize + length (er_payload r) + 4"

text \<open>What \<open>write_record\<close> appends to the stream; the checksum is the one of the log.\<close>

definition new_snapshot_header :: "SequenceId \<Rightarrow> bytes \<Rightarrow> SnapshotHeader" where
  "new_snapshot_header sequence payload =
     \<lparr>sh_magic = kSnapshotMagic, sh_version = kVersionChecksummed, sh_reserved = 0, sh_sequence = sequence,
      sh_payload_size = of_nat (length payload)\<rparr>"

definition write_snapshot :: "SequenceId \<Rightarrow> bytes \<Rightarrow> bytes" where
  "write_snapshot sequence payload =
     snapshot_header_bytes (new_snapshot_header sequence payload) @ payload @ put_le 4 (checksum32 payload)"

text \<open>
  \<open>read_next_record\<close> on the rest of the stream: an exception, the end, or a record with what follows. A
  short read of the header reaches the end of the file, which counts as the end of the records.
\<close>

definition read_next_snapshot :: "bytes \<Rightarrow> string + (EncodedRecord \<times> bytes) option" where
  "read_next_snapshot rest =
     (if length rest < kSnapshotHeaderSize then Inr None
      else
        (let header = snapshot_header_of (take kSnapshotHeaderSize rest);
             size = unat (sh_payload_size header);
             rest1 = drop kSnapshotHeaderSize rest;
             payload = take size rest1;
             rest2 = drop size rest1
         in if sh_magic header \<noteq> kSnapshotMagic then Inl ''invalid snapshot magic''
            else if sh_version header \<noteq> kVersionLegacy \<and> sh_version header \<noteq> kVersionChecksummed
            then Inl ''unsupported snapshot version''
            else if size > 0 \<and> length rest1 < size then Inl ''truncated snapshot payload''
            else if sh_version header \<ge> kVersionChecksummed then
              if length rest2 < 4 then Inl ''truncated snapshot checksum''
              else if get_le (take 4 rest2) \<noteq> checksum32 payload then Inl ''snapshot checksum mismatch''
              else Inr (Some (\<lparr>er_header = header, er_payload = payload\<rparr>, drop 4 rest2))
            else Inr (Some (\<lparr>er_header = header, er_payload = payload\<rparr>, rest2))))"

function load_loop :: "bytes \<Rightarrow> string + EncodedRecord list" where
  "load_loop rest =
     (case read_next_snapshot rest of
        Inl e \<Rightarrow> Inl e
      | Inr None \<Rightarrow> Inr []
      | Inr (Some (r, rest')) \<Rightarrow> (case load_loop rest' of Inl e \<Rightarrow> Inl e | Inr rs \<Rightarrow> Inr (r # rs)))"
  by pat_completeness auto

lemma read_next_snapshot_shorter: "read_next_snapshot rest = Inr (Some (r, rest')) \<Longrightarrow> length rest' < length rest"
  by (auto simp: read_next_snapshot_def kSnapshotHeaderSize_def Let_def split: if_splits)

termination load_loop
  by (relation "measure length") (auto dest: read_next_snapshot_shorter)

declare load_loop.simps [simp del]

type_synonym FileSystem = "string \<rightharpoonup> bytes"

definition file_at :: "FileSystem \<Rightarrow> string \<Rightarrow> bytes" where
  "file_at fs path = (case fs path of None \<Rightarrow> [] | Some b \<Rightarrow> b)"

definition load_records :: "string \<Rightarrow> FileSystem \<Rightarrow> string + EncodedRecord list" where
  "load_records path fs = (case fs path of None \<Rightarrow> Inr [] | Some file \<Rightarrow> load_loop file)"

section \<open>The store\<close>

record SnapshotStore =
  ss_directory :: string
  ss_file_path :: string
  ss_options :: StoreOptions

definition new_store :: SnapshotStore where
  "new_store = \<lparr>ss_directory = [], ss_file_path = [], ss_options = default_store_options\<rparr>"

text \<open>\<open>directory / name\<close> of \<open>std::filesystem::path\<close>.\<close>

definition path_join :: "string \<Rightarrow> string \<Rightarrow> string" where
  "path_join dir name = (if dir = [] then name else if last dir = CHR ''/'' then dir @ name else dir @ ''/'' @ name)"

definition prepare :: "string \<Rightarrow> SnapshotStore \<Rightarrow> SnapshotStore" where
  "prepare directory s = s\<lparr>ss_directory := directory, ss_file_path := path_join directory ''snapshot.tc''\<rparr>"

definition open_store :: "string \<Rightarrow> StoreOptions \<Rightarrow> SnapshotStore" where
  "open_store directory options = prepare directory (new_store\<lparr>ss_options := options\<rparr>)"

definition set_options :: "StoreOptions \<Rightarrow> SnapshotStore \<Rightarrow> SnapshotStore" where
  "set_options options s = s\<lparr>ss_options := options\<rparr>"

text \<open>The bytes of the records from an index on, and the loop that drops records until they fit.\<close>

definition kept_size :: "EncodedRecord list \<Rightarrow> nat \<Rightarrow> nat" where
  "kept_size records start = sum_list (map encoded_record_size (drop start records))"

function advance :: "nat \<Rightarrow> EncodedRecord list \<Rightarrow> nat \<Rightarrow> nat" where
  "advance limit records start =
     (if start + 1 < length records \<and> kept_size records start > limit then advance limit records (start + 1) else start)"
  by pat_completeness auto

termination advance
  by (relation "measure (\<lambda>(limit, records, start). length records - start)") auto

declare advance.simps [simp del]

text \<open>The records that compaction keeps; none is dropped, and nothing is written, while the file is within its limits.\<close>

definition records_to_keep :: "StoreOptions \<Rightarrow> nat \<Rightarrow> EncodedRecord list \<Rightarrow> EncodedRecord list option" where
  "records_to_keep opts file_size records =
     (let file_limit_enabled = max_file_bytes opts > 0; record_limit_enabled = max_records opts > 0;
          needs_compaction = (file_limit_enabled \<and> file_size > max_file_bytes opts)
            \<or> (record_limit_enabled \<and> length records > max_records opts);
          start0 = (if record_limit_enabled \<and> length records > max_records opts then length records - max_records opts else 0);
          start = (if file_limit_enabled then advance (max_file_bytes opts) records start0 else start0)
      in if \<not> needs_compaction \<or> records = [] then None else Some (drop start records))"

section \<open>Files and streams\<close>

datatype FileOp = OpenAppend string | OpenTrunc string | Put bytes | Flush | Remove string | Rename string string

text \<open>The files, the path of the open stream and the bytes that it still holds.\<close>

record Disk =
  dk_files :: FileSystem
  dk_path :: string
  dk_pending :: bytes

text \<open>A number of the bytes that the stream holds reach the file, the others are gone.\<close>

definition spill :: "nat \<Rightarrow> bytes \<Rightarrow> Disk \<Rightarrow> Disk" where
  "spill n bs d = d\<lparr>dk_files := (dk_files d)(dk_path d \<mapsto> file_at (dk_files d) (dk_path d) @ take n bs), dk_pending := []\<rparr>"

fun apply_op :: "FileOp \<Rightarrow> Disk \<Rightarrow> Disk" where
  "apply_op (OpenAppend p) d = \<lparr>dk_files = (dk_files d)(p \<mapsto> file_at (dk_files d) p), dk_path = p, dk_pending = []\<rparr>"
| "apply_op (OpenTrunc p) d = \<lparr>dk_files = (dk_files d)(p \<mapsto> []), dk_path = p, dk_pending = []\<rparr>"
| "apply_op (Put bs) d = d\<lparr>dk_pending := dk_pending d @ bs\<rparr>"
| "apply_op Flush d = spill (length (dk_pending d)) (dk_pending d) d"
| "apply_op (Remove p) d = d\<lparr>dk_files := (dk_files d)(p := None)\<rparr>"
| "apply_op (Rename p q) d = d\<lparr>dk_files := ((dk_files d)(p := None))(q := dk_files d p)\<rparr>"

text \<open>An operation that fails, or in which the process dies; some bytes of the stream have been written.\<close>

fun fail_op :: "nat \<Rightarrow> FileOp \<Rightarrow> Disk \<Rightarrow> Disk" where
  "fail_op n (Put bs) d = spill n (dk_pending d @ bs) d"
| "fail_op n Flush d = spill n (dk_pending d) d"
| "fail_op n (OpenAppend p) d = d"
| "fail_op n (OpenTrunc p) d = d"
| "fail_op n (Remove p) d = d"
| "fail_op n (Rename p q) d = d"

text \<open>A step whose failure raises an exception, or whose result the code does not look at.\<close>

datatype IoStep = Checked FileOp string | Unchecked FileOp

datatype IoOutcome = Succeeds | Fails nat | Dies nat

text \<open>What may go wrong first when the file is read back: its size, opening it, or reading a part of a record.\<close>

datatype ReadFault = NoSize | NoOpen | NoHeader | NoPayload | NoChecksum

fun read_error :: "string \<Rightarrow> ReadFault \<Rightarrow> string" where
  "read_error path NoSize = ''filesystem error: cannot get file size''"
| "read_error path NoOpen = ''failed to open snapshot file for read: '' @ path"
| "read_error path NoHeader = ''truncated snapshot header''"
| "read_error path NoPayload = ''truncated snapshot payload''"
| "read_error path NoChecksum = ''truncated snapshot checksum''"

text \<open>The outcome of the checked steps by their position, of the unchecked one, and of reading the file back.\<close>

record StoreIo =
  io_at :: "nat \<Rightarrow> IoOutcome"
  io_unchecked :: IoOutcome
  io_read :: "ReadFault option"

datatype Ending = Returned | Threw string | Died

fun run_steps :: "StoreIo \<Rightarrow> nat \<Rightarrow> IoStep list \<Rightarrow> Disk \<Rightarrow> Ending \<times> Disk" where
  "run_steps io i [] d = (Returned, d)"
| "run_steps io i (Checked op e # rest) d =
     (case io_at io i of
        Succeeds \<Rightarrow> run_steps io (i + 1) rest (apply_op op d)
      | Fails n \<Rightarrow> (Threw e, fail_op n op d)
      | Dies n \<Rightarrow> (Died, fail_op n op d))"
| "run_steps io i (Unchecked op # rest) d =
     (case io_unchecked io of
        Succeeds \<Rightarrow> run_steps io (i + 1) rest (apply_op op d)
      | Fails n \<Rightarrow> run_steps io (i + 1) rest (fail_op n op d)
      | Dies n \<Rightarrow> (Died, fail_op n op d))"

section \<open>Persisting\<close>

definition record_steps :: "SequenceId \<Rightarrow> bytes \<Rightarrow> IoStep list" where
  "record_steps sequence payload =
     [Checked (Put (snapshot_header_bytes (new_snapshot_header sequence payload))) ''failed to write snapshot header'']
     @ (if payload \<noteq> [] then [Checked (Put payload) ''failed to write snapshot payload''] else [])
     @ [Checked (Put (put_le 4 (checksum32 payload))) ''failed to write snapshot checksum'']"

definition append_steps :: "string \<Rightarrow> SequenceId \<Rightarrow> bytes \<Rightarrow> IoStep list" where
  "append_steps path sequence payload =
     [Checked (OpenAppend path) (''failed to open snapshot file for write: '' @ path)]
     @ record_steps sequence payload @ [Checked Flush ''failed to flush snapshot file'']"

text \<open>The exceptions of the file system also carry a reason, which is left out.\<close>

definition rewrite_steps :: "string \<Rightarrow> EncodedRecord list \<Rightarrow> IoStep list" where
  "rewrite_steps path kept =
     (let tmp_path = path @ ''.tmp''
      in [Checked (OpenTrunc tmp_path) (''failed to open temporary snapshot file for compaction: '' @ tmp_path)]
         @ concat (map (\<lambda>r. record_steps (sh_sequence (er_header r)) (er_payload r)) kept)
         @ [Unchecked Flush, Checked (Remove path) ''filesystem error: cannot remove'', Checked (Rename tmp_path path) ''filesystem error: cannot rename''])"

definition compaction_steps :: "ReadFault option \<Rightarrow> SnapshotStore \<Rightarrow> FileSystem \<Rightarrow> string + IoStep list" where
  "compaction_steps fault s fs =
     (let opts = ss_options s; path = ss_file_path s
      in case fs path of
           None \<Rightarrow> Inr []
         | Some file \<Rightarrow>
             if path = [] \<or> \<not> max_file_bytes opts > 0 \<and> \<not> max_records opts > 0 then Inr []
             else case fault of
               Some f \<Rightarrow> Inl (read_error path f)
             | None \<Rightarrow>
                 (case load_records path fs of
                    Inl e \<Rightarrow> Inl e
                  | Inr records \<Rightarrow>
                      Inr (case records_to_keep opts (length file) records of None \<Rightarrow> [] | Some kept \<Rightarrow> rewrite_steps path kept)))"

definition persist_io :: "StoreIo \<Rightarrow> SequenceId \<Rightarrow> bytes \<Rightarrow> SnapshotStore \<Rightarrow> FileSystem \<Rightarrow> Ending \<times> FileSystem" where
  "persist_io io sequence payload s fs =
     (if ss_directory s = [] then (Threw ''snapshot store directory not set'', fs)
      else
        (let steps = append_steps (ss_file_path s) sequence payload
         in case run_steps io 0 steps \<lparr>dk_files = fs, dk_path = [], dk_pending = []\<rparr> of
              (Returned, d) \<Rightarrow>
                (case compaction_steps (io_read io) s (dk_files d) of
                   Inl e \<Rightarrow> (Threw e, dk_files d)
                 | Inr compaction \<Rightarrow> (case run_steps io (length steps) compaction d of (r, d1) \<Rightarrow> (r, dk_files d1)))
            | (r, d) \<Rightarrow> (r, dk_files d)))"

text \<open>A persist in which nothing fails.\<close>

definition all_succeed :: StoreIo where
  "all_succeed = \<lparr>io_at = (\<lambda>_. Succeeds), io_unchecked = Succeeds, io_read = None\<rparr>"

definition persist :: "SequenceId \<Rightarrow> bytes \<Rightarrow> SnapshotStore \<Rightarrow> FileSystem \<Rightarrow> string option \<times> FileSystem" where
  "persist sequence payload s fs =
     (case persist_io all_succeed sequence payload s fs of (Threw e, fs') \<Rightarrow> (Some e, fs') | (_, fs') \<Rightarrow> (None, fs'))"

text \<open>
  Failures of a process that lives on: the positions of the steps that fail, each with the number of bytes
  that reach the file all the same.
\<close>

record StoreFaults =
  sf_at :: "nat \<Rightarrow> nat option"
  sf_unchecked :: "nat option"
  sf_read :: "ReadFault option"

definition no_faults :: StoreFaults where
  "no_faults = \<lparr>sf_at = (\<lambda>_. None), sf_unchecked = None, sf_read = None\<rparr>"

definition fault_outcome :: "nat option \<Rightarrow> IoOutcome" where
  "fault_outcome f = (case f of None \<Rightarrow> Succeeds | Some n \<Rightarrow> Fails n)"

definition fault_io :: "StoreFaults \<Rightarrow> StoreIo" where
  "fault_io f = \<lparr>io_at = (\<lambda>i. fault_outcome (sf_at f i)), io_unchecked = fault_outcome (sf_unchecked f), io_read = sf_read f\<rparr>"

section \<open>Looking up\<close>

definition latest :: "SnapshotStore \<Rightarrow> FileSystem \<Rightarrow> string + SnapshotRecord option" where
  "latest s fs =
     (if ss_file_path s = [] \<or> fs (ss_file_path s) = None then Inr None
      else case load_records (ss_file_path s) fs of
        Inl e \<Rightarrow> Inl e
      | Inr records \<Rightarrow>
          Inr (if records = [] then None
               else Some \<lparr>sr_sequence = sh_sequence (er_header (last records)), sr_payload = er_payload (last records)\<rparr>))"

definition record_count :: "SnapshotStore \<Rightarrow> FileSystem \<Rightarrow> string + nat" where
  "record_count s fs =
     (if ss_file_path s = [] \<or> fs (ss_file_path s) = None then Inr 0
      else case load_records (ss_file_path s) fs of Inl e \<Rightarrow> Inl e | Inr records \<Rightarrow> Inr (length records))"

section \<open>Runs of steps\<close>

lemma run_steps_append:
  "run_steps io i (xs @ ys) d = (case run_steps io i xs d of (Returned, d1) \<Rightarrow> run_steps io (i + length xs) ys d1 | r \<Rightarrow> r)"
proof (induction xs arbitrary: i d)
  case (Cons x xs)
  then show ?case by (cases x) (auto split: IoOutcome.splits prod.splits Ending.splits)
qed (simp split: prod.splits)

fun puts :: "IoStep list \<Rightarrow> bytes" where
  "puts [] = []"
| "puts (Checked (Put bs) e # rest) = bs @ puts rest"
| "puts (_ # rest) = puts rest"

definition is_put :: "IoStep \<Rightarrow> bool" where
  "is_put st \<longleftrightarrow> (\<exists>bs e. st = Checked (Put bs) e)"

lemma puts_append [simp]: "puts (xs @ ys) = puts xs @ puts ys"
  by (induction xs rule: puts.induct) simp_all

lemma record_steps_puts [simp]: "list_all is_put (record_steps sequence payload)" "puts (record_steps sequence payload) = write_snapshot sequence payload"
  by (simp_all add: record_steps_def is_put_def write_snapshot_def)

lemma concat_puts:
  "(\<And>x. x \<in> set xs \<Longrightarrow> list_all is_put (f x)) \<Longrightarrow> list_all is_put (concat (map f xs)) \<and> puts (concat (map f xs)) = concat (map (puts \<circ> f) xs)"
  by (induction xs) auto

text \<open>Bytes put into a stream: they are pending when all steps return, or some of them are in the file.\<close>

lemma run_puts:
  assumes "list_all is_put xs"
  shows "run_steps io i xs d = (Returned, d\<lparr>dk_pending := dk_pending d @ puts xs\<rparr>)
     \<or> (\<exists>r n. r \<noteq> Returned \<and> run_steps io i xs d = (r, spill n (dk_pending d @ puts xs) d))"
  using assms
proof (induction xs arbitrary: i d)
  case (Cons x xs)
  then obtain bs e where x: "x = Checked (Put bs) e" by (auto simp: is_put_def)
  let ?d = "d\<lparr>dk_pending := dk_pending d @ bs\<rparr>"
  have cut: "\<exists>n'. spill n (dk_pending d @ bs) d = spill n' (dk_pending d @ bs @ puts xs) d" for n
    by (intro exI [of _ "min n (length (dk_pending d @ bs))"]) (simp add: spill_def min_def)
  have "spill n bs' ?d = spill n bs' d" for n bs' by (simp add: spill_def)
  with Cons.IH [of "i + 1" ?d] Cons.prems cut show ?case by (auto simp: x split: IoOutcome.splits)
qed simp

lemma append_outcome:
  assumes "run_steps io i (append_steps path sequence payload) d = (r, d')"
  shows "if r = Returned then dk_files d' = (dk_files d)(path \<mapsto> file_at (dk_files d) path @ write_snapshot sequence payload)
     else dk_files d' = dk_files d \<or> (\<exists>n. dk_files d' = (dk_files d)(path \<mapsto> file_at (dk_files d) path @ take n (write_snapshot sequence payload)))"
proof (cases "io_at io i = Succeeds")
  case True
  let ?d = "apply_op (OpenAppend path) d" and ?rs = "record_steps sequence payload"
  from run_puts [of ?rs io "Suc i" ?d]
  consider "run_steps io (Suc i) ?rs ?d = (Returned, ?d\<lparr>dk_pending := write_snapshot sequence payload\<rparr>)"
    | r' n where "r' \<noteq> Returned" "run_steps io (Suc i) ?rs ?d = (r', spill n (write_snapshot sequence payload) ?d)" by auto
  then show ?thesis
  proof cases
    case 1
    with assms True show ?thesis
      by (auto simp: append_steps_def run_steps_append spill_def file_at_def split: IoOutcome.splits option.splits)
  next
    case 2
    with assms True show ?thesis
      by (cases r') (auto simp: append_steps_def run_steps_append spill_def file_at_def split: option.splits)
  qed
next
  case False
  with assms show ?thesis by (auto simp: append_steps_def split: IoOutcome.splits)
qed

lemma rewrite_puts:
  "list_all is_put (concat (map (\<lambda>r. record_steps (sh_sequence (er_header r)) (er_payload r)) kept))"
  "puts (concat (map (\<lambda>r. record_steps (sh_sequence (er_header r)) (er_payload r)) kept))
     = concat (map (\<lambda>r. write_snapshot (sh_sequence (er_header r)) (er_payload r)) kept)"
  using concat_puts [of kept "\<lambda>r. record_steps (sh_sequence (er_header r)) (er_payload r)"] by (simp_all add: comp_def)

text \<open>
  The rewriting: it is done, or only the temporary file has changed, or the file has been removed and
  the temporary file is complete.
\<close>

lemma rewrite_outcome:
  fixes kept path
  defines "tmp \<equiv> path @ ''.tmp''" and "new \<equiv> concat (map (\<lambda>r. write_snapshot (sh_sequence (er_header r)) (er_payload r)) kept)"
  assumes "run_steps io i (rewrite_steps path kept) d = (r, d')" and "\<And>n. io_unchecked io \<noteq> Fails n"
  shows "r = Returned \<and> dk_files d' = ((dk_files d)(tmp := None))(path \<mapsto> new)
     \<or> r \<noteq> Returned \<and> (\<exists>b. dk_files d' = (dk_files d)(tmp := b))
     \<or> r \<noteq> Returned \<and> dk_files d' = (dk_files d)(tmp \<mapsto> new, path := None)"
proof (cases "io_at io i = Succeeds")
  case True
  let ?d = "apply_op (OpenTrunc tmp) d" and ?rs = "concat (map (\<lambda>r. record_steps (sh_sequence (er_header r)) (er_payload r)) kept)"
  note steps = assms(3) [unfolded rewrite_steps_def Let_def, folded tmp_def]
  have ne: "path \<noteq> tmp" "tmp \<noteq> path" by (simp_all add: tmp_def)
  from run_puts [OF rewrite_puts(1) [of kept], of io "Suc i" ?d]
  consider "run_steps io (Suc i) ?rs ?d = (Returned, ?d\<lparr>dk_pending := new\<rparr>)"
    | r' n where "r' \<noteq> Returned" "run_steps io (Suc i) ?rs ?d = (r', spill n new ?d)" by (auto simp: rewrite_puts(2) new_def)
  then show ?thesis
  proof cases
    case 1
    from 1 steps True assms(4) ne show ?thesis
      by (auto simp: run_steps_append spill_def file_at_def fun_upd_twist split: IoOutcome.splits)
  next
    case 2
    with steps True ne show ?thesis by (cases r') (auto simp: run_steps_append spill_def file_at_def)
  qed
next
  case False
  with assms(3) show ?thesis
    by (auto simp: rewrite_steps_def Let_def tmp_def split: IoOutcome.splits intro: exI [of _ "dk_files d (path @ ''.tmp'')"])
qed

section \<open>Without failures\<close>

text \<open>What the steps of a compaction come to when none of them fails.\<close>

definition compact_if_needed :: "SnapshotStore \<Rightarrow> FileSystem \<Rightarrow> string option \<times> FileSystem" where
  "compact_if_needed s fs =
     (let opts = ss_options s; path = ss_file_path s
      in if path = [] then (None, fs)
         else case fs path of
           None \<Rightarrow> (None, fs)
         | Some file \<Rightarrow>
             if \<not> max_file_bytes opts > 0 \<and> \<not> max_records opts > 0 then (None, fs)
             else case load_records path fs of
               Inl e \<Rightarrow> (Some e, fs)
             | Inr records \<Rightarrow>
                 (case records_to_keep opts (length file) records of
                    None \<Rightarrow> (None, fs)
                  | Some kept \<Rightarrow> (None, (fs(path @ ''.tmp'' := None))
                      (path \<mapsto> concat (map (\<lambda>r. write_snapshot (sh_sequence (er_header r)) (er_payload r)) kept)))))"

lemma run_steps_succeed: "fst (run_steps all_succeed i xs d) = Returned"
proof (induction xs arbitrary: i d)
  case (Cons x xs)
  then show ?case by (cases x) (simp_all add: all_succeed_def)
qed simp

lemma persist_io_eq:
  "persist_io all_succeed sequence payload s fs =
     (if ss_directory s = [] then (Threw ''snapshot store directory not set'', fs)
      else case compact_if_needed s (fs(ss_file_path s \<mapsto> file_at fs (ss_file_path s) @ write_snapshot sequence payload)) of
        (None, fs') \<Rightarrow> (Returned, fs') | (Some e, fs') \<Rightarrow> (Threw e, fs'))"
proof -
  let ?d = "\<lparr>dk_files = fs, dk_path = [], dk_pending = []\<rparr>" and ?steps = "append_steps (ss_file_path s) sequence payload"
  let ?file = "file_at fs (ss_file_path s) @ write_snapshot sequence payload"
  obtain d where d: "run_steps all_succeed 0 ?steps ?d = (Returned, d)" by (metis run_steps_succeed prod.collapse)
  then have fs: "dk_files d = fs(ss_file_path s \<mapsto> ?file)" using append_outcome [of all_succeed 0] by fastforce
  have rewrite: "(case run_steps all_succeed i (rewrite_steps path kept) d of (r, d') \<Rightarrow> (r, dk_files d')) = (Returned, ((dk_files d)(path @ ''.tmp'' := None))
      (path \<mapsto> concat (map (\<lambda>r. write_snapshot (sh_sequence (er_header r)) (er_payload r)) kept)))" for i path kept
  proof -
    obtain d' where d': "run_steps all_succeed i (rewrite_steps path kept) d = (Returned, d')" by (metis run_steps_succeed prod.collapse)
    then show ?thesis using rewrite_outcome [OF d'] by (simp add: all_succeed_def)
  qed
  have "io_read all_succeed = None" by (simp add: all_succeed_def)
  then show ?thesis
    using d fs rewrite
    by (simp add: persist_io_def compaction_steps_def compact_if_needed_def Let_def split: sum.splits option.splits)
qed

lemma persist_eq:
  "persist sequence payload s fs =
     (if ss_directory s = [] then (Some ''snapshot store directory not set'', fs)
      else compact_if_needed s (fs(ss_file_path s \<mapsto> file_at fs (ss_file_path s) @ write_snapshot sequence payload)))"
  by (simp add: persist_def persist_io_eq split: prod.splits option.splits)

lemma no_faults_succeed [simp]: "fault_io no_faults = all_succeed"
  by (simp add: fault_io_def no_faults_def all_succeed_def fault_outcome_def)

section \<open>The exceptions of a persist\<close>

definition load_errors :: "string list" where
  "load_errors = [''invalid snapshot magic'', ''unsupported snapshot version'', ''truncated snapshot payload'',
     ''truncated snapshot checksum'', ''snapshot checksum mismatch'']"

definition write_errors :: "string list" where
  "write_errors = [''failed to write snapshot header'', ''failed to write snapshot payload'', ''failed to write snapshot checksum'']"

definition snapshot_errors :: "string \<Rightarrow> string list" where
  "snapshot_errors path =
     [''snapshot store directory not set'', ''failed to open snapshot file for write: '' @ path, ''failed to flush snapshot file'',
      ''failed to open temporary snapshot file for compaction: '' @ path @ ''.tmp'',
      ''filesystem error: cannot remove'', ''filesystem error: cannot rename'']
     @ write_errors @ map (read_error path) [NoSize, NoOpen, NoHeader, NoPayload, NoChecksum] @ load_errors"

lemma run_steps_threw: "run_steps io i xs d = (Threw e, d') \<Longrightarrow> \<exists>op. Checked op e \<in> set xs"
proof (induction xs arbitrary: i d)
  case (Cons x xs)
  then show ?case by (cases x) (auto split: IoOutcome.splits)
qed simp

lemma record_steps_errors: "Checked op e \<in> set (record_steps sequence payload) \<Longrightarrow> e \<in> set write_errors"
  by (auto simp: record_steps_def write_errors_def split: if_splits)

lemma append_steps_errors: "Checked op e \<in> set (append_steps path sequence payload) \<Longrightarrow> e \<in> set (snapshot_errors path)"
  using record_steps_errors by (auto simp: append_steps_def snapshot_errors_def)

lemma rewrite_steps_errors: "Checked op e \<in> set (rewrite_steps path kept) \<Longrightarrow> e \<in> set (snapshot_errors path)"
  using record_steps_errors by (auto simp: rewrite_steps_def snapshot_errors_def Let_def)

lemma read_next_snapshot_error: "read_next_snapshot rest = Inl e \<Longrightarrow> e \<in> set load_errors"
  by (auto simp: read_next_snapshot_def load_errors_def Let_def split: if_splits)

lemma load_loop_error: "load_loop rest = Inl e \<Longrightarrow> e \<in> set load_errors"
proof (induction rest rule: load_loop.induct)
  case (1 rest)
  from "1.prems" show ?case
    using read_next_snapshot_error [of rest e] "1.IH"
    by (subst (asm) load_loop.simps) (auto split: sum.splits option.splits prod.splits)
qed

lemma compaction_steps_error: "compaction_steps fault s fs = Inl e \<Longrightarrow> e \<in> set (snapshot_errors (ss_file_path s))"
  using load_loop_error
  by (cases "the fault") (auto simp: compaction_steps_def load_records_def snapshot_errors_def Let_def split: option.splits if_splits sum.splits)

lemma compaction_steps_errors: "compaction_steps fault s fs = Inr xs \<Longrightarrow> Checked op e \<in> set xs \<Longrightarrow> e \<in> set (snapshot_errors (ss_file_path s))"
  using rewrite_steps_errors by (auto simp: compaction_steps_def Let_def split: option.splits if_splits sum.splits)

lemma persist_io_threw:
  assumes "persist_io io sequence payload s fs = (Threw e, fs')"
  shows "e \<in> set (snapshot_errors (ss_file_path s))"
proof (cases "ss_directory s = []")
  case True
  then show ?thesis using assms by (simp add: persist_io_def snapshot_errors_def)
next
  case False
  then show ?thesis
    using assms by (auto simp: persist_io_def Let_def split: prod.splits Ending.splits sum.splits
      dest: run_steps_threw append_steps_errors compaction_steps_error compaction_steps_errors)
qed

lemma run_steps_fault: "fst (run_steps (fault_io f) i xs d) \<noteq> Died"
proof (induction xs arbitrary: i d)
  case (Cons x xs)
  then show ?case by (cases x) (auto simp: fault_io_def fault_outcome_def split: option.splits)
qed simp

lemma persist_fault_lives: "fst (persist_io (fault_io f) sequence payload s fs) \<noteq> Died"
  using run_steps_fault [of f] by (auto simp: persist_io_def Let_def split: prod.splits Ending.splits sum.splits) (metis fst_conv)+

section \<open>Files of records\<close>

text \<open>A file that the store has written is the records it holds, one after the other.\<close>

type_synonym Saved = "SequenceId \<times> bytes"

definition snapshot_file :: "Saved list \<Rightarrow> bytes" where
  "snapshot_file ps = concat (map (\<lambda>(s, p). write_snapshot s p) ps)"

definition saved_ok :: "Saved \<Rightarrow> bool" where
  "saved_ok p \<longleftrightarrow> length (snd p) < 2 ^ 32"

definition encoded :: "Saved \<Rightarrow> EncodedRecord" where
  "encoded p = \<lparr>er_header = new_snapshot_header (fst p) (snd p), er_payload = snd p\<rparr>"

lemma snapshot_file_simps [simp]:
  "snapshot_file [] = []" "snapshot_file (p # ps) = write_snapshot (fst p) (snd p) @ snapshot_file ps"
  "snapshot_file (ps @ qs) = snapshot_file ps @ snapshot_file qs"
  by (simp_all add: snapshot_file_def case_prod_unfold)

lemma length_snapshot_header [simp]: "length (snapshot_header_bytes h) = kSnapshotHeaderSize"
  by (simp add: snapshot_header_bytes_def kSnapshotHeaderSize_def)

lemma snapshot_header_of_bytes [simp]: "snapshot_header_of (snapshot_header_bytes h) = h"
  by (simp add: snapshot_header_of_def snapshot_header_bytes_def del: put_le.simps)

lemma read_write_snapshot:
  assumes "length payload < 2 ^ 32"
  shows "read_next_snapshot (write_snapshot sequence payload @ rest) = Inr (Some (encoded (sequence, payload), rest))"
proof -
  let ?h = "new_snapshot_header sequence payload"
  have h: "unat (sh_payload_size ?h) = length payload" "sh_magic ?h = kSnapshotMagic" "sh_version ?h = kVersionChecksummed"
    using assms by (simp_all add: new_snapshot_header_def unat_of_nat)
  show ?thesis
    by (simp add: read_next_snapshot_def write_snapshot_def encoded_def h Let_def del: put_le.simps)
qed

lemma load_snapshot_file_then:
  "list_all saved_ok ps \<Longrightarrow> load_loop (snapshot_file ps @ rest) = (case load_loop rest of Inl e \<Rightarrow> Inl e | Inr rs \<Rightarrow> Inr (map encoded ps @ rs))"
proof (induction ps)
  case (Cons p ps)
  then have "read_next_snapshot (snapshot_file (p # ps) @ rest) = Inr (Some (encoded p, snapshot_file ps @ rest))"
    using read_write_snapshot [of "snd p" "fst p"] by (simp add: saved_ok_def)
  then show ?case using Cons by (subst load_loop.simps) (simp del: snapshot_file_simps split: sum.splits)
qed (simp split: sum.splits)

lemma load_short: "length rest < kSnapshotHeaderSize \<Longrightarrow> load_loop rest = Inr []"
  by (subst load_loop.simps) (simp add: read_next_snapshot_def)

lemma load_snapshot_file: "list_all saved_ok ps \<Longrightarrow> load_loop (snapshot_file ps) = Inr (map encoded ps)"
  using load_snapshot_file_then [of ps "[]"] load_short [of "[]"] by (simp add: kSnapshotHeaderSize_def)

lemma length_write_snapshot: "length (write_snapshot s p) = encoded_record_size (encoded (s, p))"
  by (simp add: write_snapshot_def encoded_record_size_def encoded_def del: put_le.simps)

lemma length_snapshot_file: "length (snapshot_file ps) = sum_list (map encoded_record_size (map encoded ps))"
  by (induction ps) (simp_all add: length_write_snapshot)

lemma kept_size_file: "kept_size (map encoded ps) k = length (snapshot_file (drop k ps))"
  by (simp add: kept_size_def length_snapshot_file drop_map)

lemma rewritten_file:
  "concat (map (\<lambda>r. write_snapshot (sh_sequence (er_header r)) (er_payload r)) (drop k (map encoded ps)))
     = snapshot_file (drop k ps)"
  by (simp add: drop_map snapshot_file_def case_prod_unfold encoded_def new_snapshot_header_def comp_def)

section \<open>Compaction\<close>

lemma advance_ge: "start \<le> advance limit rs start"
proof (induction limit rs start rule: advance.induct)
  case (1 limit rs start)
  then show ?case by (subst advance.simps) (simp, linarith)
qed

lemma advance_less: "start < length rs \<Longrightarrow> advance limit rs start < length rs"
proof (induction limit rs start rule: advance.induct)
  case (1 limit rs start)
  then show ?case by (subst advance.simps) simp
qed

lemma advance_fits: "start < length rs \<Longrightarrow> kept_size rs (advance limit rs start) \<le> limit \<or> advance limit rs start + 1 = length rs"
proof (induction limit rs start rule: advance.induct)
  case (1 limit rs start)
  then show ?case
    by (cases "start + 1 < length rs \<and> kept_size rs start > limit") (auto simp: advance.simps [of limit rs start])
qed

text \<open>What is left is a suffix that has the newest record and respects the limits.\<close>

definition within_limits :: "StoreOptions \<Rightarrow> Saved list \<Rightarrow> bool" where
  "within_limits opts ps \<longleftrightarrow> (max_records opts = 0 \<or> length ps \<le> max_records opts)
     \<and> (max_file_bytes opts = 0 \<or> length (snapshot_file ps) \<le> max_file_bytes opts \<or> length ps = 1)"

lemma compact_file:
  assumes "fs (ss_file_path s) = Some (snapshot_file ps)" and "list_all saved_ok ps" and "ps \<noteq> []" and "ss_file_path s \<noteq> []"
  shows "\<exists>k fs'. compact_if_needed s fs = (None, fs') \<and> k < length ps \<and> fs' (ss_file_path s) = Some (snapshot_file (drop k ps))
           \<and> within_limits (ss_options s) (drop k ps)"
proof -
  let ?o = "ss_options s" and ?n = "length ps" and ?rs = "map encoded ps"
  define start0 where "start0 = (if max_records ?o > 0 \<and> ?n > max_records ?o then ?n - max_records ?o else 0)"
  define start where "start = (if max_file_bytes ?o > 0 then advance (max_file_bytes ?o) ?rs start0 else start0)"
  let ?needs = "max_file_bytes ?o > 0 \<and> length (snapshot_file ps) > max_file_bytes ?o \<or> max_records ?o > 0 \<and> ?n > max_records ?o"
  have s0: "start0 < length ?rs" using assms(3) by (auto simp: start0_def)
  have loaded: "load_records (ss_file_path s) fs = Inr ?rs"
    using assms(1) by (simp add: load_records_def load_snapshot_file [OF assms(2)])
  show ?thesis
  proof (cases ?needs)
    case True
    have lt: "start < ?n" using advance_less [OF s0] s0 by (simp add: start_def)
    have "max_records ?o = 0 \<or> ?n - start0 \<le> max_records ?o" by (simp add: start0_def)
    then have "max_records ?o = 0 \<or> ?n - start \<le> max_records ?o"
      using advance_ge [of start0 "max_file_bytes ?o" ?rs] by (auto simp: start_def)
    moreover have "max_file_bytes ?o = 0 \<or> length (snapshot_file (drop start ps)) \<le> max_file_bytes ?o \<or> ?n - start = 1"
      using advance_fits [OF s0, of "max_file_bytes ?o"] by (auto simp: start_def kept_size_file)
    ultimately have "within_limits ?o (drop start ps)" by (simp add: within_limits_def)
    moreover have "compact_if_needed s fs
        = (None, (fs(ss_file_path s @ ''.tmp'' := None))(ss_file_path s \<mapsto> snapshot_file (drop start ps)))"
      using assms True by (auto simp: compact_if_needed_def records_to_keep_def loaded Let_def rewritten_file start_def start0_def)
    ultimately show ?thesis using lt by (intro exI [of _ start]) simp
  next
    case False
    then have "within_limits ?o (drop 0 ps)" by (auto simp: within_limits_def not_less)
    moreover have "compact_if_needed s fs = (None, fs)"
      using assms False by (auto simp: compact_if_needed_def records_to_keep_def loaded Let_def)
    ultimately show ?thesis using assms(1,3) by (intro exI [of _ 0]) simp
  qed
qed

fun persist_all :: "Saved list \<Rightarrow> SnapshotStore \<Rightarrow> FileSystem \<Rightarrow> string option \<times> FileSystem" where
  "persist_all [] s fs = (None, fs)"
| "persist_all ((sequence, payload) # ps) s fs =
     (case persist sequence payload s fs of (Some e, fs1) \<Rightarrow> (Some e, fs1) | (None, fs1) \<Rightarrow> persist_all ps s fs1)"

definition store_ready :: "SnapshotStore \<Rightarrow> bool" where
  "store_ready s \<longleftrightarrow> ss_directory s \<noteq> [] \<and> ss_file_path s \<noteq> []"

lemma store_ready_open [simp]: "store_ready (open_store dir opts) \<longleftrightarrow> dir \<noteq> []"
  by (simp add: store_ready_def open_store_def prepare_def path_join_def new_store_def)

lemma persist_file:
  assumes "store_ready s" and "(case fs (ss_file_path s) of None \<Rightarrow> [] | Some f \<Rightarrow> f) = snapshot_file ps"
    and "list_all saved_ok (ps @ [(sequence, payload)])"
  shows "\<exists>k fs'. persist sequence payload s fs = (None, fs') \<and> k \<le> length ps
           \<and> fs' (ss_file_path s) = Some (snapshot_file (drop k (ps @ [(sequence, payload)])))
           \<and> within_limits (ss_options s) (drop k (ps @ [(sequence, payload)]))"
proof -
  let ?ps = "ps @ [(sequence, payload)]"
  have "(fs(ss_file_path s \<mapsto> snapshot_file ?ps)) (ss_file_path s) = Some (snapshot_file ?ps)" by simp
  with compact_file [of "fs(ss_file_path s \<mapsto> snapshot_file ?ps)" s ?ps] assms(1,3) obtain k fs' where
    "compact_if_needed s (fs(ss_file_path s \<mapsto> snapshot_file ?ps)) = (None, fs')" "k < length ?ps"
    "fs' (ss_file_path s) = Some (snapshot_file (drop k ?ps))" "within_limits (ss_options s) (drop k ?ps)"
    by (auto simp: store_ready_def simp del: snapshot_file_simps fun_upd_apply)
  moreover have "persist sequence payload s fs = compact_if_needed s (fs(ss_file_path s \<mapsto> snapshot_file ?ps))"
    using assms(1,2) by (simp add: persist_eq store_ready_def file_at_def)
  ultimately show ?thesis by (intro exI [of _ k] exI [of _ fs']) auto
qed

lemma persist_all_file:
  assumes "store_ready s" and "fs (ss_file_path s) = Some (snapshot_file (drop k qs))" and "k < length qs"
    and "within_limits (ss_options s) (drop k qs)" and "list_all saved_ok (qs @ ps)"
  shows "\<exists>k' fs'. persist_all ps s fs = (None, fs') \<and> k' < length (qs @ ps)
           \<and> fs' (ss_file_path s) = Some (snapshot_file (drop k' (qs @ ps))) \<and> within_limits (ss_options s) (drop k' (qs @ ps))"
  using assms(2-)
proof (induction ps arbitrary: fs k qs)
  case Nil
  then show ?case by auto
next
  case (Cons p ps)
  obtain sequence payload where p: "p = (sequence, payload)" by (cases p)
  have "list_all saved_ok (drop k qs @ [p])" using Cons.prems(4) by (auto simp: list_all_iff dest: in_set_dropD)
  with persist_file [of s fs "drop k qs" sequence payload] Cons.prems(1) assms(1) obtain i fs1 where
    fs1: "persist sequence payload s fs = (None, fs1)" "i \<le> length (drop k qs)"
      "fs1 (ss_file_path s) = Some (snapshot_file (drop i (drop k qs @ [p])))" "within_limits (ss_options s) (drop i (drop k qs @ [p]))"
    by (auto simp: p)
  have "drop i (drop k qs @ [p]) = drop (k + i) (qs @ [p])" using fs1(2) Cons.prems(2) by (simp add: add.commute)
  with fs1 Cons.IH [of fs1 "k + i" "qs @ [p]"] Cons.prems show ?case by (auto simp: p)
qed

section \<open>The store keeps the newest records\<close>

lemma latest_file:
  assumes "ss_file_path s \<noteq> []" and "(case fs (ss_file_path s) of None \<Rightarrow> [] | Some b \<Rightarrow> b) = snapshot_file ps" and "list_all saved_ok ps"
  shows "latest s fs = Inr (if ps = [] then None else Some \<lparr>sr_sequence = fst (last ps), sr_payload = snd (last ps)\<rparr>)"
proof (cases "fs (ss_file_path s)")
  case None
  then have "map encoded ps = []" using assms(2) load_snapshot_file [OF assms(3)] load_snapshot_file [of "[]"] by simp
  then show ?thesis using None by (simp add: latest_def)
next
  case (Some b)
  then have "load_records (ss_file_path s) fs = Inr (map encoded ps)"
    using assms(2) load_snapshot_file [OF assms(3)] by (simp add: load_records_def)
  then show ?thesis using assms(1) Some by (simp add: latest_def last_map encoded_def new_snapshot_header_def)
qed

text \<open>
  C35. The snapshot store is durable and bounded: after any number of persists in a new directory, with any
  options, none of which fails, the file holds exactly a suffix of what was persisted, which has the
  newest record; \<open>latest\<close> returns that record, \<open>record_count\<close> the number kept, which is within the
  record limit; and the file is within the size limit unless the newest record alone exceeds it.
\<close>

theorem snapshot_store_keeps_newest:
  assumes "store_ready s" and "fs (ss_file_path s) = None" and "ps \<noteq> []" and "list_all saved_ok ps"
  shows "\<exists>k fs'. persist_all ps s fs = (None, fs') \<and> k < length ps
     \<and> load_records (ss_file_path s) fs' = Inr (map encoded (drop k ps))
     \<and> latest s fs' = Inr (Some \<lparr>sr_sequence = fst (last ps), sr_payload = snd (last ps)\<rparr>)
     \<and> record_count s fs' = Inr (length ps - k)
     \<and> (max_records (ss_options s) = 0 \<or> length ps - k \<le> max_records (ss_options s))
     \<and> (max_file_bytes (ss_options s) = 0 \<or> length (the (fs' (ss_file_path s))) \<le> max_file_bytes (ss_options s) \<or> length ps - k = 1)"
proof -
  obtain p ps' where ps: "ps = p # ps'" using assms(3) by (cases ps) auto
  obtain k1 fs1 where "persist (fst p) (snd p) s fs = (None, fs1)" "k1 \<le> 0"
      "fs1 (ss_file_path s) = Some (snapshot_file (drop k1 [p]))" "within_limits (ss_options s) (drop k1 [p])"
    using persist_file [OF assms(1), of fs "[]" "fst p" "snd p"] assms(2,4) by (auto simp: ps)
  moreover from this(2-) obtain k fs' where k: "persist_all ps' s fs1 = (None, fs')" "k < length ps"
      "fs' (ss_file_path s) = Some (snapshot_file (drop k ps))" "within_limits (ss_options s) (drop k ps)"
    using persist_all_file [OF assms(1), of fs1 0 "[p]" ps'] assms(4) by (auto simp: ps)
  ultimately have run: "persist_all ps s fs = (None, fs')" by (cases p) (simp add: ps)
  have "list_all saved_ok (drop k ps)" using assms(4) by (auto simp: list_all_iff dest: in_set_dropD)
  then have loaded: "load_records (ss_file_path s) fs' = Inr (map encoded (drop k ps))"
    using k(3) by (simp add: load_records_def load_snapshot_file)
  have "latest s fs' = Inr (Some \<lparr>sr_sequence = fst (last ps), sr_payload = snd (last ps)\<rparr>)"
    using latest_file [of s fs' "drop k ps"] assms(1) k(2,3) \<open>list_all saved_ok (drop k ps)\<close> by (simp add: last_drop store_ready_def)
  moreover have "record_count s fs' = Inr (length ps - k)"
    using assms(1) k(3) by (simp add: record_count_def loaded store_ready_def)
  ultimately show ?thesis
    using run loaded k by (intro exI [of _ k] exI [of _ fs']) (simp add: within_limits_def)
qed

theorem snapshot_store_keeps_newest_witness:
  "\<exists>fs'. persist_all [(1, [7]), (2, [8, 9]), (5, [])] (open_store ''snap'' \<lparr>max_records = 2, max_file_bytes = 0\<rparr>) Map.empty = (None, fs')
     \<and> latest (open_store ''snap'' \<lparr>max_records = 2, max_file_bytes = 0\<rparr>) fs' = Inr (Some \<lparr>sr_sequence = 5, sr_payload = []\<rparr>)"
proof -
  let ?s = "open_store ''snap'' \<lparr>max_records = 2, max_file_bytes = 0\<rparr>" and ?ps = "[(1, [7]), (2, [8, 9]), (5, [])] :: Saved list"
  have "store_ready ?s" "list_all saved_ok ?ps" by (simp_all add: saved_ok_def)
  from snapshot_store_keeps_newest [OF this(1) _ _ this(2), of Map.empty] show ?thesis by auto
qed

text \<open>A changed payload byte in the newest record is detected when the store is read.\<close>

lemma snapshot_corruption_detected:
  assumes "list_all saved_ok ps" and "length payload < 2 ^ 32" and "i < length payload" and "b \<noteq> payload ! i"
  shows "load_loop (snapshot_file ps @ snapshot_header_bytes (new_snapshot_header s payload) @ payload[i := b]
           @ put_le 4 (checksum32 payload)) = Inl ''snapshot checksum mismatch''"
proof -
  let ?h = "new_snapshot_header s payload"
  have h: "unat (sh_payload_size ?h) = length payload" "sh_magic ?h = kSnapshotMagic" "sh_version ?h = kVersionChecksummed"
    using assms(2) by (simp_all add: new_snapshot_header_def unat_of_nat)
  have "load_loop (snapshot_header_bytes ?h @ payload[i := b] @ put_le 4 (checksum32 payload)) = Inl ''snapshot checksum mismatch''"
    using checksum32_update [OF assms(3,4)]
    by (subst load_loop.simps) (simp add: read_next_snapshot_def h Let_def del: put_le.simps)
  then show ?thesis by (simp add: load_snapshot_file_then [OF assms(1)])
qed

end
