(* ===== verification/Snapshot_Crash.thy ===== *)
theory Snapshot_Crash
  imports Snapshot
begin

text \<open>
  The snapshot store on a disk that fails: whichever of the steps of a persist fails or is the one in which the
  process dies, what the store reads afterwards is the old newest record or the new one, or the damage is
  reported; two weaknesses of the code show as exceptions from this: the moment between removing the file
  and renaming its replacement, and the flush of the replacement, whose result is not looked at.
\<close>

section \<open>Files that are cut off\<close>

lemma load_torn:
  assumes "length payload < 2 ^ 32" and "n < length (write_snapshot sequence payload)"
  shows "load_loop (take n (write_snapshot sequence payload)) \<in> {Inr [], Inl ''truncated snapshot payload'', Inl ''truncated snapshot checksum''}"
proof (cases "n < kSnapshotHeaderSize")
  case False
  let ?h = "new_snapshot_header sequence payload"
  have h: "unat (sh_payload_size ?h) = length payload" "sh_magic ?h = kSnapshotMagic" "sh_version ?h = kVersionChecksummed"
    using assms(1) by (simp_all add: new_snapshot_header_def unat_of_nat)
  have "take n (write_snapshot sequence payload)
      = snapshot_header_bytes ?h @ take (n - kSnapshotHeaderSize) payload @ take (n - kSnapshotHeaderSize - length payload) (put_le 4 (checksum32 payload))"
    using False by (simp add: write_snapshot_def del: put_le.simps)
  moreover have "n - kSnapshotHeaderSize < length payload + 4" using assms(2) False by (simp add: write_snapshot_def)
  ultimately show ?thesis
    by (subst load_loop.simps) (auto simp: read_next_snapshot_def h Let_def simp del: put_le.simps)
qed (simp add: load_short)

section \<open>A persist that fails or dies\<close>

lemma records_to_keep_suffix:
  assumes "records_to_keep opts n rs = Some kept" shows "\<exists>k<length rs. kept = drop k rs"
proof -
  define start0 where "start0 = (if max_records opts > 0 \<and> length rs > max_records opts then length rs - max_records opts else 0)"
  have "rs \<noteq> []" using assms by (auto simp: records_to_keep_def Let_def split: if_splits)
  then have "start0 < length rs" by (auto simp: start0_def)
  moreover have "kept = drop (if max_file_bytes opts > 0 then advance (max_file_bytes opts) rs start0 else start0) rs"
    using assms unfolding records_to_keep_def Let_def start0_def [symmetric] by (simp split: if_splits)
  ultimately show ?thesis using advance_less by metis
qed

text \<open>What is on the disk afterwards: see the four cases.\<close>

lemma persist_io_cases:
  assumes "store_ready s" and "file_at fs (ss_file_path s) = snapshot_file ps" and "list_all saved_ok (ps @ [(sequence, payload)])"
    and "\<And>n. io_unchecked io \<noteq> Fails n" and "persist_io io sequence payload s fs = (r, fs')"
  defines "path \<equiv> ss_file_path s" and "tmp \<equiv> ss_file_path s @ ''.tmp''"
  obtains (before) "r \<noteq> Returned" "fs' = fs"
  | (torn) n where "r \<noteq> Returned" "fs' = fs(path \<mapsto> snapshot_file ps @ take n (write_snapshot sequence payload))"
  | (written) k b where "k \<le> length ps" "fs' = fs(tmp := b, path \<mapsto> snapshot_file (drop k (ps @ [(sequence, payload)])))"
  | (removed) k where "r \<noteq> Returned" "k \<le> length ps"
      "fs' = fs(path := None, tmp \<mapsto> snapshot_file (drop k (ps @ [(sequence, payload)])))"
proof -
  let ?d = "\<lparr>dk_files = fs, dk_path = [], dk_pending = []\<rparr>" and ?steps = "append_steps path sequence payload"
  let ?all = "ps @ [(sequence, payload)]"
  have ne: "path \<noteq> tmp" by (simp add: path_def tmp_def)
  have path: "ss_file_path s = path" "file_at fs path = snapshot_file ps" "path \<noteq> []" "path @ ''.tmp'' = tmp"
    using assms(1,2) by (simp_all add: path_def tmp_def store_ready_def)
  obtain r1 d1 where d1: "run_steps io 0 ?steps ?d = (r1, d1)" by (metis surj_pair)
  note out = append_outcome [OF d1, simplified path Disk.select_convs]
  show thesis
  proof (cases "r1 = Returned")
    case False
    then have "r = r1" "fs' = dk_files d1" using assms(1,5) d1 by (auto simp: persist_io_def store_ready_def path_def split: Ending.splits)
    then show thesis using False out before torn by auto
  next
    case True
    then have files: "dk_files d1 = fs(path \<mapsto> snapshot_file ?all)" using out by simp
    have run: "(case compaction_steps (io_read io) s (dk_files d1) of Inl e \<Rightarrow> (Threw e, dk_files d1)
        | Inr cs \<Rightarrow> (case run_steps io (length ?steps) cs d1 of (r, d1) \<Rightarrow> (r, dk_files d1))) = (r, fs')"
      using assms(1,5) d1 True by (simp add: persist_io_def store_ready_def path)
    have "load_records path (dk_files d1) = Inr (map encoded ?all)"
      using load_snapshot_file [OF assms(3)] by (simp add: load_records_def files)
    then consider "fs' = dk_files d1"
      | kept where "records_to_keep (ss_options s) (length (snapshot_file ?all)) (map encoded ?all) = Some kept"
          "(case run_steps io (length ?steps) (rewrite_steps path kept) d1 of (r, d1) \<Rightarrow> (r, dk_files d1)) = (r, fs')"
      using run files by (auto simp: compaction_steps_def Let_def path split: if_splits option.splits)
    then show thesis
    proof cases
      case 1
      then show thesis using files by (intro written [of 0 "fs tmp"]) simp_all
    next
      case 2
      obtain k where k: "k \<le> length ps" "kept = drop k (map encoded ?all)" using records_to_keep_suffix [OF 2(1)] unfolding length_map length_append_singleton less_Suc_eq_le by blast
      obtain d' where "run_steps io (length ?steps) (rewrite_steps path kept) d1 = (r, d')" "fs' = dk_files d'" using 2(2) by (auto split: prod.splits)
      with rewrite_outcome [OF this(1) assms(4)] consider "fs' = (dk_files d1)(tmp := None, path \<mapsto> snapshot_file (drop k ?all))"
        | b where "fs' = (dk_files d1)(tmp := b)"
        | "r \<noteq> Returned" "fs' = (dk_files d1)(tmp \<mapsto> snapshot_file (drop k ?all), path := None)"
        unfolding path(4) k(2) rewritten_file by blast
      then show thesis
      proof cases
        case 1
        with k(1) ne show thesis by (intro written [of k None]) (simp_all add: files fun_upd_twist)
      next
        case (2 b)
        with ne show thesis by (intro written [of 0 b]) (simp_all add: files fun_upd_twist)
      next
        case 3
        with k(1) ne show thesis by (intro removed [of k]) (simp_all add: files fun_upd_twist)
      qed
    qed
  qed
qed

definition saved_record :: "Saved \<Rightarrow> SnapshotRecord" where
  "saved_record p = \<lparr>sr_sequence = fst p, sr_payload = snd p\<rparr>"

definition newest_of :: "Saved list \<Rightarrow> SnapshotRecord option" where
  "newest_of ps = (if ps = [] then None else Some (saved_record (last ps)))"

lemma latest_newest:
  "ss_file_path s \<noteq> [] \<Longrightarrow> file_at fs (ss_file_path s) = snapshot_file ps \<Longrightarrow> list_all saved_ok ps \<Longrightarrow> latest s fs = Inr (newest_of ps)"
  using latest_file [of s fs ps] by (simp add: file_at_def newest_of_def saved_record_def)

lemma latest_torn:
  assumes "ss_file_path s \<noteq> []" and "list_all saved_ok (ps @ [(sequence, payload)])"
    and "fs (ss_file_path s) = Some (snapshot_file ps @ take n (write_snapshot sequence payload))"
  shows "latest s fs \<in> {Inr (newest_of ps), Inr (Some (saved_record (sequence, payload))),
    Inl ''truncated snapshot payload'', Inl ''truncated snapshot checksum''}"
proof (cases "n < length (write_snapshot sequence payload)")
  case True
  have ok: "list_all saved_ok ps" "length payload < 2 ^ 32" using assms(2) by (simp_all add: saved_ok_def)
  have "latest s fs = (case load_loop (snapshot_file ps @ take n (write_snapshot sequence payload)) of Inl e \<Rightarrow> Inl e
      | Inr rs \<Rightarrow> Inr (if rs = [] then None else Some \<lparr>sr_sequence = sh_sequence (er_header (last rs)), sr_payload = er_payload (last rs)\<rparr>))"
    using assms(1,3) by (simp add: latest_def load_records_def)
  then show ?thesis
    using load_torn [OF ok(2) True] unfolding load_snapshot_file_then [OF ok(1)]
    by (auto simp: newest_of_def saved_record_def last_map encoded_def new_snapshot_header_def)
next
  case False
  then have "file_at fs (ss_file_path s) = snapshot_file (ps @ [(sequence, payload)])" using assms(3) by (simp add: file_at_def)
  from latest_newest [OF assms(1) this assms(2)] show ?thesis by (simp add: newest_of_def)
qed

text \<open>
  C36. A persist on a disk that fails: each of its steps may succeed, fail, or be the one in which the process
  dies, with any number of the bytes of the stream in the file, as long as a failure of the one flush that
  the code does not look at is left aside. If the persist returns, \<open>latest\<close> is the new record. However it
  ends, \<open>latest\<close> is the newest old record or the new one, or reports a truncated record; or there is no
  file, and then the temporary file holds all records that were to be kept, the new one among
  them. No other file is touched.
\<close>

theorem snapshot_persist_faults:
  assumes "store_ready s" and "file_at fs (ss_file_path s) = snapshot_file ps" and "list_all saved_ok (ps @ [(sequence, payload)])"
    and "\<And>n. io_unchecked io \<noteq> Fails n" and "persist_io io sequence payload s fs = (r, fs')"
  defines "path \<equiv> ss_file_path s" and "new \<equiv> (sequence, payload)"
  shows "(r = Returned \<longrightarrow> latest s fs' = Inr (Some (saved_record new)))
     \<and> (latest s fs' \<in> {Inr (newest_of ps), Inr (Some (saved_record new)), Inl ''truncated snapshot payload'', Inl ''truncated snapshot checksum''}
        \<or> fs' path = None \<and> (\<exists>k\<le>length ps. fs' (path @ ''.tmp'') = Some (snapshot_file (drop k (ps @ [new])))))
     \<and> (\<forall>p. p \<noteq> path \<longrightarrow> p \<noteq> path @ ''.tmp'' \<longrightarrow> fs' p = fs p)"
  using assms(1-5)
proof (cases rule: persist_io_cases)
  case before
  with latest_newest [of s fs ps] assms(1-3) show ?thesis by (simp add: store_ready_def)
next
  case (torn n)
  with latest_torn [of s ps sequence payload fs' n] assms(1,3) show ?thesis by (simp add: store_ready_def path_def new_def)
next
  case (written k b)
  have "list_all saved_ok (drop k (ps @ [new]))" using assms(3) unfolding new_def by (auto simp: list_all_iff dest: in_set_dropD)
  with latest_newest [of s fs' "drop k (ps @ [new])"] written assms(1) show ?thesis
    by (simp add: store_ready_def path_def new_def file_at_def newest_of_def)
next
  case (removed k)
  then show ?thesis by (auto simp: path_def new_def)
qed

definition sample_store :: SnapshotStore where
  "sample_store = open_store ''snap'' \<lparr>max_records = 1, max_file_bytes = 0\<rparr>"

text \<open>The process dies in the rename of the first compaction.\<close>

theorem snapshot_persist_faults_witness:
  "let path = ss_file_path sample_store; io = all_succeed\<lparr>io_at := (\<lambda>i. if i = 11 then Dies 0 else Succeeds)\<rparr>;
       fs' = snd (persist_io io 2 [8] sample_store [path \<mapsto> snapshot_file [(1, [7])]])
   in latest sample_store fs' \<in> {Inr (newest_of [(1, [7])]), Inr (Some (saved_record (2, [8]))), Inl ''truncated snapshot payload'', Inl ''truncated snapshot checksum''}
     \<or> fs' path = None \<and> (\<exists>k\<le>1. fs' (path @ ''.tmp'') = Some (snapshot_file (drop k [(1, [7]), (2, [8])])))"
proof -
  let ?io = "all_succeed\<lparr>io_at := (\<lambda>i. if i = 11 then Dies 0 else Succeeds)\<rparr>" and ?fs = "[ss_file_path sample_store \<mapsto> snapshot_file [(1, [7])]]"
  obtain r fs' where p: "persist_io ?io 2 [8] sample_store ?fs = (r, fs')" by (metis surj_pair)
  have "store_ready sample_store" "file_at ?fs (ss_file_path sample_store) = snapshot_file [(1, [7])]"
    "list_all saved_ok ([(1, [7])] @ [(2, [8])])" "\<And>n. io_unchecked ?io \<noteq> Fails n"
    by (simp_all add: sample_store_def file_at_def saved_ok_def all_succeed_def del: snapshot_file_simps)
  from snapshot_persist_faults [OF this p] p show ?thesis by (simp add: Let_def del: snapshot_file_simps)
qed

section \<open>Damage that stays\<close>

text \<open>
  The flush of the replacement file is not looked at: when the disk is full and it stores nothing, the old file is
  removed all the same, the empty one takes its place, and \<open>persist\<close> returns normally. All snapshots
  are gone.
\<close>

lemma flush_failure_loses_snapshots:
  assumes "store_ready s" and "file_at fs (ss_file_path s) = snapshot_file ps" and "list_all saved_ok (ps @ [(sequence, payload)])"
    and "0 < max_records (ss_options s)" and "max_records (ss_options s) \<le> length ps"
  defines "io \<equiv> all_succeed\<lparr>io_unchecked := Fails 0\<rparr>"
  shows "\<exists>fs'. persist_io io sequence payload s fs = (Returned, fs') \<and> fs' (ss_file_path s) = Some [] \<and> latest s fs' = Inr None"
proof -
  let ?path = "ss_file_path s" and ?all = "ps @ [(sequence, payload)]"
  let ?d = "\<lparr>dk_files = fs, dk_path = [], dk_pending = []\<rparr>" and ?steps = "append_steps (ss_file_path s) sequence payload"
  have succeeds: "io_at io i = Succeeds" for i by (simp add: io_def all_succeed_def)
  have fails: "io_unchecked io = Fails 0" and readable: "io_read io = None" by (simp_all add: io_def all_succeed_def)
  have put: "run_steps io i xs d = (Returned, d\<lparr>dk_pending := dk_pending d @ puts xs\<rparr>)" if "list_all is_put xs" for i xs d
    using that by (induction xs arbitrary: i d) (auto simp: is_put_def succeeds)
  have "run_steps io 0 ?steps ?d = (Returned, \<lparr>dk_files = fs(?path \<mapsto> snapshot_file ?all), dk_path = ?path, dk_pending = []\<rparr>)"
    using assms(2) by (simp add: append_steps_def run_steps_append succeeds put spill_def file_at_def)
  moreover have "load_records ?path (fs(?path \<mapsto> snapshot_file ?all)) = Inr (map encoded ?all)"
    using load_snapshot_file [OF assms(3)] by (simp add: load_records_def)
  moreover obtain kept where "records_to_keep (ss_options s) (length (snapshot_file ?all)) (map encoded ?all) = Some kept"
    using assms(4,5) by (auto simp: records_to_keep_def Let_def)
  moreover obtain d' where "run_steps io (length ?steps) (rewrite_steps ?path kept) \<lparr>dk_files = fs(?path \<mapsto> snapshot_file ?all), dk_path = ?path, dk_pending = []\<rparr> = (Returned, d')"
      "dk_files d' ?path = Some []"
    by (simp add: rewrite_steps_def Let_def run_steps_append succeeds fails put rewrite_puts(1) spill_def file_at_def)
  ultimately obtain fs' where fs': "persist_io io sequence payload s fs = (Returned, fs')" "fs' ?path = Some []"
    using assms(1,4) by (simp add: persist_io_def compaction_steps_def store_ready_def Let_def readable del: snapshot_file_simps)
  moreover from this(2) have "latest s fs' = Inr None"
    using load_short [of "[]"] by (simp add: latest_def load_records_def kSnapshotHeaderSize_def)
  ultimately show ?thesis by blast
qed

text \<open>
  A record of which only the first bytes were written is taken for the end of the file by \<open>latest\<close>, but the
  next persist appends behind them. If these are at most five bytes, every later persist fails, whatever it
  writes, and \<open>latest\<close> with it.
\<close>

lemma load_bad_header:
  assumes "kSnapshotHeaderSize \<le> length bs"
  shows "get_le (take 4 bs) \<noteq> kSnapshotMagic \<Longrightarrow> load_loop bs = Inl ''invalid snapshot magic''"
    and "get_le (take 4 bs) = kSnapshotMagic \<Longrightarrow> get_le (take 2 (drop 4 bs)) \<notin> {kVersionLegacy, kVersionChecksummed}
      \<Longrightarrow> load_loop bs = Inl ''unsupported snapshot version''"
proof -
  let ?h = "snapshot_header_of (take kSnapshotHeaderSize bs)"
  have h: "sh_magic ?h = get_le (take 4 bs)" "sh_version ?h = get_le (take 2 (drop 4 bs))"
    by (simp_all add: snapshot_header_of_def kSnapshotHeaderSize_def drop_take)
  {
    assume "get_le (take 4 bs) \<noteq> kSnapshotMagic"
    then have "read_next_snapshot bs = Inl ''invalid snapshot magic''" using assms by (simp add: read_next_snapshot_def Let_def h)
    then show "load_loop bs = Inl ''invalid snapshot magic''" by (subst load_loop.simps) simp
  next
    assume "get_le (take 4 bs) = kSnapshotMagic" "get_le (take 2 (drop 4 bs)) \<notin> {kVersionLegacy, kVersionChecksummed}"
    then have "read_next_snapshot bs = Inl ''unsupported snapshot version''" using assms by (simp add: read_next_snapshot_def Let_def h)
    then show "load_loop bs = Inl ''unsupported snapshot version''" by (subst load_loop.simps) simp
  }
qed

lemma write_snapshot_start: "\<exists>tl. length tl \<ge> 8 \<and> write_snapshot sequence payload = [0x4e, 0x53, 0x43, 0x54, 2, 0, 0, 0] @ tl"
proof -
  have "put_le (Suc (Suc (Suc (Suc 0)))) kSnapshotMagic = [0x4e, 0x53, 0x43, 0x54]" by (simp add: kSnapshotMagic_def)
  moreover have "put_le (Suc (Suc 0)) kVersionChecksummed = [2, 0]" "put_le (Suc (Suc 0)) (0 :: u16) = [0, 0]"
    by (simp_all add: kVersionChecksummed_def)
  ultimately have "put_le 4 kSnapshotMagic = [0x4e, 0x53, 0x43, 0x54]" "put_le 2 kVersionChecksummed = [2, 0]" "put_le 2 (0 :: u16) = [0, 0]"
    by (simp_all add: numeral_eq_Suc del: put_le.simps)
  then show ?thesis
    by (simp add: write_snapshot_def snapshot_header_bytes_def new_snapshot_header_def del: put_le.simps)
qed

lemma torn_magic:
  assumes "0 < j" and "j < 6"
  shows "\<exists>e. \<forall>rest. load_loop (take j (write_snapshot sequence payload) @ write_snapshot sequence' payload' @ rest) = Inl e"
proof -
  obtain tl tl' where w: "write_snapshot sequence payload = [0x4e, 0x53, 0x43, 0x54, 2, 0, 0, 0] @ tl"
      "write_snapshot sequence' payload' = [0x4e, 0x53, 0x43, 0x54, 2, 0, 0, 0] @ tl'" "length tl' \<ge> 8"
    using write_snapshot_start by metis
  let ?file = "\<lambda>rest. take j (write_snapshot sequence payload) @ write_snapshot sequence' payload' @ rest"
  have long: "kSnapshotHeaderSize \<le> length (?file rest)" for rest using w(2,3) by (simp add: kSnapshotHeaderSize_def)
  show ?thesis
  proof (cases "j < 4")
    case True
    then have "j = 1 \<or> j = 2 \<or> j = 3" using assms(1) by linarith
    then have "get_le (take 4 (?file rest)) \<noteq> kSnapshotMagic" for rest by (auto simp: w kSnapshotMagic_def)
    then show ?thesis using load_bad_header(1) [OF long] by blast
  next
    case False
    then have "j = 4 \<or> j = 5" using assms(2) by linarith
    then have "get_le (take 4 (?file rest)) = kSnapshotMagic" "get_le (take 2 (drop 4 (?file rest))) \<notin> {kVersionLegacy, kVersionChecksummed}" for rest
      by (auto simp: w kSnapshotMagic_def kVersionLegacy_def kVersionChecksummed_def)
    then show ?thesis using load_bad_header(2) [OF long] by blast
  qed
qed

lemma torn_header_stops_store:
  assumes "store_ready s" and "max_file_bytes (ss_options s) > 0 \<or> max_records (ss_options s) > 0" and "list_all saved_ok ps" and "0 < j" and "j < 6"
    and "fs (ss_file_path s) = Some (snapshot_file ps @ take j (write_snapshot sequence payload) @ snapshot_file qs)"
  shows "\<exists>e. persist sequence' payload' s fs = (Some e,
      fs(ss_file_path s \<mapsto> snapshot_file ps @ take j (write_snapshot sequence payload) @ snapshot_file (qs @ [(sequence', payload')])))"
proof -
  obtain e where "load_loop (take j (write_snapshot sequence payload) @ snapshot_file (qs @ [(sequence', payload')])) = Inl e"
  proof (cases qs)
    case Nil
    then show thesis using that torn_magic [OF assms(4,5), of sequence payload sequence' payload'] by (metis append_Nil snapshot_file_simps(1,2) fst_conv snd_conv)
  next
    case (Cons q qs')
    then show thesis using that torn_magic [OF assms(4,5), of sequence payload "fst q" "snd q"] by (metis append_Cons snapshot_file_simps(2))
  qed
  then have "load_loop (snapshot_file ps @ take j (write_snapshot sequence payload) @ snapshot_file (qs @ [(sequence', payload')])) = Inl e"
    by (simp add: load_snapshot_file_then [OF assms(3)] del: snapshot_file_simps)
  then show ?thesis
    using assms(1,2,6) by (auto simp: persist_eq compact_if_needed_def load_records_def store_ready_def file_at_def Let_def)
qed

end
