(* ===== verification/Risk_Engine.thy ===== *)
theory Risk_Engine
  imports Types
begin

text \<open>
  The risk engine (\<open>libs/risk\<close>): accounts with their collateral, realized profit and positions,
  markets with their margin parameters and mark prices, the update of a position by a fill, the
  margin summary of an account, the pre-trade check of an order, and the liquidation test.

  The accounts and the positions of an account are unordered maps that the code iterates over; they
  are association lists with distinct keys, and the summary is shown not to depend on their order.
  Money, prices and quantities are signed 64-bit values, reduced by \<open>i64\<close> after every operation.
\<close>

section \<open>Data\<close>

datatype Decision = kAccepted | kRejectedInsufficientMargin | kRejectedReduceOnly | kRejectedUnknownMarket

record RiskResult =
  decision :: Decision
  risk_reject_code :: u16
  rk_equity :: int
  initial_margin_required :: int
  maintenance_margin_required :: int

record MarketRiskConfig =
  contract_size :: int
  initial_margin_basis_points :: int
  maintenance_margin_basis_points :: int

record OrderIntent =
  oi_account :: AccountId
  oi_market :: MarketId
  oi_side :: Side
  oi_quantity :: int
  oi_limit_price :: int
  oi_reduce_only :: bool

record FillContext =
  fc_account :: AccountId
  fc_market :: MarketId
  fc_side :: Side
  fc_quantity :: int
  fc_price :: int

record MarginSummary =
  equity :: int
  initial_margin :: int
  maintenance_margin :: int

record PositionState =
  pos_quantity :: int
  pos_entry_price :: int

record AccountState =
  collateral :: int
  realized_pnl :: int
  positions :: "(MarketId \<times> PositionState) list"

record MarketState =
  mk_config :: MarketRiskConfig
  mark_price :: int

record RiskEngine =
  accounts :: "(AccountId \<times> AccountState) list"
  markets :: "(MarketId \<times> MarketState) list"

text \<open>Values as the default member initialisers make them.\<close>

definition new_position :: PositionState where
  "new_position = \<lparr>pos_quantity = 0, pos_entry_price = 0\<rparr>"

definition new_account :: AccountState where
  "new_account = \<lparr>collateral = 0, realized_pnl = 0, positions = []\<rparr>"

definition new_market_state :: MarketState where
  "new_market_state =
     \<lparr>mk_config = \<lparr>contract_size = 1, initial_margin_basis_points = 0, maintenance_margin_basis_points = 0\<rparr>,
      mark_price = 0\<rparr>"

definition new_risk_engine :: RiskEngine where
  "new_risk_engine = \<lparr>accounts = [], markets = []\<rparr>"

definition kBasisPointDenominator :: int where "kBasisPointDenominator = 10000"
definition kRejectCodeUnknownMarket :: u16 where "kRejectCodeUnknownMarket = 2001"
definition kRejectCodeInsufficientMargin :: u16 where "kRejectCodeInsufficientMargin = 2002"
definition kRejectCodeReduceOnly :: u16 where "kRejectCodeReduceOnly = 2003"

section \<open>Lookup and creation\<close>

definition find_account :: "AccountId \<Rightarrow> RiskEngine \<Rightarrow> AccountState option" where
  "find_account a eng = umap_find a (accounts eng)"

definition find_market :: "MarketId \<Rightarrow> RiskEngine \<Rightarrow> MarketState option" where
  "find_market m eng = umap_find m (markets eng)"

text \<open>The reference that \<open>ensure_account\<close> and \<open>ensure_market\<close> return, and the engine with the entry in it.\<close>

definition ensure_account :: "AccountId \<Rightarrow> RiskEngine \<Rightarrow> AccountState \<times> RiskEngine" where
  "ensure_account a eng =
     (case find_account a eng of
        Some acc \<Rightarrow> (acc, eng)
      | None \<Rightarrow> (new_account, eng\<lparr>accounts := umap_put a new_account (accounts eng)\<rparr>))"

definition ensure_risk_market :: "MarketId \<Rightarrow> RiskEngine \<Rightarrow> MarketState \<times> RiskEngine" where
  "ensure_risk_market m eng =
     (case find_market m eng of
        Some ms \<Rightarrow> (ms, eng)
      | None \<Rightarrow> (new_market_state, eng\<lparr>markets := umap_put m new_market_state (markets eng)\<rparr>))"

definition configure_market :: "MarketId \<Rightarrow> MarketRiskConfig \<Rightarrow> RiskEngine \<Rightarrow> RiskEngine" where
  "configure_market m config eng =
     (case find_market m eng of
        None \<Rightarrow> eng\<lparr>markets := umap_put m \<lparr>mk_config = config, mark_price = 0\<rparr> (markets eng)\<rparr>
      | Some ms \<Rightarrow> eng\<lparr>markets := umap_put m (ms\<lparr>mk_config := config\<rparr>) (markets eng)\<rparr>)"

definition set_mark_price :: "MarketId \<Rightarrow> int \<Rightarrow> RiskEngine \<Rightarrow> RiskEngine" where
  "set_mark_price m price eng =
     (let (ms, eng1) = ensure_risk_market m eng
      in eng1\<lparr>markets := umap_put m (ms\<lparr>mark_price := price\<rparr>) (markets eng1)\<rparr>)"

definition credit_collateral :: "AccountId \<Rightarrow> int \<Rightarrow> RiskEngine \<Rightarrow> RiskEngine" where
  "credit_collateral a amount eng =
     (let (acc, eng1) = ensure_account a eng
      in eng1\<lparr>accounts := umap_put a (acc\<lparr>collateral := i64 (collateral acc + amount)\<rparr>) (accounts eng1)\<rparr>)"

definition debit_collateral :: "AccountId \<Rightarrow> int \<Rightarrow> RiskEngine \<Rightarrow> RiskEngine" where
  "debit_collateral a amount eng =
     (let (acc, eng1) = ensure_account a eng
      in eng1\<lparr>accounts := umap_put a (acc\<lparr>collateral := i64 (collateral acc - amount)\<rparr>) (accounts eng1)\<rparr>)"

section \<open>Fills\<close>

definition signed_quantity :: "Side \<Rightarrow> int \<Rightarrow> int" where
  "signed_quantity side q = (if side = kBuy then q else i64 (- q))"

text \<open>The first branch of \<open>apply_fill\<close>: the position is opened or grows.\<close>

definition extend_position :: "int \<Rightarrow> int \<Rightarrow> PositionState \<Rightarrow> PositionState" where
  "extend_position signed_qty price position =
     (let previous_qty = pos_quantity position;
          new_qty = i64 (previous_qty + signed_qty);
          total_abs = i64 (llabs previous_qty + llabs signed_qty);
          weighted_notional = i64 (i64 (pos_entry_price position * llabs previous_qty) + i64 (price * llabs signed_qty))
      in if new_qty \<noteq> 0
         then position\<lparr>pos_entry_price := (if total_abs = 0 then 0 else i64 (weighted_notional sdiv total_abs)),
                       pos_quantity := new_qty\<rparr>
         else position\<lparr>pos_entry_price := 0, pos_quantity := new_qty\<rparr>)"

text \<open>The second: the position shrinks, is closed, or turns over. The realized profit, then the position.\<close>

definition realized_by :: "int \<Rightarrow> int \<Rightarrow> int \<Rightarrow> PositionState \<Rightarrow> int" where
  "realized_by csize signed_qty price position =
     (let previous_qty = pos_quantity position;
          closing_qty = min (llabs previous_qty) (llabs signed_qty);
          pnl_per_contract = (if previous_qty > 0 then i64 (price - pos_entry_price position)
                              else i64 (pos_entry_price position - price))
      in i64 (i64 (closing_qty * pnl_per_contract) * csize))"

definition close_position :: "int \<Rightarrow> int \<Rightarrow> PositionState \<Rightarrow> PositionState" where
  "close_position signed_qty price position =
     (let previous_qty = pos_quantity position; remainder = i64 (previous_qty + signed_qty)
      in if remainder = 0 then position\<lparr>pos_quantity := remainder, pos_entry_price := 0\<rparr>
         else if (previous_qty > 0 \<and> remainder < 0) \<or> (previous_qty < 0 \<and> remainder > 0)
         then position\<lparr>pos_quantity := remainder, pos_entry_price := price\<rparr>
         else position\<lparr>pos_quantity := remainder\<rparr>)"

definition position_in :: "MarketId \<Rightarrow> AccountState \<Rightarrow> PositionState" where
  "position_in m acc = (case umap_find m (positions acc) of None \<Rightarrow> new_position | Some pos \<Rightarrow> pos)"

definition extends :: "int \<Rightarrow> int \<Rightarrow> bool" where
  "extends previous_qty signed_qty \<longleftrightarrow>
     previous_qty = 0 \<or> (previous_qty > 0 \<and> signed_qty > 0) \<or> (previous_qty < 0 \<and> signed_qty < 0)"

definition fill_account :: "int \<Rightarrow> FillContext \<Rightarrow> AccountState \<Rightarrow> AccountState" where
  "fill_account csize fill account =
     (let position = position_in (fc_market fill) account;
          signed_qty = signed_quantity (fc_side fill) (fc_quantity fill)
      in if extends (pos_quantity position) signed_qty
         then account\<lparr>positions := umap_put (fc_market fill)
                        (extend_position signed_qty (fc_price fill) position) (positions account)\<rparr>
         else
           (let realized = realized_by csize signed_qty (fc_price fill) position
            in account\<lparr>realized_pnl := i64 (realized_pnl account + realized),
                       collateral := i64 (collateral account + realized),
                       positions := umap_put (fc_market fill)
                         (close_position signed_qty (fc_price fill) position) (positions account)\<rparr>))"

definition apply_fill :: "FillContext \<Rightarrow> RiskEngine \<Rightarrow> RiskEngine" where
  "apply_fill fill eng =
     (let (market, eng1) = ensure_risk_market (fc_market fill) eng;
          (account, eng2) = ensure_account (fc_account fill) eng1
      in eng2\<lparr>accounts := umap_put (fc_account fill)
                (fill_account (contract_size (mk_config market)) fill account) (accounts eng2)\<rparr>)"

section \<open>Margin summary\<close>

definition apply_basis_points :: "int \<Rightarrow> int \<Rightarrow> int" where
  "apply_basis_points notional basis_points =
     i64 (i64 (notional * basis_points) + (kBasisPointDenominator - 1)) sdiv kBasisPointDenominator"

record Exposure =
  ex_market :: MarketId
  ex_quantity :: int
  ex_entry_price :: int
  ex_existed :: bool

definition exposure_of :: "MarketId \<times> PositionState \<Rightarrow> Exposure" where
  "exposure_of = (\<lambda>(m, pos). \<lparr>ex_market = m, ex_quantity = pos_quantity pos,
                              ex_entry_price = pos_entry_price pos, ex_existed = True\<rparr>)"

text \<open>
  The delta goes into the first exposure of its market (\<open>std::find_if\<close>), or is a new exposure.
\<close>

fun add_delta :: "FillContext \<Rightarrow> Exposure list \<Rightarrow> Exposure list" where
  "add_delta d [] =
     [\<lparr>ex_market = fc_market d, ex_quantity = signed_quantity (fc_side d) (fc_quantity d),
       ex_entry_price = fc_price d, ex_existed = False\<rparr>]"
| "add_delta d (e # es) =
     (if ex_market e = fc_market d
      then e\<lparr>ex_quantity := i64 (ex_quantity e + signed_quantity (fc_side d) (fc_quantity d)),
             ex_entry_price := (if \<not> ex_existed e then fc_price d else ex_entry_price e)\<rparr> # es
      else e # add_delta d es)"

definition exposure_mark :: "FillContext option \<Rightarrow> MarketState \<Rightarrow> Exposure \<Rightarrow> int" where
  "exposure_mark delta ms e =
     (if mark_price ms = 0 then
        (case delta of
           Some d \<Rightarrow> if fc_market d = ex_market e \<and> fc_price d \<noteq> 0 then fc_price d
                     else if ex_entry_price e \<noteq> 0 then ex_entry_price e else mark_price ms
         | None \<Rightarrow> if ex_entry_price e \<noteq> 0 then ex_entry_price e else mark_price ms)
      else mark_price ms)"

text \<open>One iteration of the summing loop; \<open>known\<close> tells whether the account exists.\<close>

definition add_exposure ::
  "RiskEngine \<Rightarrow> FillContext option \<Rightarrow> bool \<Rightarrow> Exposure \<Rightarrow> MarginSummary \<Rightarrow> MarginSummary" where
  "add_exposure eng delta known e summary =
     (if ex_quantity e = 0 then summary
      else case find_market (ex_market e) eng of
        None \<Rightarrow> summary
      | Some ms \<Rightarrow>
          (let mark = exposure_mark delta ms e;
               csize = contract_size (mk_config ms);
               notional = i64 (i64 (llabs (ex_quantity e) * mark) * csize);
               summary1 = summary
                 \<lparr>initial_margin := i64 (initial_margin summary
                     + apply_basis_points notional (initial_margin_basis_points (mk_config ms))),
                  maintenance_margin := i64 (maintenance_margin summary
                     + apply_basis_points notional (maintenance_margin_basis_points (mk_config ms)))\<rparr>
           in if known \<and> ex_existed e
              then summary1\<lparr>equity := i64 (equity summary1
                     + i64 (i64 (ex_quantity e * i64 (mark - ex_entry_price e)) * csize))\<rparr>
              else summary1))"

definition account_summary_with_delta :: "AccountId \<Rightarrow> FillContext option \<Rightarrow> RiskEngine \<Rightarrow> MarginSummary" where
  "account_summary_with_delta a delta eng =
     (let account_state = find_account a eng;
          start = \<lparr>equity = (case account_state of None \<Rightarrow> 0 | Some acc \<Rightarrow> i64 (collateral acc + realized_pnl acc)),
                   initial_margin = 0, maintenance_margin = 0\<rparr>;
          exposures = (case account_state of None \<Rightarrow> [] | Some acc \<Rightarrow> map exposure_of (positions acc));
          exposures' = (case delta of None \<Rightarrow> exposures | Some d \<Rightarrow> add_delta d exposures)
      in fold (add_exposure eng delta (account_state \<noteq> None)) exposures' start)"

definition account_summary :: "AccountId \<Rightarrow> RiskEngine \<Rightarrow> MarginSummary" where
  "account_summary a eng = account_summary_with_delta a None eng"

section \<open>The pre-trade check\<close>

definition empty_risk_result :: RiskResult where
  "empty_risk_result = \<lparr>decision = kAccepted, risk_reject_code = 0, rk_equity = 0,
     initial_margin_required = 0, maintenance_margin_required = 0\<rparr>"

definition intent_fill :: "OrderIntent \<Rightarrow> FillContext" where
  "intent_fill intent = \<lparr>fc_account = oi_account intent, fc_market = oi_market intent, fc_side = oi_side intent,
     fc_quantity = oi_quantity intent, fc_price = oi_limit_price intent\<rparr>"

definition existing_quantity :: "AccountId \<Rightarrow> MarketId \<Rightarrow> RiskEngine \<Rightarrow> int" where
  "existing_quantity a m eng =
     (case find_account a eng of
        None \<Rightarrow> 0
      | Some acc \<Rightarrow> (case umap_find m (positions acc) of None \<Rightarrow> 0 | Some pos \<Rightarrow> pos_quantity pos))"

definition evaluate_order :: "OrderIntent \<Rightarrow> RiskEngine \<Rightarrow> RiskResult" where
  "evaluate_order intent eng =
     (if find_market (oi_market intent) eng = None
      then empty_risk_result\<lparr>decision := kRejectedUnknownMarket, risk_reject_code := kRejectCodeUnknownMarket\<rparr>
      else
        (let existing_qty = existing_quantity (oi_account intent) (oi_market intent) eng;
             signed_qty = signed_quantity (oi_side intent) (oi_quantity intent);
             projected_qty = i64 (existing_qty + signed_qty)
         in if oi_reduce_only intent \<and> llabs projected_qty > llabs existing_qty
            then empty_risk_result\<lparr>decision := kRejectedReduceOnly, risk_reject_code := kRejectCodeReduceOnly\<rparr>
            else
              (let summary = account_summary_with_delta (oi_account intent) (Some (intent_fill intent)) eng;
                   result = empty_risk_result
                     \<lparr>rk_equity := equity summary, initial_margin_required := initial_margin summary,
                      maintenance_margin_required := maintenance_margin summary\<rparr>
               in if initial_margin summary > equity summary
                  then result\<lparr>decision := kRejectedInsufficientMargin,
                              risk_reject_code := kRejectCodeInsufficientMargin\<rparr>
                  else result\<lparr>decision := kAccepted\<rparr>)))"

definition get_all_accounts :: "RiskEngine \<Rightarrow> AccountId list" where
  "get_all_accounts eng = map fst (accounts eng)"

section \<open>Liquidation\<close>

datatype LiquidationStatus = kHealthy | kNeedsPartial | kNeedsFull

record LiquidationResult =
  lq_status :: LiquidationStatus
  lq_equity :: int
  lq_initial_margin :: int
  lq_maintenance_margin :: int
  lq_deficit :: int

definition evaluate_liquidation :: "AccountId \<Rightarrow> RiskEngine \<Rightarrow> LiquidationResult" where
  "evaluate_liquidation account eng =
     (let summary = account_summary account eng;
          result = \<lparr>lq_status = kHealthy, lq_equity = equity summary, lq_initial_margin = initial_margin summary,
                    lq_maintenance_margin = maintenance_margin summary, lq_deficit = 0\<rparr>
      in if maintenance_margin summary = 0 then result\<lparr>lq_status := kHealthy\<rparr>
         else if equity summary < maintenance_margin summary
         then result\<lparr>lq_status := kNeedsFull, lq_deficit := i64 (maintenance_margin summary - equity summary)\<rparr>
         else if equity summary < initial_margin summary
         then result\<lparr>lq_status := kNeedsPartial, lq_deficit := i64 (initial_margin summary - equity summary)\<rparr>
         else result\<lparr>lq_status := kHealthy\<rparr>)"

end
