(* ===== verification/Risk_Properties.thy ===== *)
theory Risk_Properties
  imports Risk_Engine
begin

text \<open>
  Properties of the risk engine: its state invariant over arbitrary sequences of operations, the
  position as the sum of the fills, the entry price, the independence of the margin summary from
  the iteration order of the unordered maps, the accuracy of the pre-trade check against the state
  after the fill, the reduce-only rule, and the liquidation test.
\<close>

section \<open>Operations as steps\<close>

datatype RiskOp =
    ConfigureMarket MarketId MarketRiskConfig
  | SetMarkPrice MarketId int
  | CreditCollateral AccountId int
  | DebitCollateral AccountId int
  | ApplyFill FillContext

fun risk_step :: "RiskOp \<Rightarrow> RiskEngine \<Rightarrow> RiskEngine" where
  "risk_step (ConfigureMarket m config) eng = configure_market m config eng"
| "risk_step (SetMarkPrice m price) eng = set_mark_price m price eng"
| "risk_step (CreditCollateral a amount) eng = credit_collateral a amount eng"
| "risk_step (DebitCollateral a amount) eng = debit_collateral a amount eng"
| "risk_step (ApplyFill fill) eng = apply_fill fill eng"

text \<open>The numbers of an operation are values of their C++ types.\<close>

fun risk_op_ok :: "RiskOp \<Rightarrow> bool" where
  "risk_op_ok (SetMarkPrice m price) = in64 price"
| "risk_op_ok (ApplyFill fill) = (in64 (fc_quantity fill) \<and> in64 (fc_price fill))"
| "risk_op_ok _ = True"

definition position_ok :: "PositionState \<Rightarrow> bool" where
  "position_ok pos \<longleftrightarrow> in64 (pos_quantity pos) \<and> in64 (pos_entry_price pos)
     \<and> (pos_quantity pos = 0 \<longrightarrow> pos_entry_price pos = 0)"

definition account_ok :: "AccountState \<Rightarrow> bool" where
  "account_ok acc \<longleftrightarrow> in64 (collateral acc) \<and> in64 (realized_pnl acc)
     \<and> distinct (map fst (positions acc)) \<and> umap_all position_ok (positions acc)"

definition risk_ok :: "RiskEngine \<Rightarrow> bool" where
  "risk_ok eng \<longleftrightarrow> distinct (map fst (accounts eng)) \<and> distinct (map fst (markets eng))
     \<and> umap_all account_ok (accounts eng)"

section \<open>Lookups after an operation\<close>

definition market_of :: "MarketId \<Rightarrow> RiskEngine \<Rightarrow> MarketState" where
  "market_of m eng = (case find_market m eng of None \<Rightarrow> new_market_state | Some ms \<Rightarrow> ms)"

definition account_of :: "AccountId \<Rightarrow> RiskEngine \<Rightarrow> AccountState" where
  "account_of a eng = (case find_account a eng of None \<Rightarrow> new_account | Some acc \<Rightarrow> acc)"

lemma accounts_apply_fill:
  "accounts (apply_fill f eng) = umap_put (fc_account f)
     (fill_account (contract_size (mk_config (market_of (fc_market f) eng))) f (account_of (fc_account f) eng))
     (accounts eng)"
  by (auto simp: apply_fill_def ensure_risk_market_def ensure_account_def market_of_def account_of_def
      find_account_def find_market_def Let_def split: option.splits)

lemma markets_apply_fill:
  "markets (apply_fill f eng) =
     (if find_market (fc_market f) eng = None then umap_put (fc_market f) new_market_state (markets eng) else markets eng)"
  by (auto simp: apply_fill_def ensure_risk_market_def ensure_account_def find_account_def find_market_def Let_def
      split: option.splits)

lemma account_of_ok: "risk_ok eng \<Longrightarrow> account_ok (account_of a eng)"
  unfolding risk_ok_def account_of_def find_account_def
  by (cases "umap_find a (accounts eng)") (auto dest: umap_all_find simp: new_account_def account_ok_def)

section \<open>The invariant\<close>

lemma position_in_ok: "account_ok acc \<Longrightarrow> position_ok (position_in m acc)"
  unfolding account_ok_def position_in_def
  by (cases "umap_find m (positions acc)") (auto dest: umap_all_find simp: new_position_def position_ok_def)

lemma signed_quantity_in64: "in64 q \<Longrightarrow> in64 (signed_quantity side q)"
  by (simp add: signed_quantity_def)

lemma extend_position_ok: "position_ok (extend_position sq price pos)"
  by (simp add: extend_position_def position_ok_def Let_def)

lemma close_position_ok:
  "position_ok pos \<Longrightarrow> in64 price \<Longrightarrow> position_ok (close_position sq price pos)"
  by (simp add: close_position_def position_ok_def Let_def)

lemma fill_account_ok:
  assumes "account_ok acc" and "in64 (fc_price f)"
  shows "account_ok (fill_account csize f acc)"
proof -
  let ?pos = "position_in (fc_market f) acc" and ?sq = "signed_quantity (fc_side f) (fc_quantity f)"
  have "position_ok (extend_position ?sq (fc_price f) ?pos)" "position_ok (close_position ?sq (fc_price f) ?pos)"
    using extend_position_ok close_position_ok [OF position_in_ok [OF assms(1)] assms(2)] .
  with assms show ?thesis by (simp add: fill_account_def account_ok_def Let_def)
qed

lemma credit_debit:
  "credit_collateral a amount eng = eng\<lparr>accounts := umap_put a ((account_of a eng)\<lparr>collateral :=
     i64 (collateral (account_of a eng) + amount)\<rparr>) (accounts eng)\<rparr>"
  "debit_collateral a amount eng = eng\<lparr>accounts := umap_put a ((account_of a eng)\<lparr>collateral :=
     i64 (collateral (account_of a eng) - amount)\<rparr>) (accounts eng)\<rparr>"
  by (auto simp: credit_collateral_def debit_collateral_def ensure_account_def account_of_def Let_def
      split: option.splits)

lemma set_mark_price_eq:
  "set_mark_price m price eng =
     eng\<lparr>markets := umap_put m ((market_of m eng)\<lparr>mark_price := price\<rparr>) (markets eng)\<rparr>"
  by (auto simp: set_mark_price_def ensure_risk_market_def market_of_def Let_def split: option.splits)

lemma risk_step_ok:
  assumes "risk_ok eng" and "risk_op_ok op"
  shows "risk_ok (risk_step op eng)"
proof (cases op)
  case (ApplyFill f)
  with assms account_of_ok [OF assms(1), of "fc_account f"] show ?thesis
    by (simp add: risk_ok_def accounts_apply_fill markets_apply_fill fill_account_ok)
next
  case (ConfigureMarket m config)
  with assms show ?thesis by (auto simp: risk_ok_def configure_market_def split: option.splits)
next
  case (SetMarkPrice m price)
  with assms show ?thesis by (simp add: risk_ok_def set_mark_price_eq)
next
  case (CreditCollateral a amount)
  with assms account_of_ok [OF assms(1), of a] show ?thesis by (simp add: risk_ok_def credit_debit account_ok_def)
next
  case (DebitCollateral a amount)
  with assms account_of_ok [OF assms(1), of a] show ?thesis by (simp add: risk_ok_def credit_debit account_ok_def)
qed

lemma risk_run_ok: "risk_ok eng \<Longrightarrow> list_all risk_op_ok ops \<Longrightarrow> risk_ok (fold risk_step ops eng)"
  by (induction ops arbitrary: eng) (simp_all add: risk_step_ok)

lemma new_risk_engine_ok [simp]: "risk_ok new_risk_engine"
  by (simp add: risk_ok_def new_risk_engine_def)

section \<open>Positions\<close>

lemma pos_quantity_fill:
  "pos_quantity (extend_position sq price pos) = i64 (pos_quantity pos + sq)"
  "pos_quantity (close_position sq price pos) = i64 (pos_quantity pos + sq)"
  by (simp_all add: extend_position_def close_position_def Let_def)

lemma position_in_fill:
  "position_in m (fill_account csize f acc) =
     (if m = fc_market f
      then (if extends (pos_quantity (position_in m acc)) (signed_quantity (fc_side f) (fc_quantity f))
            then extend_position (signed_quantity (fc_side f) (fc_quantity f)) (fc_price f) (position_in m acc)
            else close_position (signed_quantity (fc_side f) (fc_quantity f)) (fc_price f) (position_in m acc))
      else position_in m acc)"
  by (simp add: fill_account_def position_in_def Let_def)

lemma existing_quantity_alt: "existing_quantity a m eng = pos_quantity (position_in m (account_of a eng))"
  by (simp add: existing_quantity_def position_in_def account_of_def new_account_def new_position_def split: option.splits)

lemma account_of_fill:
  "account_of a (apply_fill f eng) =
     (if a = fc_account f
      then fill_account (contract_size (mk_config (market_of (fc_market f) eng))) f (account_of a eng)
      else account_of a eng)"
  by (simp add: account_of_def find_account_def accounts_apply_fill)

text \<open>The signed quantity that a list of fills adds to a position.\<close>

definition net_quantity :: "AccountId \<Rightarrow> MarketId \<Rightarrow> FillContext list \<Rightarrow> int" where
  "net_quantity a m fs = sum_list (map (\<lambda>f. if fc_side f = kBuy then fc_quantity f else - fc_quantity f)
     (filter (\<lambda>f. fc_account f = a \<and> fc_market f = m) fs))"

lemma existing_quantity_fill:
  "existing_quantity a m (apply_fill f eng) =
     (if a = fc_account f \<and> m = fc_market f
      then i64 (existing_quantity a m eng + (if fc_side f = kBuy then fc_quantity f else - fc_quantity f))
      else existing_quantity a m eng)"
  by (auto simp: existing_quantity_alt account_of_fill position_in_fill pos_quantity_fill signed_quantity_def i64_simps)

fun fills_of :: "RiskOp list \<Rightarrow> FillContext list" where
  "fills_of [] = []"
| "fills_of (ApplyFill f # ops) = f # fills_of ops"
| "fills_of (_ # ops) = fills_of ops"

lemma net_quantity_simps [simp]:
  "net_quantity a m [] = 0"
  "net_quantity a m (f # fs) = (if fc_account f = a \<and> fc_market f = m
     then (if fc_side f = kBuy then fc_quantity f else - fc_quantity f) else 0) + net_quantity a m fs"
  by (simp_all add: net_quantity_def)

lemma existing_quantity_step:
  "existing_quantity a m (risk_step op eng) =
     (case op of
        ApplyFill f \<Rightarrow> if a = fc_account f \<and> m = fc_market f
          then i64 (existing_quantity a m eng + (if fc_side f = kBuy then fc_quantity f else - fc_quantity f))
          else existing_quantity a m eng
      | _ \<Rightarrow> existing_quantity a m eng)"
proof (cases op)
  case (ConfigureMarket m' config)
  then show ?thesis
    by (simp add: existing_quantity_def find_account_def configure_market_def split: option.splits)
qed (simp_all add: existing_quantity_fill, simp_all add: existing_quantity_alt credit_debit set_mark_price_eq account_of_def
      find_account_def position_in_def new_account_def split: option.splits)

lemma existing_quantity_run:
  "in64 (existing_quantity a m eng) \<Longrightarrow>
     existing_quantity a m (fold risk_step ops eng) = i64 (existing_quantity a m eng + net_quantity a m (fills_of ops))"
proof (induction ops arbitrary: eng)
  case Nil
  then show ?case by simp
next
  case (Cons op ops)
  have "in64 (existing_quantity a m (risk_step op eng))"
    using Cons.prems by (simp add: existing_quantity_step split: RiskOp.splits)
  from Cons.IH [OF this] existing_quantity_step [of a m op eng] show ?case
    by (cases op) (simp_all add: i64_simps algebra_simps)
qed

section \<open>Entry prices\<close>

lemma sdiv_between:
  fixes w n lo hi :: int
  assumes "0 < n" and "0 \<le> lo" and "lo * n \<le> w" and "w \<le> hi * n"
  shows "lo \<le> w sdiv n" "w sdiv n \<le> hi"
proof -
  have "0 \<le> w" using assms mult_nonneg_nonneg [of lo n] by linarith
  then have "w sdiv n = w div n" using assms(1) by (cases "w = 0") (simp_all add: signed_divide_int_def)
  then show "lo \<le> w sdiv n" "w sdiv n \<le> hi"
    using assms zdiv_mono1 [of "lo * n" w n] zdiv_mono1 [of w "hi * n" n] by simp_all
qed

lemma weighted_between:
  fixes p1 p2 a b :: int
  assumes "0 \<le> a" and "0 \<le> b"
  shows "min p1 p2 * (a + b) \<le> p1 * a + p2 * b" "p1 * a + p2 * b \<le> max p1 p2 * (a + b)"
proof -
  have "min p1 p2 * a \<le> p1 * a" "min p1 p2 * b \<le> p2 * b" "p1 * a \<le> max p1 p2 * a" "p2 * b \<le> max p1 p2 * b"
    using assms by (auto intro: mult_right_mono)
  then show "min p1 p2 * (a + b) \<le> p1 * a + p2 * b" "p1 * a + p2 * b \<le> max p1 p2 * (a + b)"
    by (simp_all add: distrib_left)
qed

section \<open>The summary as sums\<close>

text \<open>What one exposure adds to each figure.\<close>

definition exposure_notional :: "RiskEngine \<Rightarrow> FillContext option \<Rightarrow> Exposure \<Rightarrow> int" where
  "exposure_notional eng delta e =
     (case find_market (ex_market e) eng of
        None \<Rightarrow> 0
      | Some ms \<Rightarrow> i64 (i64 (llabs (ex_quantity e) * exposure_mark delta ms e) * contract_size (mk_config ms)))"

definition margin_part :: "(MarketRiskConfig \<Rightarrow> int) \<Rightarrow> RiskEngine \<Rightarrow> FillContext option \<Rightarrow> Exposure \<Rightarrow> int" where
  "margin_part bps eng delta e =
     (if ex_quantity e = 0 then 0
      else case find_market (ex_market e) eng of
        None \<Rightarrow> 0
      | Some ms \<Rightarrow> apply_basis_points (exposure_notional eng delta e) (bps (mk_config ms)))"

definition equity_part :: "RiskEngine \<Rightarrow> FillContext option \<Rightarrow> bool \<Rightarrow> Exposure \<Rightarrow> int" where
  "equity_part eng delta known e =
     (if ex_quantity e = 0 \<or> \<not> known \<or> \<not> ex_existed e then 0
      else case find_market (ex_market e) eng of
        None \<Rightarrow> 0
      | Some ms \<Rightarrow> i64 (i64 (ex_quantity e * i64 (exposure_mark delta ms e - ex_entry_price e))
                     * contract_size (mk_config ms)))"

lemma add_exposure_parts:
  assumes "in64 (equity s)" and "in64 (initial_margin s)" and "in64 (maintenance_margin s)"
  shows "add_exposure eng delta known e s =
     s\<lparr>equity := i64 (equity s + equity_part eng delta known e),
       initial_margin := i64 (initial_margin s + margin_part initial_margin_basis_points eng delta e),
       maintenance_margin := i64 (maintenance_margin s + margin_part maintenance_margin_basis_points eng delta e)\<rparr>"
  using assms
  by (auto simp: add_exposure_def equity_part_def margin_part_def exposure_notional_def Let_def split: option.splits)

lemma fold_exposures:
  assumes "in64 (equity s)" and "in64 (initial_margin s)" and "in64 (maintenance_margin s)"
  shows "fold (add_exposure eng delta known) es s =
     s\<lparr>equity := i64 (equity s + sum_list (map (equity_part eng delta known) es)),
       initial_margin := i64 (initial_margin s + sum_list (map (margin_part initial_margin_basis_points eng delta) es)),
       maintenance_margin := i64 (maintenance_margin s
          + sum_list (map (margin_part maintenance_margin_basis_points eng delta) es))\<rparr>"
  using assms
proof (induction es arbitrary: s)
  case Nil
  then show ?case by simp
next
  case (Cons e es)
  then show ?case by (simp add: add_exposure_parts i64_simps algebra_simps)
qed

definition exposures_of :: "AccountId \<Rightarrow> FillContext option \<Rightarrow> RiskEngine \<Rightarrow> Exposure list" where
  "exposures_of a delta eng =
     (let es = map exposure_of (positions (account_of a eng)) in case delta of None \<Rightarrow> es | Some d \<Rightarrow> add_delta d es)"

lemma summary_as_sums:
  "account_summary_with_delta a delta eng =
     \<lparr>equity = i64 (collateral (account_of a eng) + realized_pnl (account_of a eng)
                 + sum_list (map (equity_part eng delta (find_account a eng \<noteq> None)) (exposures_of a delta eng))),
      initial_margin = i64 (sum_list (map (margin_part initial_margin_basis_points eng delta) (exposures_of a delta eng))),
      maintenance_margin = i64 (sum_list (map (margin_part maintenance_margin_basis_points eng delta) (exposures_of a delta eng)))\<rparr>"
  by (cases "find_account a eng"; cases delta)
    (simp_all add: account_summary_with_delta_def account_of_def exposures_of_def fold_exposures
      add_exposure_parts new_account_def Let_def i64_simps)

lemma parts_markets:
  assumes "markets eng = markets eng'"
  shows "margin_part f eng = margin_part f eng'" "equity_part eng = equity_part eng'"
  by (auto simp: fun_eq_iff margin_part_def equity_part_def exposure_notional_def find_market_def assms split: option.splits)

section \<open>Iteration order\<close>

lemma add_delta_absent:
  "fc_market d \<notin> ex_market ` set es \<Longrightarrow> add_delta d es = es @ add_delta d []"
  by (induction es) auto

lemma add_delta_present:
  assumes "fc_market d \<notin> ex_market ` set xs" and "ex_market e = fc_market d"
  shows "add_delta d (xs @ e # ys) = xs @ hd (add_delta d [e]) # ys"
  using assms by (induction xs) auto

lemma mset_add_delta:
  assumes "mset es = mset es'" and "distinct (map ex_market es)"
  shows "mset (add_delta d es) = mset (add_delta d es')"
proof (cases "fc_market d \<in> ex_market ` set es")
  case False
  moreover have "set es' = set es" using mset_eq_setD [OF assms(1)] by simp
  ultimately show ?thesis using assms(1) add_delta_absent [of d es] add_delta_absent [of d es'] by simp
next
  case True
  then obtain e where e: "e \<in> set es" "ex_market e = fc_market d" by auto
  have split: "mset (add_delta d zs) = add_mset (hd (add_delta d [e])) (mset zs - {#e#})"
    if mem: "e \<in> set zs" and dist: "distinct (map ex_market zs)" for zs
  proof -
    obtain xs ys where zs: "zs = xs @ e # ys" using split_list [OF mem] by blast
    moreover have "fc_market d \<notin> ex_market ` set xs" using dist e(2) by (auto simp: zs)
    ultimately show ?thesis using add_delta_present [OF _ e(2)] by simp
  qed
  have "e \<in> set es'" "distinct (map ex_market es')"
    using e(1) assms by (metis mset_eq_setD) (metis assms mset_eq_imp_distinct_iff mset_map)
  then show ?thesis using split e(1) assms by simp
qed

lemma exposure_of_fields [simp]:
  "ex_market (exposure_of (m, pos)) = m" "ex_quantity (exposure_of (m, pos)) = pos_quantity pos"
  "ex_entry_price (exposure_of (m, pos)) = pos_entry_price pos" "ex_existed (exposure_of (m, pos))"
  by (simp_all add: exposure_of_def)

lemma ex_market_exposure_of: "map ex_market (map exposure_of ps) = map fst ps"
  by (induction ps) auto

lemma mset_exposures_of:
  assumes "mset (positions (account_of a eng)) = mset (positions (account_of a eng'))"
    and "distinct (map fst (positions (account_of a eng)))"
  shows "mset (exposures_of a delta eng) = mset (exposures_of a delta eng')"
proof -
  have "mset (map exposure_of (positions (account_of a eng))) = mset (map exposure_of (positions (account_of a eng')))"
    using assms(1) by simp
  moreover have "distinct (map ex_market (map exposure_of (positions (account_of a eng))))"
    using assms(2) by (simp only: ex_market_exposure_of)
  ultimately show ?thesis
    using mset_add_delta by (auto simp: exposures_of_def Let_def split: option.splits)
qed

lemma sum_list_mset_eq: "mset xs = mset ys \<Longrightarrow> sum_list (map f xs) = sum_list (map f ys)" for f :: "'a \<Rightarrow> int"
  by (metis mset_map sum_mset_sum_list)

text \<open>
  The margin summary of an account, with or without a hypothetical fill, does not depend on the
  order in which the unordered map of its positions is iterated.
\<close>

lemma summary_order_irrelevant:
  assumes "risk_ok eng" and "find_account a eng = Some acc" and "mset ps = mset (positions acc)"
  shows "account_summary_with_delta a delta (eng\<lparr>accounts := umap_put a (acc\<lparr>positions := ps\<rparr>) (accounts eng)\<rparr>)
           = account_summary_with_delta a delta eng"
proof -
  let ?eng = "eng\<lparr>accounts := umap_put a (acc\<lparr>positions := ps\<rparr>) (accounts eng)\<rparr>"
  have acc: "account_of a eng = acc" "account_of a ?eng = acc\<lparr>positions := ps\<rparr>" "find_account a ?eng \<noteq> None"
    using assms(2) by (simp_all add: account_of_def find_account_def)
  have "distinct (map fst (positions acc))" using account_of_ok [OF assms(1), of a] acc by (simp add: account_ok_def)
  then have es: "mset (exposures_of a delta eng) = mset (exposures_of a delta ?eng)"
    using mset_exposures_of assms(3) acc by (metis AccountState.select_convs(3) AccountState.surjective AccountState.update_convs(3))
  have "margin_part f ?eng = margin_part f eng" "equity_part ?eng = equity_part eng" for f
    using parts_markets [of ?eng eng] by simp_all
  then show ?thesis
    using acc assms(2) sum_list_mset_eq [OF es] by (simp add: summary_as_sums)
qed

definition sample_config :: MarketRiskConfig where
  "sample_config = \<lparr>contract_size = 1, initial_margin_basis_points = 1000, maintenance_margin_basis_points = 500\<rparr>"

definition sample_fill :: "AccountId \<Rightarrow> MarketId \<Rightarrow> Side \<Rightarrow> int \<Rightarrow> int \<Rightarrow> FillContext" where
  "sample_fill a m side q price = \<lparr>fc_account = a, fc_market = m, fc_side = side, fc_quantity = q, fc_price = price\<rparr>"

definition sample_risk_ops :: "RiskOp list" where
  "sample_risk_ops = [ConfigureMarket 1 sample_config, ConfigureMarket 2 sample_config, SetMarkPrice 1 100,
     CreditCollateral 7 1000, ApplyFill (sample_fill 7 1 kBuy 10 100), ApplyFill (sample_fill 7 2 kSell 4 50)]"

definition sample_risk :: RiskEngine where
  "sample_risk = fold risk_step sample_risk_ops new_risk_engine"

lemma sample_risk_ok: "risk_ok sample_risk"
proof -
  have "list_all risk_op_ok sample_risk_ops" by code_simp
  then show ?thesis unfolding sample_risk_def by (rule risk_run_ok [OF new_risk_engine_ok])
qed

section \<open>The pre-trade check against the state after the fill\<close>

lemma delta_positions:
  assumes "pos_quantity pos' = (case umap_find (fc_market d) ps of None \<Rightarrow> signed_quantity (fc_side d) (fc_quantity d)
      | Some pos \<Rightarrow> i64 (pos_quantity pos + signed_quantity (fc_side d) (fc_quantity d)))"
  shows "list_all2 (\<lambda>e e'. ex_market e = ex_market e' \<and> ex_quantity e = ex_quantity e' \<and> (ex_market e \<noteq> fc_market d \<longrightarrow> e = e'))
    (add_delta d (map exposure_of ps)) (map exposure_of (umap_put (fc_market d) pos' ps))"
  using assms
proof (induction ps)
  case Nil
  then show ?case by simp
next
  case (Cons x ps)
  then show ?case by (cases x) (auto simp: list.rel_map intro: list_all2_refl)
qed

lemma sum_list_all2: "list_all2 (\<lambda>x y. f x = g y) xs ys \<Longrightarrow> sum_list (map f xs) = sum_list (map g ys)"
  by (induction rule: list_all2_induct) auto

lemma filled_quantity:
  assumes "in64 (fc_quantity d)"
  shows "pos_quantity (position_in (fc_market d) (fill_account csize (d\<lparr>fc_price := price\<rparr>) acc))
    = (case umap_find (fc_market d) (positions acc) of None \<Rightarrow> signed_quantity (fc_side d) (fc_quantity d)
       | Some pos \<Rightarrow> i64 (pos_quantity pos + signed_quantity (fc_side d) (fc_quantity d)))"
proof -
  have "pos_quantity (position_in (fc_market d) (fill_account csize (d\<lparr>fc_price := price\<rparr>) acc))
      = i64 (pos_quantity (position_in (fc_market d) acc) + signed_quantity (fc_side d) (fc_quantity d))"
    by (simp add: position_in_fill pos_quantity_fill)
  with signed_quantity_in64 [OF assms] show ?thesis
    by (simp add: position_in_def new_position_def split: option.splits)
qed

lemma positions_fill:
  "positions (fill_account csize f acc) =
     umap_put (fc_market f) (position_in (fc_market f) (fill_account csize f acc)) (positions acc)"
  by (simp add: fill_account_def position_in_def Let_def)

lemma exposures_after_fill:
  assumes "in64 (fc_quantity d)"
  shows "list_all2 (\<lambda>e e'. ex_market e = ex_market e' \<and> ex_quantity e = ex_quantity e' \<and> (ex_market e \<noteq> fc_market d \<longrightarrow> e = e'))
    (exposures_of (fc_account d) (Some d) eng) (exposures_of (fc_account d) None (apply_fill (d\<lparr>fc_price := price\<rparr>) eng))"
proof -
  let ?d = "d\<lparr>fc_price := price\<rparr>"
  have ex: "exposures_of (fc_account d) (Some d) eng = add_delta d (map exposure_of (positions (account_of (fc_account d) eng)))"
    by (simp add: exposures_of_def)
  have "exposures_of (fc_account d) None (apply_fill ?d eng) = map exposure_of (umap_put (fc_market d)
      (position_in (fc_market d) (fill_account (contract_size (mk_config (market_of (fc_market d) eng))) ?d
        (account_of (fc_account d) eng))) (positions (account_of (fc_account d) eng)))"
    by (simp add: exposures_of_def account_of_fill positions_fill [of _ ?d])
  with delta_positions [OF filled_quantity [OF assms]] show ?thesis unfolding ex by simp
qed

lemma exposure_mark_cong:
  assumes "mark_price ms \<noteq> 0 \<or> ex_market e \<noteq> fc_market d" and "ex_market e \<noteq> fc_market d \<longrightarrow> e = e'"
  shows "exposure_mark (Some d) ms e = exposure_mark None ms e'"
  using assms by (auto simp: exposure_mark_def)

lemma margin_part_after_fill:
  assumes "find_market (fc_market d) eng = Some ms" and "mark_price ms \<noteq> 0" and "markets eng' = markets eng"
    and "ex_market e = ex_market e'" and "ex_quantity e = ex_quantity e'" and "ex_market e \<noteq> fc_market d \<longrightarrow> e = e'"
  shows "margin_part f eng (Some d) e = margin_part f eng' None e'"
proof -
  have "find_market m eng' = find_market m eng" for m using assms(3) by (simp add: find_market_def)
  moreover have "exposure_mark (Some d) ms' e = exposure_mark None ms' e'" if "find_market (ex_market e) eng = Some ms'" for ms'
    using that assms exposure_mark_cong by (metis option.inject)
  ultimately show ?thesis
    using assms(4,5) by (auto simp: margin_part_def exposure_notional_def split: option.splits)
qed

text \<open>
  C22. The margins that the pre-trade check computes are exact: for an order in a known market whose mark price
  is not 0, the initial and maintenance margin of the summary with the hypothetical fill are those
  of the account after the fill has been applied, at whatever price.
\<close>

theorem predicted_margins_exact:
  assumes "in64 (fc_quantity d)" and "find_market (fc_market d) eng = Some ms" and "mark_price ms \<noteq> 0"
  shows "initial_margin (account_summary_with_delta (fc_account d) (Some d) eng)
           = initial_margin (account_summary (fc_account d) (apply_fill (d\<lparr>fc_price := price\<rparr>) eng))
       \<and> maintenance_margin (account_summary_with_delta (fc_account d) (Some d) eng)
           = maintenance_margin (account_summary (fc_account d) (apply_fill (d\<lparr>fc_price := price\<rparr>) eng))"
proof -
  let ?d = "d\<lparr>fc_price := price\<rparr>"
  have mk: "markets (apply_fill ?d eng) = markets eng" using assms(2) by (simp add: markets_apply_fill)
  note exposures_after_fill [OF assms(1), of eng price]
  then have "list_all2 (\<lambda>e e'. margin_part f eng (Some d) e = margin_part f (apply_fill ?d eng) None e')
      (exposures_of (fc_account d) (Some d) eng) (exposures_of (fc_account d) None (apply_fill ?d eng))" for f
    by (rule list_all2_mono) (use margin_part_after_fill [OF assms(2,3) mk] in blast)
  from sum_list_all2 [OF this] show ?thesis by (simp add: account_summary_def summary_as_sums)
qed

theorem predicted_margins_exact_witness:
  "\<exists>ms. find_market 1 sample_risk = Some ms \<and> mark_price ms \<noteq> 0
     \<and> initial_margin (account_summary_with_delta 7 (Some (sample_fill 7 1 kSell 15 90)) sample_risk)
         = initial_margin (account_summary 7 (apply_fill (sample_fill 7 1 kSell 15 95) sample_risk))"
proof -
  have "case find_market 1 sample_risk of None \<Rightarrow> False | Some ms \<Rightarrow> mark_price ms \<noteq> 0" by code_simp
  then obtain ms where ms: "find_market 1 sample_risk = Some ms" "mark_price ms \<noteq> 0" by (auto split: option.splits)
  have "in64 (fc_quantity (sample_fill 7 1 kSell 15 90))" by code_simp
  from predicted_margins_exact [OF this, of sample_risk ms 95] ms show ?thesis by (simp add: sample_fill_def)
qed

lemma sdiv_cancel: "0 < q \<Longrightarrow> (p * q) sdiv q = p" for p q :: int
  by (cases "p = 0") (auto simp: signed_divide_int_def abs_mult sgn_mult mult_sgn_abs)

lemma open_position:
  assumes "0 < q" and "in64 q" and "in64 (price * q)" and "in64 price"
  shows "extend_position (signed_quantity side q) price new_position =
           \<lparr>pos_quantity = signed_quantity side q, pos_entry_price = price\<rparr>"
proof -
  have sq: "in64 (signed_quantity side q)" "signed_quantity side q \<noteq> 0" "llabs (signed_quantity side q) = q"
    using assms(1,2) by (auto simp: signed_quantity_def llabs_def in64_def)
  moreover have "llabs 0 = 0" by (simp add: llabs_def)
  ultimately show ?thesis
    using assms by (simp add: extend_position_def new_position_def Let_def sdiv_cancel)
qed

text \<open>A new position at the mark price: the whole summary is exact.\<close>

lemma fresh_position_exact:
  assumes q: "0 < fc_quantity d" "in64 (fc_quantity d)" "in64 (fc_price d)" "in64 (fc_price d * fc_quantity d)"
    and ms: "find_market (fc_market d) eng = Some ms" "mark_price ms = fc_price d \<or> mark_price ms = 0"
    and fresh: "umap_find (fc_market d) (positions (account_of (fc_account d) eng)) = None"
  shows "account_summary (fc_account d) (apply_fill d eng) = account_summary_with_delta (fc_account d) (Some d) eng"
proof -
  let ?a = "fc_account d" and ?m = "fc_market d" and ?sq = "signed_quantity (fc_side d) (fc_quantity d)"
  let ?es = "map exposure_of (positions (account_of (fc_account d) eng))"
  define e1 where "e1 = \<lparr>ex_market = ?m, ex_quantity = ?sq, ex_entry_price = fc_price d, ex_existed = False\<rparr>"
  define e2 where "e2 = \<lparr>ex_market = ?m, ex_quantity = ?sq, ex_entry_price = fc_price d, ex_existed = True\<rparr>"
  have new: "?m \<notin> fst ` set (positions (account_of ?a eng))" using fresh by (simp add: umap_find_None)
  then have other: "\<forall>e \<in> set ?es. ex_market e \<noteq> ?m" by (force simp: exposure_of_def)
  have es1: "exposures_of ?a (Some d) eng = ?es @ [e1]"
    using add_delta_absent [of d ?es] other by (force simp: exposures_of_def e1_def)
  have pos: "position_in ?m (account_of ?a eng) = new_position" using fresh by (simp add: position_in_def)
  have es2: "exposures_of ?a None (apply_fill d eng) = ?es @ [e2]"
    using umap_put_new [OF new] open_position [OF q(1,2,4,3)]
    by (simp add: exposures_of_def account_of_fill fill_account_def pos extends_def new_position_def exposure_of_def e2_def Let_def)
  have mk: "markets (apply_fill d eng) = markets eng" using ms(1) by (simp add: markets_apply_fill)
  have acc: "collateral (account_of ?a (apply_fill d eng)) = collateral (account_of ?a eng)"
    "realized_pnl (account_of ?a (apply_fill d eng)) = realized_pnl (account_of ?a eng)"
    by (simp_all add: account_of_fill fill_account_def pos extends_def new_position_def Let_def)
  have same: "exposure_mark None ms' e = exposure_mark (Some d) ms' e" if "e \<in> set ?es" for e ms'
    using that other by (auto simp: exposure_mark_def)
  then have parts: "margin_part f eng None e = margin_part f eng (Some d) e" "equity_part eng None b e = equity_part eng (Some d) b e"
    if "e \<in> set ?es" for f b e
    using that by (auto simp: margin_part_def equity_part_def exposure_notional_def split: option.splits)
  have last: "margin_part f eng None e2 = margin_part f eng (Some d) e1" "equity_part eng None True e2 = 0"
      "equity_part eng (Some d) b e1 = 0" for f b
    using ms by (auto simp: margin_part_def equity_part_def exposure_notional_def exposure_mark_def e1_def e2_def)
  have known: "?es = [] \<or> find_account ?a eng \<noteq> None"
    by (auto simp: account_of_def new_account_def split: option.splits)
  have "find_account ?a (apply_fill d eng) \<noteq> None" by (simp add: find_account_def accounts_apply_fill)
  then show ?thesis
    using parts_markets [OF mk] known
    by (auto simp: account_summary_def summary_as_sums es1 es2 acc last parts cong: map_cong)
qed

section \<open>Properties of the risk engine\<close>

text \<open>
  C20. A position is the net of its fills: after any sequence of operations the quantity that the
  engine holds for an account in a market is the sum of the bought less the sold quantities of
  exactly the fills of that account in that market, as a 64-bit value.
\<close>

theorem position_is_net_of_fills:
  "existing_quantity a m (fold risk_step ops new_risk_engine) = i64 (net_quantity a m (fills_of ops))"
proof -
  have "existing_quantity a m new_risk_engine = 0"
    by (simp add: existing_quantity_def find_account_def new_risk_engine_def)
  then show ?thesis using existing_quantity_run [of a m new_risk_engine ops] by simp
qed

text \<open>
  The entry price of a position that grows is an average: for non-negative prices and products
  within 64 bits it lies between the old entry price and the price of the fill.
\<close>

theorem entry_price_between:
  assumes "pos_quantity pos \<noteq> 0" and "extends (pos_quantity pos) sq"
    and "0 \<le> pos_entry_price pos" and "0 \<le> price"
    and "\<bar>pos_quantity pos\<bar> + \<bar>sq\<bar> < 2 ^ 63"
    and "pos_entry_price pos * \<bar>pos_quantity pos\<bar> + price * \<bar>sq\<bar> < 2 ^ 63"
    and "in64 (pos_entry_price pos) \<and> in64 price"
  shows "min (pos_entry_price pos) price \<le> pos_entry_price (extend_position sq price pos)
       \<and> pos_entry_price (extend_position sq price pos) \<le> max (pos_entry_price pos) price"
proof -
  let ?a = "\<bar>pos_quantity pos\<bar>" and ?b = "\<bar>sq\<bar>" and ?e = "pos_entry_price pos"
  let ?w = "?e * ?a + price * ?b"
  have nz: "pos_quantity pos + sq \<noteq> 0" "in64 (pos_quantity pos + sq)" "0 < ?a + ?b"
    using assms(1,2,5) by (auto simp: extends_def in64_def)
  have ab: "llabs (pos_quantity pos) = ?a" "llabs sq = ?b" "in64 (?a + ?b)"
    using assms(5) by (auto simp: llabs_def in64_def intro!: i64_id)
  have w0: "0 \<le> ?e * ?a" "0 \<le> price * ?b" using assms(3,4) by simp_all
  then have w: "in64 (?e * ?a)" "in64 (price * ?b)" "in64 ?w" using assms(6) by (auto simp: in64_def)
  have lo: "0 \<le> min ?e price" using assms(3,4) by simp
  note wb = weighted_between [of ?a ?b ?e price]
  have d: "min ?e price \<le> ?w sdiv (?a + ?b)" "?w sdiv (?a + ?b) \<le> max ?e price"
    using sdiv_between [OF nz(3) lo, of ?w "max ?e price"] wb by simp_all
  have "in64 (min ?e price)" "in64 (max ?e price)" using assms(7) by (auto simp: min_def max_def)
  with d have "in64 (?w sdiv (?a + ?b))" by (rule in64_between [rotated 2])
  then show ?thesis using d nz ab w by (simp add: extend_position_def Let_def)
qed

theorem entry_price_between_witness:
  "min 100 110 \<le> pos_entry_price (extend_position 5 110 \<lparr>pos_quantity = 10, pos_entry_price = 100\<rparr>)
   \<and> pos_entry_price (extend_position 5 110 \<lparr>pos_quantity = 10, pos_entry_price = 100\<rparr>) \<le> max 100 110"
  using entry_price_between [of "\<lparr>pos_quantity = 10, pos_entry_price = 100\<rparr>" 5 110] by (simp add: extends_def in64_def)

text \<open>
  C21. The pre-trade check of an order that opens a position at the mark price: when the account has no entry for
  the market, the limit price is the mark price (or the market has no mark price), the product of price
  and quantity fits 64 bits, the check accepts the order with a maintenance margin not above the initial
  margin, and the order is then filled in full at its limit price, the account is healthy afterwards.
\<close>

theorem accepted_order_leaves_healthy:
  assumes "0 < oi_quantity i" and "in64 (oi_quantity i)" and "in64 (oi_limit_price i)"
    and "in64 (oi_limit_price i * oi_quantity i)"
    and "find_market (oi_market i) eng = Some ms" and "mark_price ms = oi_limit_price i \<or> mark_price ms = 0"
    and "umap_find (oi_market i) (positions (account_of (oi_account i) eng)) = None"
    and "decision (evaluate_order i eng) = kAccepted"
    and "maintenance_margin_required (evaluate_order i eng) \<le> initial_margin_required (evaluate_order i eng)"
  shows "lq_status (evaluate_liquidation (oi_account i) (apply_fill (intent_fill i) eng)) = kHealthy"
proof -
  let ?s = "account_summary_with_delta (oi_account i) (Some (intent_fill i)) eng"
  have "account_summary (oi_account i) (apply_fill (intent_fill i) eng) = ?s"
    using fresh_position_exact [of "intent_fill i" eng ms] assms(1-7) by (simp add: intent_fill_def)
  moreover have "initial_margin ?s \<le> equity ?s" "maintenance_margin ?s \<le> initial_margin ?s"
    using assms(5,8,9) by (auto simp: evaluate_order_def empty_risk_result_def Let_def split: if_splits)
  ultimately show ?thesis by (simp add: evaluate_liquidation_def Let_def)
qed

theorem accepted_order_leaves_healthy_witness:
  "lq_status (evaluate_liquidation 8 (apply_fill (sample_fill 8 1 kBuy 10 100)
     (credit_collateral 8 500 sample_risk))) = kHealthy"
proof -
  let ?i = "\<lparr>oi_account = 8, oi_market = 1, oi_side = kBuy, oi_quantity = 10, oi_limit_price = 100, oi_reduce_only = False\<rparr>"
  let ?eng = "credit_collateral 8 500 sample_risk"
  have e: "decision (evaluate_order ?i ?eng) = kAccepted"
    "maintenance_margin_required (evaluate_order ?i ?eng) \<le> initial_margin_required (evaluate_order ?i ?eng)"
    "umap_find (oi_market ?i) (positions (account_of (oi_account ?i) ?eng)) = None"
    "case find_market 1 ?eng of None \<Rightarrow> False | Some ms \<Rightarrow> mark_price ms = 100" by code_simp+
  then obtain ms where "find_market (oi_market ?i) ?eng = Some ms" "mark_price ms = oi_limit_price ?i"
    by (auto split: option.splits)
  with accepted_order_leaves_healthy [of ?i ?eng ms] e(1-3) show ?thesis
    by (simp add: in64_def intent_fill_def sample_fill_def)
qed

text \<open>
  C23. Reduce-only never grows a position: when a reduce-only order passes the check, then whatever
  part of it is filled, at whatever price, the size of the position is at most what it was, as long as
  order and position are below \<open>2 ^ 62\<close>.
\<close>

theorem reduce_only_never_grows:
  assumes "oi_reduce_only i" and "decision (evaluate_order i eng) = kAccepted"
    and "\<bar>existing_quantity (oi_account i) (oi_market i) eng\<bar> < 2 ^ 62"
    and "0 \<le> q" and "q \<le> oi_quantity i" and "oi_quantity i < 2 ^ 62"
  shows "\<bar>existing_quantity (oi_account i) (oi_market i)
            (apply_fill ((intent_fill i)\<lparr>fc_quantity := q, fc_price := price\<rparr>) eng)\<bar>
         \<le> \<bar>existing_quantity (oi_account i) (oi_market i) eng\<bar>"
proof -
  let ?x = "existing_quantity (oi_account i) (oi_market i) eng"
  let ?d = "\<lambda>q. if oi_side i = kBuy then q else - q"
  have r: "\<bar>?x + ?d q'\<bar> < 2 ^ 63" if "0 \<le> q'" "q' \<le> oi_quantity i" for q' :: int
    using that assms(3,6) by auto
  then have fits: "in64 (?x + ?d q')" "llabs (?x + ?d q') = \<bar>?x + ?d q'\<bar>" if "0 \<le> q'" "q' \<le> oi_quantity i" for q'
    using that by (force simp: in64_def abs_less_iff) (use r [OF that] in \<open>auto simp: llabs_def in64_def intro!: i64_id\<close>)
  have "in64 (- oi_quantity i)" using assms(4-6) by (simp add: in64_def)
  then have sq: "signed_quantity (oi_side i) (oi_quantity i) = ?d (oi_quantity i)" by (simp add: signed_quantity_def)
  have lx: "llabs ?x = \<bar>?x\<bar>" using assms(3) by (auto simp: llabs_def in64_def intro!: i64_id)
  have "llabs (i64 (?x + signed_quantity (oi_side i) (oi_quantity i))) \<le> llabs ?x"
    using assms(1,2) by (auto simp: evaluate_order_def empty_risk_result_def Let_def split: if_splits)
  then have "\<bar>?x + ?d (oi_quantity i)\<bar> \<le> \<bar>?x\<bar>"
    using fits [of "oi_quantity i"] assms(4,5) lx by (simp add: sq)
  then have "\<bar>?x + ?d q\<bar> \<le> \<bar>?x\<bar>" using assms(4,5) by (auto split: if_splits)
  then show ?thesis using fits(1) [of q] assms(4,5) by (simp add: existing_quantity_fill intent_fill_def split: if_splits)
qed

theorem reduce_only_never_grows_witness:
  "\<bar>existing_quantity 7 1 (apply_fill (sample_fill 7 1 kSell 3 90) sample_risk)\<bar> \<le> \<bar>existing_quantity 7 1 sample_risk\<bar>"
proof -
  let ?i = "\<lparr>oi_account = 7, oi_market = 1, oi_side = kSell, oi_quantity = 8, oi_limit_price = 90, oi_reduce_only = True\<rparr>"
  have "decision (evaluate_order ?i sample_risk) = kAccepted" "existing_quantity 7 1 sample_risk = 10" by code_simp+
  with reduce_only_never_grows [of ?i sample_risk 3 90] show ?thesis by (simp add: intent_fill_def sample_fill_def)
qed

text \<open>The rule compares sizes only: a reduce-only order may turn a long position into a short one of the same size.\<close>

lemma reduce_only_can_flip:
  "existing_quantity 7 1 sample_risk = 10
   \<and> decision (evaluate_order \<lparr>oi_account = 7, oi_market = 1, oi_side = kSell, oi_quantity = 20,
       oi_limit_price = 100, oi_reduce_only = True\<rparr> sample_risk) = kAccepted
   \<and> existing_quantity 7 1 (apply_fill (sample_fill 7 1 kSell 20 100) sample_risk) = - 10"
  by code_simp

text \<open>
  C24. Realized profit counts twice: a fill that reduces a position adds the realized amount to the
  collateral and to the realized profit of the account, so that the sum of both, which is the
  account's equity before unrealized profit, changes by twice the amount.
\<close>

theorem realized_pnl_counted_twice:
  assumes "\<not> extends (pos_quantity (position_in (fc_market f) (account_of (fc_account f) eng)))
             (signed_quantity (fc_side f) (fc_quantity f))"
  defines "realized \<equiv> realized_by (contract_size (mk_config (market_of (fc_market f) eng)))
             (signed_quantity (fc_side f) (fc_quantity f)) (fc_price f)
             (position_in (fc_market f) (account_of (fc_account f) eng))"
  shows "i64 (collateral (account_of (fc_account f) (apply_fill f eng))
             + realized_pnl (account_of (fc_account f) (apply_fill f eng)))
       = i64 (collateral (account_of (fc_account f) eng) + realized_pnl (account_of (fc_account f) eng) + 2 * realized)"
  using assms(1) unfolding realized_def
  by (simp add: account_of_fill fill_account_def Let_def i64_simps) (simp add: algebra_simps)

theorem realized_pnl_counted_twice_witness:
  "equity (account_summary 9 (fold risk_step
     [ConfigureMarket 1 sample_config, ApplyFill (sample_fill 9 1 kBuy 1 100), ApplyFill (sample_fill 9 1 kSell 1 150)]
     new_risk_engine)) = 100
   \<and> i64 (collateral (account_of 7 (apply_fill (sample_fill 7 1 kSell 1 150) sample_risk))
       + realized_pnl (account_of 7 (apply_fill (sample_fill 7 1 kSell 1 150) sample_risk)))
     = i64 (collateral (account_of 7 sample_risk) + realized_pnl (account_of 7 sample_risk) + 2 * 50)"
proof -
  have eq: "equity (account_summary 9 (fold risk_step
     [ConfigureMarket 1 sample_config, ApplyFill (sample_fill 9 1 kBuy 1 100), ApplyFill (sample_fill 9 1 kSell 1 150)]
     new_risk_engine)) = 100" by code_simp
  have "\<not> extends (pos_quantity (position_in 1 (account_of 7 sample_risk))) (signed_quantity kSell 1)"
    "realized_by (contract_size (mk_config (market_of 1 sample_risk))) (signed_quantity kSell 1) 150
       (position_in 1 (account_of 7 sample_risk)) = 50" by code_simp+
  with realized_pnl_counted_twice [of "sample_fill 7 1 kSell 1 150" sample_risk] eq show ?thesis
    by (simp add: sample_fill_def)
qed

text \<open>
  The liquidation test: with margins in range, an account needs full liquidation exactly when a
  maintenance margin is required and the equity is below it, a partial one exactly when the equity
  is between the two margins; the deficit is then positive and is what is missing to the margin in
  question, and a healthy account has no deficit.
\<close>

lemma liquidation_classifies:
  assumes "\<bar>equity (account_summary a eng)\<bar> < 2 ^ 62" and "\<bar>initial_margin (account_summary a eng)\<bar> < 2 ^ 62"
    and "\<bar>maintenance_margin (account_summary a eng)\<bar> < 2 ^ 62"
  defines "s \<equiv> account_summary a eng" and "r \<equiv> evaluate_liquidation a eng"
  shows "(lq_status r = kNeedsFull \<longleftrightarrow> maintenance_margin s \<noteq> 0 \<and> equity s < maintenance_margin s)
    \<and> (lq_status r = kNeedsPartial \<longleftrightarrow>
         maintenance_margin s \<noteq> 0 \<and> maintenance_margin s \<le> equity s \<and> equity s < initial_margin s)
    \<and> (lq_status r = kNeedsFull \<longrightarrow> 0 < lq_deficit r \<and> equity s + lq_deficit r = maintenance_margin s)
    \<and> (lq_status r = kNeedsPartial \<longrightarrow> 0 < lq_deficit r \<and> equity s + lq_deficit r = initial_margin s)
    \<and> (lq_status r = kHealthy \<longrightarrow> lq_deficit r = 0)"
proof -
  have "in64 (maintenance_margin s - equity s)" "in64 (initial_margin s - equity s)"
    using assms(1-3) unfolding s_def in64_def by auto
  then show ?thesis unfolding r_def s_def evaluate_liquidation_def by (auto simp: Let_def)
qed

end
