(* ===== verification/Funding.thy ===== *)
theory Funding
  imports Types
begin

text \<open>
  The funding engine (\<open>libs/funding\<close>): per market the mark price, clamped to a band around the index
  price, the premium, and the accumulated funding rate; and the ledger (\<open>libs/ledger\<close>): available
  and locked collateral per session. Neither engine iterates over its map, which is a HOL map.
\<close>

section \<open>Funding\<close>

record FundingSnapshot =
  fs_mark_price :: int
  fs_index_price :: int
  fs_premium_rate :: int
  fs_funding_rate :: int

record MarketFundingConfig =
  clamp_basis_points :: int
  max_rate_basis_points :: int

record FundingMarketState =
  fm_config :: MarketFundingConfig
  fm_mark_price :: int
  fm_index_price :: int
  fm_premium_rate :: int
  funding_accumulator :: int

type_synonym FundingEngine = "MarketId \<rightharpoonup> FundingMarketState"

definition kFundingBasisPointDenominator :: int where "kFundingBasisPointDenominator = 10000"

definition new_funding_market :: FundingMarketState where
  "new_funding_market =
     \<lparr>fm_config = \<lparr>clamp_basis_points = 100, max_rate_basis_points = 200\<rparr>, fm_mark_price = 0, fm_index_price = 0,
      fm_premium_rate = 0, funding_accumulator = 0\<rparr>"

definition funding_clamp :: "int \<Rightarrow> int \<Rightarrow> int \<Rightarrow> int" where
  "funding_clamp v min_value max_value = min (max v min_value) max_value"

definition configure_funding_market :: "MarketId \<Rightarrow> MarketFundingConfig \<Rightarrow> FundingEngine \<Rightarrow> FundingEngine" where
  "configure_funding_market m config eng =
     (case eng m of
        None \<Rightarrow> eng(m \<mapsto> new_funding_market\<lparr>fm_config := config\<rparr>)
      | Some st \<Rightarrow> eng(m \<mapsto> st\<lparr>fm_config := config\<rparr>))"

definition ensure_funding_market :: "MarketId \<Rightarrow> FundingEngine \<Rightarrow> FundingMarketState" where
  "ensure_funding_market m eng = (case eng m of None \<Rightarrow> new_funding_market | Some st \<Rightarrow> st)"

definition update_market :: "MarketId \<Rightarrow> int \<Rightarrow> int \<Rightarrow> int \<Rightarrow> FundingEngine \<Rightarrow> FundingSnapshot \<times> FundingEngine" where
  "update_market m index_price mid_price elapsed_seconds eng =
     (let state = ensure_funding_market m eng;
          config = fm_config state;
          band = i64 (index_price * clamp_basis_points config) sdiv kFundingBasisPointDenominator;
          clamped_mark = funding_clamp mid_price (i64 (index_price - band)) (i64 (index_price + band));
          premium0 = (if index_price > 0
                      then i64 (i64 (i64 (mid_price - index_price) * kFundingBasisPointDenominator) sdiv index_price)
                      else 0);
          premium = funding_clamp premium0 (i32 (- clamp_basis_points config)) (clamp_basis_points config);
          funding_rate = funding_clamp premium (i64 (- max_rate_basis_points config)) (max_rate_basis_points config);
          state' = state\<lparr>fm_index_price := index_price, fm_mark_price := clamped_mark, fm_premium_rate := premium,
                         funding_accumulator := i64 (funding_accumulator state + i64 (funding_rate * elapsed_seconds))\<rparr>
      in (\<lparr>fs_mark_price = clamped_mark, fs_index_price = index_price, fs_premium_rate = premium,
           fs_funding_rate = funding_rate\<rparr>,
          eng(m \<mapsto> state')))"

definition funding_mark_price :: "MarketId \<Rightarrow> FundingEngine \<Rightarrow> int" where
  "funding_mark_price m eng = (case eng m of None \<Rightarrow> 0 | Some st \<Rightarrow> fm_mark_price st)"

definition accumulated_funding :: "MarketId \<Rightarrow> FundingEngine \<Rightarrow> int" where
  "accumulated_funding m eng = (case eng m of None \<Rightarrow> 0 | Some st \<Rightarrow> funding_accumulator st)"

section \<open>Ledger\<close>

record LedgerAccount =
  collateral_available :: int
  collateral_locked :: int

type_synonym LedgerState = "SessionId \<rightharpoonup> LedgerAccount"

definition ledger_get :: "SessionId \<Rightarrow> LedgerState \<Rightarrow> LedgerAccount" where
  "ledger_get s led = (case led s of Some acc \<Rightarrow> acc | None \<Rightarrow> \<lparr>collateral_available = 0, collateral_locked = 0\<rparr>)"

text \<open>\<open>accounts_[session]\<close> creates a zero account where there is none.\<close>

definition ledger_credit :: "SessionId \<Rightarrow> int \<Rightarrow> LedgerState \<Rightarrow> LedgerState" where
  "ledger_credit s amount led =
     led(s \<mapsto> (ledger_get s led)\<lparr>collateral_available := i64 (collateral_available (ledger_get s led) + amount)\<rparr>)"

definition ledger_debit :: "SessionId \<Rightarrow> int \<Rightarrow> LedgerState \<Rightarrow> LedgerState" where
  "ledger_debit s amount led =
     (let led1 = led(s \<mapsto> (ledger_get s led)
                   \<lparr>collateral_available := i64 (collateral_available (ledger_get s led) - amount)\<rparr>)
      in led1(s \<mapsto> (ledger_get s led1)\<lparr>collateral_locked := i64 (collateral_locked (ledger_get s led1) + amount)\<rparr>))"

section \<open>Properties of the funding engine\<close>

lemma clamp_between: "lo \<le> hi \<Longrightarrow> lo \<le> funding_clamp v lo hi \<and> funding_clamp v lo hi \<le> hi"
  by (auto simp: funding_clamp_def)

lemma clamp_inside: "lo \<le> v \<Longrightarrow> v \<le> hi \<Longrightarrow> funding_clamp v lo hi = v"
  by (simp add: funding_clamp_def)

lemma sdiv_nonneg: "0 \<le> a \<Longrightarrow> 0 < b \<Longrightarrow> 0 \<le> a sdiv b" for a b :: int
  by (cases "a = 0") (simp_all add: signed_divide_int_def pos_imp_zdiv_nonneg_iff)

lemma sdiv_nonpos: "a \<le> 0 \<Longrightarrow> 0 < b \<Longrightarrow> a sdiv b \<le> 0" for a b :: int
  by (cases "a = 0") (simp_all add: signed_divide_int_def pos_imp_zdiv_nonneg_iff)

lemma sdiv_le_self: "0 \<le> a \<Longrightarrow> 0 < b \<Longrightarrow> a sdiv b \<le> a" for a b :: int
  by (cases "a = 0") (auto simp: signed_divide_int_def intro: order_trans [OF zdiv_mono2 [of a 1 b]])

text \<open>
  C31. The mark price stays in its band and the funding rate in its limits: for a positive index price,
  non-negative configured limits and a band that fits 64 bits, the mark price is within the band
  around the index and is the mid price whenever that lies inside the band; premium and funding
  rate are within their limits in both directions.
\<close>

theorem funding_update_bounded:
  assumes "0 < index" and "in64 index" and "0 \<le> clamp_basis_points c" and "in32 (clamp_basis_points c)"
    and "0 \<le> max_rate_basis_points c" and "in64 (max_rate_basis_points c)"
    and "index * clamp_basis_points c < 2 ^ 63" and "index + index * clamp_basis_points c sdiv 10000 < 2 ^ 63"
    and "fm_config (ensure_funding_market m eng) = c" and "update_market m index mid dt eng = (snap, eng')"
  defines "band \<equiv> index * clamp_basis_points c sdiv 10000"
  shows "index - band \<le> fs_mark_price snap \<and> fs_mark_price snap \<le> index + band
    \<and> (index - band \<le> mid \<and> mid \<le> index + band \<longrightarrow> fs_mark_price snap = mid)
    \<and> \<bar>fs_premium_rate snap\<bar> \<le> clamp_basis_points c
    \<and> \<bar>fs_funding_rate snap\<bar> \<le> min (clamp_basis_points c) (max_rate_basis_points c)
    \<and> funding_mark_price m eng' = fs_mark_price snap"
proof -
  have "0 \<le> index * clamp_basis_points c" using assms(1,3) by simp
  then have i: "in64 (index * clamp_basis_points c)" using assms(7) by (simp add: in64_def)
  have b: "0 \<le> band" using assms(1,3) by (auto simp: band_def intro!: sdiv_nonneg)
  have "band \<le> index * clamp_basis_points c" unfolding band_def using assms(1,3) by (auto intro!: sdiv_le_self)
  then have ib: "in64 (index - band)" "in64 (index + band)"
    using b assms(1,2,7,8) by (auto simp: in64_def band_def)
  have neg: "i32 (- clamp_basis_points c) = - clamp_basis_points c" "i64 (- max_rate_basis_points c) = - max_rate_basis_points c"
    using assms(3-6) by (auto simp: i32_def in32_def in64_def)
  have s: "fs_mark_price snap = funding_clamp mid (index - band) (index + band)"
    "\<exists>x. fs_premium_rate snap = funding_clamp x (- clamp_basis_points c) (clamp_basis_points c)"
    "fs_funding_rate snap = funding_clamp (fs_premium_rate snap) (- max_rate_basis_points c) (max_rate_basis_points c)"
    "funding_mark_price m eng' = fs_mark_price snap"
    using assms(9,10) i ib neg
    by (auto simp: update_market_def funding_mark_price_def Let_def kFundingBasisPointDenominator_def band_def)
  have "- clamp_basis_points c \<le> fs_premium_rate snap \<and> fs_premium_rate snap \<le> clamp_basis_points c"
    using s(2) clamp_between assms(3) by fastforce
  with s(1,3,4) b assms(3,5) clamp_between [of "index - band" "index + band" mid] show ?thesis
    by (auto simp: funding_clamp_def min_def max_def)
qed

definition sample_funding_config :: MarketFundingConfig where
  "sample_funding_config = \<lparr>clamp_basis_points = 50, max_rate_basis_points = 20\<rparr>"

theorem funding_update_bounded_witness:
  "\<exists>snap eng'. update_market 1 10000 10500 8 [1 \<mapsto> new_funding_market\<lparr>fm_config := sample_funding_config\<rparr>] = (snap, eng')
     \<and> fs_mark_price snap \<le> 10050 \<and> \<bar>fs_funding_rate snap\<bar> \<le> 20"
proof -
  let ?eng = "[1 \<mapsto> new_funding_market\<lparr>fm_config := sample_funding_config\<rparr>] :: FundingEngine"
  obtain snap eng' where u: "update_market 1 10000 10500 8 ?eng = (snap, eng')"
    by (cases "update_market 1 10000 10500 8 ?eng")
  have c: "fm_config (ensure_funding_market 1 ?eng) = sample_funding_config"
    by (simp add: ensure_funding_market_def)
  have sd: "(10000 * 50) sdiv 10000 = (50 :: int)" by code_simp
  from funding_update_bounded [OF _ _ _ _ _ _ _ _ c u] sd u show ?thesis
    by (auto simp: sample_funding_config_def in64_def in32_def)
qed

text \<open>A sequence of updates of any markets, and the sum of rate times duration over those of one market.\<close>

fun run_updates :: "(MarketId \<times> int \<times> int \<times> int) list \<Rightarrow> FundingEngine \<Rightarrow> (MarketId \<times> int \<times> FundingSnapshot) list \<times> FundingEngine" where
  "run_updates [] eng = ([], eng)"
| "run_updates ((m, index, mid, dt) # us) eng =
     (let (snap, eng1) = update_market m index mid dt eng; (out, eng2) = run_updates us eng1
      in ((m, dt, snap) # out, eng2))"

definition funding_paid :: "MarketId \<Rightarrow> (MarketId \<times> int \<times> FundingSnapshot) list \<Rightarrow> int" where
  "funding_paid m out = sum_list (map (\<lambda>(_, dt, snap). fs_funding_rate snap * dt) (filter (\<lambda>(m', _, _). m' = m) out))"

lemma accumulated_update:
  "update_market m' index mid dt eng = (snap, eng1) \<Longrightarrow>
     accumulated_funding m eng1 =
       (if m = m' then i64 (accumulated_funding m eng + fs_funding_rate snap * dt) else accumulated_funding m eng)"
  by (auto simp: update_market_def accumulated_funding_def ensure_funding_market_def new_funding_market_def
      Let_def i64_simps split: option.splits)

text \<open>
  The funding accumulator of a market is the sum, over the updates of that market alone, of the
  returned funding rate times the elapsed seconds, as a 64-bit value.
\<close>

theorem funding_accumulates:
  assumes "run_updates us Map.empty = (out, eng)"
  shows "accumulated_funding m eng = i64 (funding_paid m out)"
proof -
  have "in64 (accumulated_funding m eng0) \<Longrightarrow> run_updates us eng0 = (out, eng) \<Longrightarrow>
      accumulated_funding m eng = i64 (accumulated_funding m eng0 + funding_paid m out)" for eng0
  proof (induction us arbitrary: eng0 out)
    case Nil
    then show ?case by (simp add: funding_paid_def)
  next
    case (Cons u us)
    obtain m' index mid dt where u: "u = (m', index, mid, dt)" by (cases u) auto
    obtain snap eng1 out1 where s: "update_market m' index mid dt eng0 = (snap, eng1)"
      "run_updates us eng1 = (out1, eng)" "out = (m', dt, snap) # out1"
      using Cons.prems(2) by (auto simp: u Let_def split: prod.splits)
    have "in64 (accumulated_funding m eng1)" using Cons.prems(1) accumulated_update [OF s(1)] by simp
    from Cons.IH [OF this s(2)] show ?case
      by (simp add: accumulated_update [OF s(1)] s(3) funding_paid_def i64_simps algebra_simps)
  qed
  from this [OF _ assms] show ?thesis by (simp add: accumulated_funding_def)
qed

theorem funding_accumulates_witness:
  "\<exists>out eng. run_updates [(1, 10000, 10010, 8), (2, 500, 500, 8), (1, 10000, 9990, 4)] Map.empty = (out, eng)
     \<and> accumulated_funding 1 eng = i64 (funding_paid 1 out)"
proof -
  obtain out eng where "run_updates [(1, 10000, 10010, 8), (2, 500, 500, 8), (1, 10000, 9990, 4)] Map.empty = (out, eng)"
    by (cases "run_updates [(1, 10000, 10010, 8), (2, 500, 500, 8), (1, 10000, 9990, 4)] Map.empty")
  with funding_accumulates [OF this] show ?thesis by blast
qed

section \<open>Properties of the ledger\<close>

datatype LedgerOp = Credit SessionId int | Debit SessionId int

fun ledger_step :: "LedgerOp \<Rightarrow> LedgerState \<Rightarrow> LedgerState" where
  "ledger_step (Credit s amount) led = ledger_credit s amount led"
| "ledger_step (Debit s amount) led = ledger_debit s amount led"

fun credited :: "SessionId \<Rightarrow> LedgerOp list \<Rightarrow> int" where
  "credited s [] = 0"
| "credited s (Credit s' amount # ops) = (if s = s' then amount else 0) + credited s ops"
| "credited s (Debit s' amount # ops) = credited s ops"

fun debited :: "SessionId \<Rightarrow> LedgerOp list \<Rightarrow> int" where
  "debited s [] = 0"
| "debited s (Debit s' amount # ops) = (if s = s' then amount else 0) + debited s ops"
| "debited s (Credit s' amount # ops) = debited s ops"

lemma ledger_get_step:
  "ledger_get s (ledger_credit s' amount led) =
     (if s = s' then (ledger_get s led)\<lparr>collateral_available := i64 (collateral_available (ledger_get s led) + amount)\<rparr>
      else ledger_get s led)"
  "ledger_get s (ledger_debit s' amount led) =
     (if s = s' then (ledger_get s led)\<lparr>collateral_available := i64 (collateral_available (ledger_get s led) - amount),
        collateral_locked := i64 (collateral_locked (ledger_get s led) + amount)\<rparr>
      else ledger_get s led)"
  by (simp_all add: ledger_get_def ledger_credit_def ledger_debit_def Let_def)

lemma ledger_run:
  "in64 (collateral_available (ledger_get s led)) \<Longrightarrow> in64 (collateral_locked (ledger_get s led)) \<Longrightarrow>
     collateral_available (ledger_get s (fold ledger_step ops led))
       = i64 (collateral_available (ledger_get s led) + credited s ops - debited s ops)
   \<and> collateral_locked (ledger_get s (fold ledger_step ops led))
       = i64 (collateral_locked (ledger_get s led) + debited s ops)"
proof (induction ops arbitrary: led)
  case Nil
  then show ?case by simp
next
  case (Cons op ops)
  let ?led = "ledger_step op led"
  have "in64 (collateral_available (ledger_get s ?led)) \<and> in64 (collateral_locked (ledger_get s ?led))"
    using Cons.prems by (cases op) (auto simp: ledger_get_step)
  then have IH: "collateral_available (ledger_get s (fold ledger_step ops ?led))
       = i64 (collateral_available (ledger_get s ?led) + credited s ops - debited s ops)
   \<and> collateral_locked (ledger_get s (fold ledger_step ops ?led)) = i64 (collateral_locked (ledger_get s ?led) + debited s ops)"
    using Cons.IH by blast
  show ?case
  proof (cases op)
    case (Credit s' amount)
    then show ?thesis using IH by (cases "s = s'") (simp_all add: ledger_get_step i64_simps add.assoc)
  next
    case (Debit s' amount)
    then show ?thesis using IH by (cases "s = s'") (simp_all add: ledger_get_step i64_simps diff_diff_add add.assoc diff_add_eq)
  qed
qed

text \<open>
  The ledger books every amount once: after any sequence of credits and debits of any sessions, the
  available collateral of a session is its credits less its debits and the locked collateral is its
  debits, so that available and locked together are the credits (as 64-bit values).
\<close>

lemma ledger_conserves:
  "collateral_available (ledger_get s (fold ledger_step ops Map.empty)) = i64 (credited s ops - debited s ops)
   \<and> collateral_locked (ledger_get s (fold ledger_step ops Map.empty)) = i64 (debited s ops)
   \<and> i64 (collateral_available (ledger_get s (fold ledger_step ops Map.empty))
        + collateral_locked (ledger_get s (fold ledger_step ops Map.empty))) = i64 (credited s ops)"
  using ledger_run [of s Map.empty ops] by (simp add: ledger_get_def i64_simps)

end
