(* ===== verification/Spsc_Ring.thy ===== *)
theory Spsc_Ring
  imports Prelude "HOL-Library.Monad_Syntax"
begin

text \<open>
  The single-producer single-consumer ring (\<open>common/spsc_ring.hpp\<close>). The first part models \<open>push\<close>,
  \<open>pop\<close> and \<open>empty\<close> as calls on the ring and shows that the ring implements a bounded FIFO queue, a
  contract that is stated as a locale for the clients. The second part breaks the calls into their
  atomic accesses and shows, for every interleaving of one producer with one consumer, that nothing
  is lost, duplicated or reordered, that no empty slot is read, and that the two threads never touch
  the same slot at the same time. The interleaving is sequentially consistent; the release and acquire
  pairs of the source order exactly the accesses to the slots around the accesses to the indices.
\<close>

section \<open>The ring\<close>

record 'a SpscRing =
  buffer :: "'a option list"
  ring_mask :: u64
  ring_head :: u64
  ring_tail :: u64

text \<open>The constructor; \<open>None\<close> is the exception \<open>std::invalid_argument\<close>.\<close>

definition new_ring :: "u64 \<Rightarrow> 'a SpscRing option" where
  "new_ring capacity =
     (if capacity = 0 \<or> capacity AND (capacity - 1) \<noteq> 0 then None
      else Some \<lparr>buffer = replicate (unat capacity) None, ring_mask = capacity - 1, ring_head = 0, ring_tail = 0\<rparr>)"

text \<open>Access to a slot; \<open>None\<close> is an access out of bounds.\<close>

definition slot_read :: "u64 \<Rightarrow> 'a option list \<Rightarrow> 'a option option" where
  "slot_read i buf = (if unat i < length buf then Some (buf ! unat i) else None)"

definition slot_write :: "u64 \<Rightarrow> 'a option \<Rightarrow> 'a option list \<Rightarrow> 'a option list option" where
  "slot_write i v buf = (if unat i < length buf then Some (buf[unat i := v]) else None)"

text \<open>\<open>None\<close> is undefined behaviour of the C++ code: a bad index, or an empty optional dereferenced.\<close>

definition ring_push :: "'a \<Rightarrow> 'a SpscRing \<Rightarrow> (bool \<times> 'a SpscRing) option" where
  "ring_push v r =
     (let next_head = (ring_head r + 1) AND ring_mask r
      in if next_head = ring_tail r then Some (False, r)
         else do {
           buf \<leftarrow> slot_write (ring_head r) (Some v) (buffer r);
           Some (True, r\<lparr>buffer := buf, ring_head := next_head\<rparr>)
         })"

definition ring_pop :: "'a SpscRing \<Rightarrow> ('a option \<times> 'a SpscRing) option" where
  "ring_pop r =
     (if ring_tail r = ring_head r then Some (None, r)
      else do {
        slot \<leftarrow> slot_read (ring_tail r) (buffer r);
        out \<leftarrow> slot;
        buf \<leftarrow> slot_write (ring_tail r) None (buffer r);
        Some (Some out, r\<lparr>buffer := buf, ring_tail := (ring_tail r + 1) AND ring_mask r\<rparr>)
      })"

definition ring_empty :: "'a SpscRing \<Rightarrow> bool" where
  "ring_empty r \<longleftrightarrow> ring_tail r = ring_head r"

section \<open>Powers of two and masks\<close>

lemma odd_part:
  fixes n :: nat
  assumes "0 < n"
  obtains k j where "n = 2 ^ k * (2 * j + 1)"
  using assms
proof (induction n arbitrary: thesis rule: less_induct)
  case (less n)
  show ?case
  proof (cases "even n")
    case False
    then obtain j where "n = 2 ^ 0 * (2 * j + 1)" by (auto elim: oddE)
    then show ?thesis using less.prems(1) by blast
  next
    case True
    then obtain m where m: "n = 2 * m" by blast
    then obtain k j where "m = 2 ^ k * (2 * j + 1)" using less.IH [of m] less.prems(2) by auto
    then have "n = 2 ^ Suc k * (2 * j + 1)" using m by simp
    then show ?thesis using less.prems(1) by blast
  qed
qed

lemma and_pred_zero:
  fixes n :: nat
  assumes "0 < n" and "n AND (n - 1) = 0"
  obtains k where "n = 2 ^ k"
proof -
  obtain k j where n: "n = 2 ^ k * (2 * j + 1)" using odd_part [OF assms(1)] .
  have pred: "n - 1 = (2 ^ k - 1) + j * 2 ^ Suc k" and n2: "n = 2 ^ k + j * 2 ^ Suc k"
    by (simp_all add: n algebra_simps Nat.add_diff_assoc2)
  have "(2 ^ k + j * 2 ^ Suc k) div 2 ^ Suc k = j" "(2 ^ k - 1 + j * 2 ^ Suc k) div 2 ^ Suc k = j"
    by (subst div_mult_self1; simp add: less_imp_diff_less)+
  then have "drop_bit (Suc k) n = j" "drop_bit (Suc k) (n - 1) = j"
    using n2 pred by (metis drop_bit_eq_div)+
  then have "j = drop_bit (Suc k) (n AND (n - 1))" by (simp only: drop_bit_and and.idem)
  then have "j = 0" by (simp only: assms(2) drop_bit_of_0)
  then show ?thesis using n that by simp
qed

lemma capacity_power:
  fixes c :: u64
  assumes "c \<noteq> 0" and "c AND (c - 1) = 0"
  obtains k where "k < 64" "unat c = 2 ^ k"
proof -
  have pos: "0 < unat c" using assms(1) by (simp add: unat_gt_0)
  moreover have "unat (c - 1) = unat c - 1" using pos by (metis assms(1) unat_minus_one)
  then have "unat c AND (unat c - 1) = 0" using assms(2) by (metis unsigned_and_eq unsigned_0)
  ultimately obtain k where k: "unat c = 2 ^ k" using and_pred_zero by blast
  moreover have "k < 64" using k unsigned_less [of c, where ?'a = nat] power_less_imp_less_exp [of "2 :: nat" k 64] by simp
  ultimately show ?thesis using that by blast
qed

lemma mask_step:
  fixes i c :: u64
  assumes "k < 64" and "unat c = 2 ^ k" and "unat i < 2 ^ k"
  shows "unat ((i + 1) AND (c - 1)) = (unat i + 1) mod 2 ^ k"
proof -
  have "c = 2 ^ k" using assms(2) by (metis of_nat_numeral of_nat_power of_nat_unat ucast_id)
  then have "(i + 1) AND (c - 1) = take_bit k (i + 1)" by (simp add: take_bit_eq_mask mask_eq_exp_minus_1)
  moreover have "unat (i + 1) = unat i + 1"
  proof -
    have "(2 :: nat) ^ k < 2 ^ 64" using assms(1) by (rule power_strict_increasing) simp
    then have "unat i + 1 < 2 ^ 64" using assms(3) by linarith
    then show ?thesis by (simp add: unat_word_ariths)
  qed
  ultimately show ?thesis by (metis unsigned_take_bit_eq take_bit_nat_def)
qed

section \<open>Bounded queues\<close>

text \<open>
  The contract of a bounded queue: \<open>holds n q xs\<close> says that \<open>q\<close>, of capacity \<open>n\<close>, contains \<open>xs\<close>,
  oldest first.
\<close>

locale bounded_queue =
  fixes holds :: "nat \<Rightarrow> 'q \<Rightarrow> 'a list \<Rightarrow> bool"
    and push :: "'a \<Rightarrow> 'q \<Rightarrow> (bool \<times> 'q) option"
    and pop :: "'q \<Rightarrow> ('a option \<times> 'q) option"
  assumes bound: "holds n q xs \<Longrightarrow> length xs \<le> n"
    and push_full: "holds n q xs \<Longrightarrow> length xs = n \<Longrightarrow> push v q = Some (False, q)"
    and push_room: "holds n q xs \<Longrightarrow> length xs < n \<Longrightarrow> \<exists>q'. push v q = Some (True, q') \<and> holds n q' (xs @ [v])"
    and pop_none: "holds n q [] \<Longrightarrow> pop q = Some (None, q)"
    and pop_some: "holds n q (x # xs) \<Longrightarrow> \<exists>q'. pop q = Some (Some x, q') \<and> holds n q' xs"
begin

lemma push_result:
  assumes "holds n q xs"
  shows "\<exists>q'. push v q = Some (length xs < n, q') \<and> holds n q' (if length xs < n then xs @ [v] else xs)"
  using push_full [OF assms] push_room [OF assms] bound [OF assms] assms by (cases "length xs < n") auto

lemma pop_result:
  assumes "holds n q xs"
  shows "\<exists>q'. pop q = Some (case xs of [] \<Rightarrow> None | x # _ \<Rightarrow> Some x, q') \<and> holds n q' (tl xs)"
  using assms pop_none pop_some by (cases xs) auto

end

text \<open>The calls of a client: push a list of values one after the other; pop until the queue is empty.\<close>

fun push_all :: "('a \<Rightarrow> 'q \<Rightarrow> (bool \<times> 'q) option) \<Rightarrow> 'a list \<Rightarrow> 'q \<Rightarrow> (bool list \<times> 'q) option" where
  "push_all push [] q = Some ([], q)"
| "push_all push (v # vs) q = do {
     (ok, q1) \<leftarrow> push v q;
     (oks, q2) \<leftarrow> push_all push vs q1;
     Some (ok # oks, q2)
   }"

partial_function (option) drain :: "('q \<Rightarrow> ('a option \<times> 'q) option) \<Rightarrow> 'q \<Rightarrow> ('a list \<times> 'q) option" where
  "drain pop q =
     Option.bind (pop q)
       (\<lambda>(out, q1). case out of
          None \<Rightarrow> Some ([], q1)
        | Some x \<Rightarrow> Option.bind (drain pop q1) (\<lambda>(xs, q2). Some (x # xs, q2)))"

declare drain.simps [code]

context bounded_queue
begin

lemma push_all_holds:
  "holds n q xs \<Longrightarrow> length xs + length vs \<le> n \<Longrightarrow>
     \<exists>q'. push_all push vs q = Some (replicate (length vs) True, q') \<and> holds n q' (xs @ vs)"
proof (induction vs arbitrary: q xs)
  case Nil
  then show ?case by simp
next
  case (Cons v vs)
  obtain q1 where q1: "push v q = Some (True, q1)" "holds n q1 (xs @ [v])"
    using push_room [OF Cons.prems(1)] Cons.prems(2) by fastforce
  with Cons.IH [OF q1(2)] Cons.prems(2) show ?case by auto
qed

lemma drain_holds: "holds n q xs \<Longrightarrow> \<exists>q'. drain pop q = Some (xs, q') \<and> holds n q' []"
proof (induction xs arbitrary: q)
  case Nil
  then show ?case using pop_none [OF Nil] by (subst drain.simps) auto
next
  case (Cons x xs)
  obtain q1 where q1: "pop q = Some (Some x, q1)" "holds n q1 xs" using pop_some [OF Cons.prems] by blast
  from Cons.IH [OF q1(2)] q1(1) show ?case by (subst drain.simps) auto
qed

end

section \<open>The ring implements a bounded queue\<close>

text \<open>
  A ring of \<open>2 ^ k\<close> slots contains \<open>xs\<close>: the slots from the tail on hold \<open>xs\<close>, the head is the slot
  behind them, and at least one slot is free, so that the capacity is one less than the slots.
\<close>

definition ring_index :: "nat \<Rightarrow> u64 \<Rightarrow> nat \<Rightarrow> nat" where
  "ring_index k i n = (unat i + n) mod 2 ^ k"

definition ring_shape :: "nat \<Rightarrow> 'a SpscRing \<Rightarrow> nat \<Rightarrow> bool" where
  "ring_shape k r n \<longleftrightarrow>
     k < 64 \<and> length (buffer r) = 2 ^ k \<and> ring_mask r = 2 ^ k - 1
     \<and> unat (ring_tail r) < 2 ^ k \<and> unat (ring_head r) = ring_index k (ring_tail r) n \<and> n < 2 ^ k"

definition ring_holds :: "nat \<Rightarrow> 'a SpscRing \<Rightarrow> 'a list \<Rightarrow> bool" where
  "ring_holds n r xs \<longleftrightarrow>
     (\<exists>k. n = 2 ^ k - 1 \<and> ring_shape k r (length xs)
        \<and> (\<forall>i < length xs. buffer r ! ring_index k (ring_tail r) i = Some (xs ! i)))"

lemma ring_index_less [simp]: "ring_index k i n < 2 ^ k"
  by (simp add: ring_index_def)

lemma ring_index_0 [simp]: "unat i < 2 ^ k \<Longrightarrow> ring_index k i 0 = unat i"
  by (simp add: ring_index_def)

lemma ring_index_inj: "ring_index k i m = ring_index k i n \<Longrightarrow> m < 2 ^ k \<Longrightarrow> n < 2 ^ k \<Longrightarrow> m = n"
proof (induction m n rule: linorder_wlog)
  case (le m n)
  then have "2 ^ k dvd (unat i + n) - (unat i + m)"
    by (subst mod_eq_dvd_iff_nat [symmetric]) (simp_all add: ring_index_def)
  then have "2 ^ k dvd n - m" by simp
  then show ?case using le by (metis diff_is_0_eq dvd_imp_le less_imp_diff_less linorder_not_less nat_dvd_not_less antisym zero_less_diff)
qed auto

lemma unat_exp:
  assumes "k < 64"
  shows "unat (2 ^ k :: u64) = 2 ^ k"
proof -
  have "(2 :: nat) ^ k < 2 ^ 64" using assms by (rule power_strict_increasing) simp
  moreover have "unat (of_nat n :: u64) = take_bit 64 n" for n by (simp add: unsigned_of_nat)
  ultimately have "unat (of_nat (2 ^ k) :: u64) = 2 ^ k" by (simp only: take_bit_nat_eq_self)
  then show ?thesis by simp
qed

lemma mask_next:
  assumes "ring_shape k r n" and "unat i < 2 ^ k"
  shows "unat ((i + 1) AND ring_mask r) = (unat i + 1) mod 2 ^ k"
proof -
  have "unat (2 ^ k :: u64) = 2 ^ k" using assms(1) by (simp add: ring_shape_def unat_exp)
  then show ?thesis using mask_step [of k "2 ^ k" i] assms by (simp add: ring_shape_def)
qed

lemma head_next:
  assumes "ring_shape k r n"
  shows "unat ((ring_head r + 1) AND ring_mask r) = ring_index k (ring_tail r) (Suc n)"
proof -
  have "unat (ring_head r) < 2 ^ k" using assms by (simp add: ring_shape_def)
  from mask_next [OF assms this] assms show ?thesis
    by (simp add: ring_shape_def ring_index_def mod_simps)
qed

lemma tail_next:
  assumes "ring_shape k r n"
  shows "unat ((ring_tail r + 1) AND ring_mask r) = ring_index k (ring_tail r) 1"
  using mask_next [OF assms, of "ring_tail r"] assms by (simp add: ring_shape_def ring_index_def)

lemma tail_next_index:
  assumes "ring_shape k r n"
  shows "ring_index k ((ring_tail r + 1) AND ring_mask r) i = ring_index k (ring_tail r) (Suc i)"
  using tail_next [OF assms] by (simp add: ring_index_def mod_simps)

lemma new_ring_holds:
  assumes "new_ring capacity = Some r"
  shows "ring_holds (unat capacity - 1) r []"
proof -
  have c: "capacity \<noteq> 0" "capacity AND (capacity - 1) = 0"
    and r: "r = \<lparr>buffer = replicate (unat capacity) None, ring_mask = capacity - 1, ring_head = 0, ring_tail = 0\<rparr>"
    using assms by (auto simp: new_ring_def split: if_splits)
  obtain k where k: "k < 64" "unat capacity = 2 ^ k" using capacity_power [OF c] .
  then have "capacity = 2 ^ k" by (metis unat_exp word_unat_eq_iff)
  with k r show ?thesis by (auto simp: ring_holds_def ring_shape_def ring_index_def)
qed

lemma ring_push_full:
  assumes "ring_holds n r xs" and "length xs = n"
  shows "ring_push v r = Some (False, r)"
proof -
  obtain k where k: "n = 2 ^ k - 1" "ring_shape k r (length xs)" using assms(1) by (auto simp: ring_holds_def)
  then have "Suc (length xs) = 2 ^ k" using assms(2) by simp
  then have "unat ((ring_head r + 1) AND ring_mask r) = unat (ring_tail r)"
    using head_next [OF k(2)] k(2) by (simp add: ring_index_def ring_shape_def)
  then have "(ring_head r + 1) AND ring_mask r = ring_tail r" by (simp add: word_unat_eq_iff)
  then show ?thesis by (simp add: ring_push_def Let_def)
qed

lemma ring_push_room:
  assumes "ring_holds n r xs" and "length xs < n"
  shows "\<exists>r'. ring_push v r = Some (True, r') \<and> ring_holds n r' (xs @ [v])"
proof -
  obtain k where k: "n = 2 ^ k - 1" "ring_shape k r (length xs)"
    and sl: "\<forall>i < length xs. buffer r ! ring_index k (ring_tail r) i = Some (xs ! i)"
    using assms(1) by (auto simp: ring_holds_def)
  let ?nh = "(ring_head r + 1) AND ring_mask r"
  have lt: "Suc (length xs) < 2 ^ k" using k(1) assms(2) by simp
  have h: "unat (ring_head r) = ring_index k (ring_tail r) (length xs)" using k(2) by (simp add: ring_shape_def)
  have "unat ?nh \<noteq> unat (ring_tail r)"
    using head_next [OF k(2)] ring_index_inj [of k "ring_tail r" "Suc (length xs)" 0] lt k(2)
    by (auto simp: ring_shape_def)
  then have nf: "?nh \<noteq> ring_tail r" by auto
  have len: "length (buffer r) = 2 ^ k" using k(2) by (simp add: ring_shape_def)
  have slots: "(buffer r)[unat (ring_head r) := Some v] ! ring_index k (ring_tail r) i = Some ((xs @ [v]) ! i)"
    if "i < Suc (length xs)" for i
    using that sl ring_index_inj [of k "ring_tail r" i "length xs"] lt len h
    by (cases "i = length xs") (auto simp: nth_append nth_list_update)
  have "ring_shape k (r\<lparr>buffer := (buffer r)[unat (ring_head r) := Some v], ring_head := ?nh\<rparr>) (Suc (length xs))"
    using k(2) head_next [OF k(2)] lt by (simp add: ring_shape_def)
  with nf len h k(1) slots show ?thesis
    by (auto simp: ring_push_def slot_write_def ring_holds_def Let_def)
qed

lemma ring_pop_none: "ring_holds n r [] \<Longrightarrow> ring_pop r = Some (None, r)"
  by (auto simp: ring_holds_def ring_shape_def ring_pop_def word_unat_eq_iff)

lemma ring_pop_some:
  assumes "ring_holds n r (x # xs)"
  shows "\<exists>r'. ring_pop r = Some (Some x, r') \<and> ring_holds n r' xs"
proof -
  obtain k where k: "n = 2 ^ k - 1" "ring_shape k r (Suc (length xs))"
    and sl: "\<forall>i < Suc (length xs). buffer r ! ring_index k (ring_tail r) i = Some ((x # xs) ! i)"
    using assms by (auto simp: ring_holds_def)
  let ?nt = "(ring_tail r + 1) AND ring_mask r"
  have t: "unat (ring_tail r) < 2 ^ k" "length (buffer r) = 2 ^ k" "Suc (length xs) < 2 ^ k"
    using k(2) by (simp_all add: ring_shape_def)
  have x: "buffer r ! unat (ring_tail r) = Some x" using sl t(1) by force
  have ne: "ring_tail r \<noteq> ring_head r"
    using ring_index_inj [of k "ring_tail r" "Suc (length xs)" 0] k(2) t by (auto simp: ring_shape_def)
  have slots: "(buffer r)[unat (ring_tail r) := None] ! ring_index k ?nt i = Some (xs ! i)" if "i < length xs" for i
  proof -
    have "ring_index k (ring_tail r) (Suc i) \<noteq> unat (ring_tail r)"
      using ring_index_inj [of k "ring_tail r" "Suc i" 0] t that by auto
    then show ?thesis using sl that by (simp add: tail_next_index [OF k(2)])
  qed
  have "ring_shape k (r\<lparr>buffer := (buffer r)[unat (ring_tail r) := None], ring_tail := ?nt\<rparr>) (length xs)"
    using k(2) tail_next_index [OF k(2), of "length xs"] tail_next [OF k(2)] by (simp add: ring_shape_def)
  with ne t x k(1) slots show ?thesis
    by (auto simp: ring_pop_def slot_read_def slot_write_def ring_holds_def)
qed

interpretation ring: bounded_queue ring_holds ring_push ring_pop
proof unfold_locales
  show "length xs \<le> n" if "ring_holds n q xs" for n and q :: "'a SpscRing" and xs
    using that by (auto simp: ring_holds_def ring_shape_def)
qed (simp_all add: ring_push_full ring_push_room ring_pop_none ring_pop_some)

section \<open>One producer and one consumer, interleaved\<close>

text \<open>
  Where each thread stands in its call: the values are the local variables of the call. The producer
  has loaded the head, has loaded the tail and found room, has written the slot; the consumer has
  loaded the tail, has loaded the head and found an element, has moved it out, has reset the slot.
\<close>

datatype 'a Producer = PIdle | PGotHead 'a u64 | PReady 'a u64 | PWritten 'a u64
datatype 'a Consumer = CIdle | CGotTail u64 | CReady u64 | CRead u64 'a | CReset u64 'a

text \<open>The shared ring, the two threads, and the values whose push and pop have taken effect so far.\<close>

record 'a RingThreads =
  shared :: "'a SpscRing"
  producer :: "'a Producer"
  consumer :: "'a Consumer"
  pushed :: "'a list"
  popped :: "'a list"

inductive ring_step :: "'a RingThreads \<Rightarrow> 'a RingThreads \<Rightarrow> bool" where
  p_load_head: "producer s = PIdle \<Longrightarrow> ring_step s (s\<lparr>producer := PGotHead v (ring_head (shared s))\<rparr>)"
| p_full: "producer s = PGotHead v h \<Longrightarrow> (h + 1) AND ring_mask (shared s) = ring_tail (shared s) \<Longrightarrow>
    ring_step s (s\<lparr>producer := PIdle\<rparr>)"
| p_room: "producer s = PGotHead v h \<Longrightarrow> (h + 1) AND ring_mask (shared s) \<noteq> ring_tail (shared s) \<Longrightarrow>
    ring_step s (s\<lparr>producer := PReady v h\<rparr>)"
| p_write: "producer s = PReady v h \<Longrightarrow> slot_write h (Some v) (buffer (shared s)) = Some buf \<Longrightarrow>
    ring_step s (s\<lparr>producer := PWritten v h, shared := (shared s)\<lparr>buffer := buf\<rparr>\<rparr>)"
| p_publish: "producer s = PWritten v h \<Longrightarrow>
    ring_step s (s\<lparr>producer := PIdle, shared := (shared s)\<lparr>ring_head := (h + 1) AND ring_mask (shared s)\<rparr>,
                   pushed := pushed s @ [v]\<rparr>)"
| c_load_tail: "consumer s = CIdle \<Longrightarrow> ring_step s (s\<lparr>consumer := CGotTail (ring_tail (shared s))\<rparr>)"
| c_empty: "consumer s = CGotTail i \<Longrightarrow> i = ring_head (shared s) \<Longrightarrow> ring_step s (s\<lparr>consumer := CIdle\<rparr>)"
| c_some: "consumer s = CGotTail i \<Longrightarrow> i \<noteq> ring_head (shared s) \<Longrightarrow> ring_step s (s\<lparr>consumer := CReady i\<rparr>)"
| c_read: "consumer s = CReady i \<Longrightarrow> slot_read i (buffer (shared s)) = Some (Some x) \<Longrightarrow>
    ring_step s (s\<lparr>consumer := CRead i x\<rparr>)"
| c_reset: "consumer s = CRead i x \<Longrightarrow> slot_write i None (buffer (shared s)) = Some buf \<Longrightarrow>
    ring_step s (s\<lparr>consumer := CReset i x, shared := (shared s)\<lparr>buffer := buf\<rparr>\<rparr>)"
| c_publish: "consumer s = CReset i x \<Longrightarrow>
    ring_step s (s\<lparr>consumer := CIdle, shared := (shared s)\<lparr>ring_tail := (i + 1) AND ring_mask (shared s)\<rparr>,
                   popped := popped s @ [x]\<rparr>)"

inductive ring_run :: "u64 \<Rightarrow> 'a RingThreads \<Rightarrow> bool" for capacity where
  init: "new_ring capacity = Some r \<Longrightarrow>
    ring_run capacity \<lparr>shared = r, producer = PIdle, consumer = CIdle, pushed = [], popped = []\<rparr>"
| step: "ring_run capacity s \<Longrightarrow> ring_step s s' \<Longrightarrow> ring_run capacity s'"

text \<open>The invariant, with \<open>xs\<close> the values pushed and not yet popped.\<close>

fun producer_ok :: "nat \<Rightarrow> 'a SpscRing \<Rightarrow> nat \<Rightarrow> 'a Producer \<Rightarrow> bool" where
  "producer_ok k r n PIdle = True"
| "producer_ok k r n (PGotHead v h) = (h = ring_head r)"
| "producer_ok k r n (PReady v h) = (h = ring_head r \<and> Suc n < 2 ^ k)"
| "producer_ok k r n (PWritten v h) = (h = ring_head r \<and> Suc n < 2 ^ k \<and> buffer r ! unat h = Some v)"

fun consumer_ok :: "'a SpscRing \<Rightarrow> 'a list \<Rightarrow> 'a Consumer \<Rightarrow> bool" where
  "consumer_ok r xs CIdle = True"
| "consumer_ok r xs (CGotTail i) = (i = ring_tail r)"
| "consumer_ok r xs (CReady i) = (i = ring_tail r \<and> xs \<noteq> [])"
| "consumer_ok r xs (CRead i x) = (i = ring_tail r \<and> xs \<noteq> [] \<and> x = hd xs)"
| "consumer_ok r xs (CReset i x) = (i = ring_tail r \<and> xs \<noteq> [] \<and> x = hd xs)"

fun taken :: "'a Consumer \<Rightarrow> nat" where
  "taken (CReset i x) = 1"
| "taken _ = 0"

definition threads_ok :: "nat \<Rightarrow> 'a RingThreads \<Rightarrow> 'a list \<Rightarrow> bool" where
  "threads_ok k s xs \<longleftrightarrow>
     pushed s = popped s @ xs \<and> ring_shape k (shared s) (length xs)
     \<and> (\<forall>i. taken (consumer s) \<le> i \<and> i < length xs \<longrightarrow>
          buffer (shared s) ! ring_index k (ring_tail (shared s)) i = Some (xs ! i))
     \<and> producer_ok k (shared s) (length xs) (producer s) \<and> consumer_ok (shared s) xs (consumer s)"

lemma shape_facts:
  assumes "ring_shape k r n"
  shows "length (buffer r) = 2 ^ k" "unat (ring_tail r) < 2 ^ k" "unat (ring_head r) = ring_index k (ring_tail r) n" "n < 2 ^ k"
  using assms by (simp_all add: ring_shape_def)

lemma head_is_free:
  assumes "ring_shape k r n" and "i < n"
  shows "ring_index k (ring_tail r) i \<noteq> unat (ring_head r)"
  using ring_index_inj [of k "ring_tail r" i n] shape_facts [OF assms(1)] assms(2) by auto

lemma room_seen:
  assumes "ring_shape k r n" and "(ring_head r + 1) AND ring_mask r \<noteq> ring_tail r"
  shows "Suc n < 2 ^ k"
proof (rule ccontr)
  assume "\<not> Suc n < 2 ^ k"
  then have "Suc n = 2 ^ k" using shape_facts(4) [OF assms(1)] by simp
  then have "unat ((ring_head r + 1) AND ring_mask r) = unat (ring_tail r)"
    using head_next [OF assms(1)] shape_facts(2) [OF assms(1)] by (simp add: ring_index_def)
  with assms(2) show False by (simp add: word_unat_eq_iff)
qed

lemma element_seen: "ring_shape k r n \<Longrightarrow> ring_tail r \<noteq> ring_head r \<Longrightarrow> n \<noteq> 0"
  by (cases "n = 0") (auto simp: ring_shape_def word_unat_eq_iff)

lemma producer_ok_mono:
  "producer_ok k r n p \<Longrightarrow> n' \<le> n \<Longrightarrow> ring_head r' = ring_head r \<Longrightarrow>
     buffer r' ! unat (ring_head r) = buffer r ! unat (ring_head r) \<Longrightarrow> producer_ok k r' n' p"
  by (cases p) auto

lemma consumer_ok_mono:
  "consumer_ok r xs c \<Longrightarrow> ring_tail r' = ring_tail r \<Longrightarrow> consumer_ok r' (xs @ ys) c"
  by (cases c) auto

lemma shape_upd [simp]:
  "length buf = length (buffer r) \<Longrightarrow> ring_shape k (r\<lparr>buffer := buf\<rparr>) n = ring_shape k r n"
  by (simp add: ring_shape_def)

lemma write_keeps:
  assumes ok: "threads_ok k s xs" and p: "producer s = PReady v h"
    and w: "slot_write h (Some v) (buffer (shared s)) = Some buf"
  shows "threads_ok k (s\<lparr>producer := PWritten v h, shared := (shared s)\<lparr>buffer := buf\<rparr>\<rparr>) xs"
proof -
  have sh: "ring_shape k (shared s) (length xs)" and h: "h = ring_head (shared s)" "Suc (length xs) < 2 ^ k"
    using ok p by (auto simp: threads_ok_def)
  have b: "buf = (buffer (shared s))[unat h := Some v]" "unat h < length (buffer (shared s))"
    using w by (auto simp: slot_write_def split: if_splits)
  then have "buf ! ring_index k (ring_tail (shared s)) i = buffer (shared s) ! ring_index k (ring_tail (shared s)) i"
    if "i < length xs" for i using head_is_free [OF sh that] h(1) by simp
  with ok b h show ?thesis
    using consumer_ok_mono [of "shared s" xs "consumer s" "(shared s)\<lparr>buffer := buf\<rparr>" "[]"] by (simp add: threads_ok_def)
qed

lemma publish_push_keeps:
  assumes ok: "threads_ok k s xs" and p: "producer s = PWritten v h"
  shows "threads_ok k (s\<lparr>producer := PIdle, shared := (shared s)\<lparr>ring_head := (h + 1) AND ring_mask (shared s)\<rparr>,
                   pushed := pushed s @ [v]\<rparr>) (xs @ [v])"
proof -
  have sh: "ring_shape k (shared s) (length xs)" and h: "h = ring_head (shared s)" "Suc (length xs) < 2 ^ k"
      "buffer (shared s) ! unat h = Some v"
    using ok p by (auto simp: threads_ok_def)
  have "ring_shape k ((shared s)\<lparr>ring_head := (h + 1) AND ring_mask (shared s)\<rparr>) (Suc (length xs))"
    using sh h head_next [OF sh] by (simp add: ring_shape_def)
  moreover have "buffer (shared s) ! ring_index k (ring_tail (shared s)) i = Some ((xs @ [v]) ! i)"
    if "taken (consumer s) \<le> i" "i < Suc (length xs)" for i
    using that ok h shape_facts(3) [OF sh] by (cases "i = length xs") (auto simp: threads_ok_def nth_append)
  moreover have "consumer_ok ((shared s)\<lparr>ring_head := (h + 1) AND ring_mask (shared s)\<rparr>) (xs @ [v]) (consumer s)"
    using ok consumer_ok_mono [of "shared s" xs "consumer s"] by (simp add: threads_ok_def)
  ultimately show ?thesis using ok by (simp add: threads_ok_def)
qed

lemma reset_keeps:
  assumes ok: "threads_ok k s xs" and c: "consumer s = CRead i x"
    and w: "slot_write i None (buffer (shared s)) = Some buf"
  shows "threads_ok k (s\<lparr>consumer := CReset i x, shared := (shared s)\<lparr>buffer := buf\<rparr>\<rparr>) xs"
proof -
  have sh: "ring_shape k (shared s) (length xs)" and i: "i = ring_tail (shared s)" "xs \<noteq> []" "x = hd xs"
    using ok c by (auto simp: threads_ok_def)
  have b: "buf = (buffer (shared s))[unat i := None]" using w by (auto simp: slot_write_def split: if_splits)
  have "buf ! ring_index k (ring_tail (shared s)) j = Some (xs ! j)" if "1 \<le> j" "j < length xs" for j
  proof -
    have "ring_index k (ring_tail (shared s)) j \<noteq> unat i"
      using ring_index_inj [of k "ring_tail (shared s)" j 0] that shape_facts [OF sh] i(1) by auto
    then show ?thesis using ok c that by (simp add: b threads_ok_def)
  qed
  moreover have "unat (ring_head (shared s)) \<noteq> unat i"
    using head_is_free [OF sh, of 0] i shape_facts(2) [OF sh] by auto
  then have "producer_ok k ((shared s)\<lparr>buffer := buf\<rparr>) (length xs) (producer s)"
    using ok producer_ok_mono [of k "shared s" "length xs" "producer s" "length xs"] by (simp add: threads_ok_def b)
  ultimately show ?thesis using ok i b by (simp add: threads_ok_def)
qed

lemma publish_pop_keeps:
  assumes ok: "threads_ok k s xs" and c: "consumer s = CReset i x"
  shows "threads_ok k (s\<lparr>consumer := CIdle, shared := (shared s)\<lparr>ring_tail := (i + 1) AND ring_mask (shared s)\<rparr>,
                   popped := popped s @ [x]\<rparr>) (tl xs)"
proof -
  have sh: "ring_shape k (shared s) (length xs)" and i: "i = ring_tail (shared s)"
    using ok c by (auto simp: threads_ok_def)
  obtain ys where ys: "xs = x # ys" using ok c by (cases xs) (auto simp: threads_ok_def)
  note nx = tail_next_index [OF sh, folded i]
  have "ring_shape k ((shared s)\<lparr>ring_tail := (i + 1) AND ring_mask (shared s)\<rparr>) (length ys)"
    using sh nx [of "length ys"] tail_next [OF sh] ys i by (simp add: ring_shape_def)
  moreover have "producer_ok k ((shared s)\<lparr>ring_tail := (i + 1) AND ring_mask (shared s)\<rparr>) (length ys) (producer s)"
    using ok producer_ok_mono [of k "shared s" "length xs" "producer s" "length ys"] ys by (simp add: threads_ok_def)
  ultimately show ?thesis using ok c by (simp add: threads_ok_def ys nx i [symmetric])
qed

lemma ring_step_keeps:
  assumes "ring_step s s'" and ok: "threads_ok k s xs"
  shows "\<exists>xs'. threads_ok k s' xs'"
  using assms(1)
proof cases
  case (p_room v h)
  moreover have "ring_shape k (shared s) (length xs)" using ok by (simp add: threads_ok_def)
  ultimately show ?thesis using ok room_seen by (auto simp: threads_ok_def)
next
  case (c_some i)
  moreover have "ring_shape k (shared s) (length xs)" using ok by (simp add: threads_ok_def)
  ultimately show ?thesis using ok element_seen by (fastforce simp: threads_ok_def)
next
  case (c_read i x)
  then have "x = hd xs" "xs \<noteq> []" "i = ring_tail (shared s)"
    using ok shape_facts(2) [of k "shared s"]
    by (auto simp: threads_ok_def slot_read_def hd_conv_nth split: if_splits dest!: spec [of _ 0])
  with c_read ok show ?thesis by (auto simp: threads_ok_def)
next
  case (p_load_head v)
  with ok show ?thesis by (auto simp: threads_ok_def)
next
  case (p_full v h)
  with ok show ?thesis by (auto simp: threads_ok_def)
next
  case (p_write v h buf)
  with write_keeps [OF ok] show ?thesis by blast
next
  case (p_publish v h)
  with publish_push_keeps [OF ok] show ?thesis by blast
next
  case c_load_tail
  with ok show ?thesis by (auto simp: threads_ok_def)
next
  case (c_empty i)
  with ok show ?thesis by (auto simp: threads_ok_def)
next
  case (c_reset i x buf)
  with reset_keeps [OF ok] show ?thesis by blast
next
  case (c_publish i x)
  with publish_pop_keeps [OF ok] show ?thesis by blast
qed

lemma ring_run_ok:
  assumes "ring_run capacity s"
  shows "\<exists>k xs. unat capacity = 2 ^ k \<and> threads_ok k s xs"
  using assms
proof (induction rule: ring_run.induct)
  case (init r)
  obtain k where k: "unat capacity - 1 = 2 ^ k - 1" "ring_shape k r 0"
    using new_ring_holds [OF init] by (auto simp: ring_holds_def)
  have "capacity \<noteq> 0" using init by (auto simp: new_ring_def)
  then have "0 < unat capacity" by (simp add: unat_gt_0)
  then have "unat capacity = 2 ^ k" using k(1) by (metis Suc_diff_1 zero_less_numeral zero_less_power)
  with k(2) have "unat capacity = 2 ^ k \<and> threads_ok k
      \<lparr>shared = r, producer = PIdle, consumer = CIdle, pushed = [], popped = []\<rparr> []" by (simp add: threads_ok_def)
  then show ?case by blast
next
  case (step s s')
  then show ?case using ring_step_keeps by blast
qed

section \<open>Properties of the ring\<close>

text \<open>
  C25. Under every interleaving of one producer with one consumer the ring is a FIFO queue: what has
  been popped is a prefix of what has been pushed, so that no value is lost, duplicated or
  reordered, and fewer values than slots are in the ring.
\<close>

theorem spsc_fifo:
  assumes "ring_run capacity s"
  shows "\<exists>xs. pushed s = popped s @ xs \<and> length xs < unat capacity"
proof -
  obtain k xs where "unat capacity = 2 ^ k" "threads_ok k s xs" using ring_run_ok [OF assms] by blast
  then show ?thesis using shape_facts(4) by (auto simp: threads_ok_def)
qed

text \<open>
  C26. No undefined behaviour and no data race: in every reachable state of the two threads, the slot
  the producer is about to write is inside the buffer, the slot the consumer is about to read holds
  a value, and while the producer may write its slot and the consumer may read or reset its slot,
  the two slots are different.
\<close>

theorem spsc_slots_safe:
  assumes "ring_run capacity s"
  shows "(\<forall>v h. producer s = PReady v h \<longrightarrow> unat h < length (buffer (shared s)))
    \<and> (\<forall>i. consumer s = CReady i \<longrightarrow> (\<exists>x. slot_read i (buffer (shared s)) = Some (Some x)))
    \<and> (\<forall>v h i x. producer s = PReady v h \<and> (consumer s = CReady i \<or> consumer s = CRead i x) \<longrightarrow> h \<noteq> i)"
proof -
  obtain k xs where ok: "threads_ok k s xs" using ring_run_ok [OF assms] by blast
  then have sh: "ring_shape k (shared s) (length xs)" by (simp add: threads_ok_def)
  note f = shape_facts [OF sh]
  have "buffer (shared s) ! unat (ring_tail (shared s)) = Some (hd xs)" if "consumer s = CReady i" for i
    using ok that f(2) by (auto simp: threads_ok_def hd_conv_nth dest!: spec [of _ 0])
  moreover have "ring_head (shared s) \<noteq> ring_tail (shared s)" if "xs \<noteq> []"
    using head_is_free [OF sh, of 0] f(2) that by auto
  ultimately show ?thesis using ok f by (auto simp: threads_ok_def slot_read_def)
qed

text \<open>A sample run: the producer has started to write its second value while the consumer reads the first.\<close>

lemma sample_ring_run:
  "\<exists>s :: nat RingThreads. ring_run 4 s \<and> producer s = PReady 8 1 \<and> consumer s = CReady 0 \<and> pushed s = [7]"
proof -
  define r where "r = \<lparr>buffer = replicate 4 (None :: nat option), ring_mask = 3, ring_head = 0, ring_tail = 0\<rparr>"
  define s0 where "s0 = \<lparr>shared = r, producer = PIdle, consumer = CIdle, pushed = [], popped = []\<rparr>"
  define s1 where "s1 = s0\<lparr>producer := PGotHead 7 0\<rparr>"
  define s2 where "s2 = s1\<lparr>producer := PReady 7 0\<rparr>"
  define s3 where "s3 = s2\<lparr>producer := PWritten 7 0, shared := r\<lparr>buffer := [Some 7, None, None, None]\<rparr>\<rparr>"
  define s4 where "s4 = s3\<lparr>producer := PIdle, shared := r\<lparr>buffer := [Some 7, None, None, None], ring_head := 1\<rparr>, pushed := [7]\<rparr>"
  define s5 where "s5 = s4\<lparr>producer := PGotHead 8 1\<rparr>"
  define s6 where "s6 = s5\<lparr>producer := PReady 8 1\<rparr>"
  define s7 where "s7 = s6\<lparr>consumer := CGotTail 0\<rparr>"
  define s8 where "s8 = s7\<lparr>consumer := CReady 0\<rparr>"
  note defs = r_def s0_def s1_def s2_def s3_def s4_def s5_def s6_def s7_def s8_def
  have new: "new_ring 4 = Some r" unfolding r_def by code_simp
  have "ring_run 4 s0" unfolding s0_def by (rule ring_run.init [OF new])
  then have "ring_run 4 s1" by (rule ring_run.step) (use ring_step.p_load_head [of s0 7] in \<open>simp add: defs\<close>)
  then have "ring_run 4 s2" by (rule ring_run.step) (use ring_step.p_room [of s1 7 0] in \<open>simp add: defs\<close>)
  then have "ring_run 4 s3"
    by (rule ring_run.step) (use ring_step.p_write [of s2 7 0] in \<open>simp add: defs slot_write_def eval_nat_numeral\<close>)
  then have "ring_run 4 s4" by (rule ring_run.step) (use ring_step.p_publish [of s3 7 0] in \<open>simp add: defs\<close>)
  then have "ring_run 4 s5" by (rule ring_run.step) (use ring_step.p_load_head [of s4 8] in \<open>simp add: defs\<close>)
  then have "ring_run 4 s6" by (rule ring_run.step) (use ring_step.p_room [of s5 8 1] in \<open>simp add: defs\<close>)
  then have "ring_run 4 s7" by (rule ring_run.step) (use ring_step.c_load_tail [of s6] in \<open>simp add: defs\<close>)
  then have "ring_run 4 s8" by (rule ring_run.step) (use ring_step.c_some [of s7 0] in \<open>simp add: defs\<close>)
  moreover have "producer s8 = PReady 8 1" "consumer s8 = CReady 0" "pushed s8 = [7]" by (simp_all add: defs)
  ultimately show ?thesis by blast
qed

theorem spsc_fifo_witness:
  "\<exists>s :: nat RingThreads. ring_run 4 s \<and> pushed s = [7] \<and> (\<exists>xs. pushed s = popped s @ xs \<and> length xs < unat (4 :: u64))"
  using sample_ring_run spsc_fifo by blast

theorem spsc_slots_safe_witness:
  "\<exists>s :: nat RingThreads. ring_run 4 s \<and> producer s = PReady 8 1 \<and> consumer s = CReady 0
     \<and> (\<exists>x. slot_read 0 (buffer (shared s)) = Some (Some x)) \<and> (1 :: u64) \<noteq> 0"
  using sample_ring_run spsc_slots_safe [of 4] by blast

text \<open>
  Called from one thread, the ring refuses exactly when it is full and returns what it was given:
  a ring of the given capacity takes one value less than it has slots, and popping until it is
  empty gives them back in order.
\<close>

theorem ring_round_trip:
  assumes "new_ring capacity = Some r" and "length vs < unat capacity"
  shows "\<exists>r1 r2. push_all ring_push vs r = Some (replicate (length vs) True, r1)
           \<and> drain ring_pop r1 = Some (vs, r2) \<and> ring_empty r2
           \<and> (Suc (length vs) = unat capacity \<longrightarrow> (\<forall>v. ring_push v r1 = Some (False, r1)))"
proof -
  let ?n = "unat capacity - 1"
  have "length vs \<le> ?n" using assms(2) by simp
  then obtain r1 where r1: "push_all ring_push vs r = Some (replicate (length vs) True, r1)" "ring_holds ?n r1 vs"
    using ring.push_all_holds [OF new_ring_holds [OF assms(1)], of vs] by auto
  obtain r2 where r2: "drain ring_pop r1 = Some (vs, r2)" "ring_holds ?n r2 []"
    using ring.drain_holds [OF r1(2)] by blast
  have "ring_empty r2"
    using r2(2) by (auto simp: ring_empty_def ring_holds_def ring_shape_def word_unat_eq_iff)
  moreover have "ring_push v r1 = Some (False, r1)" if "Suc (length vs) = unat capacity" for v
    using ring.push_full [OF r1(2)] that by simp
  ultimately show ?thesis using r1(1) r2(1) by blast
qed

theorem ring_round_trip_witness:
  "\<exists>r r1 r2. new_ring 4 = Some r \<and> push_all ring_push [1, 2, 3 :: nat] r = Some ([True, True, True], r1)
     \<and> drain ring_pop r1 = Some ([1, 2, 3], r2)"
proof -
  have "case (new_ring 4 :: nat SpscRing option) of None \<Rightarrow> False | Some _ \<Rightarrow> True" by code_simp
  then obtain r :: "nat SpscRing" where r: "new_ring 4 = Some r" by (auto split: option.splits)
  have "length [1, 2, 3 :: nat] < unat (4 :: u64)" "replicate (length [1, 2, 3 :: nat]) True = [True, True, True]"
    by code_simp+
  with ring_round_trip [OF r, of "[1, 2, 3]"] r show ?thesis by metis
qed

end
