(* ===== verification/Ingress.thy ===== *)
theory Ingress
  imports Wire Spsc_Ring
begin

text \<open>
  The ingress pipeline (\<open>libs/ingest/ingress_pipeline\<close>): a frame is authenticated by a verifier that
  the client supplies (a parameter here), limited per account and message kind within one-second
  windows, and put into the ring of its kind, from which the event loop takes it. The pipeline is
  shown to implement three bounded FIFO queues with its admission rules, through the contract of
  the ring.
\<close>

section \<open>State\<close>

record IngressConfig =
  new_order_queue_depth :: u64
  cancel_queue_depth :: u64
  replace_queue_depth :: u64
  max_new_orders_per_second :: u32
  max_cancels_per_second :: u32
  max_replaces_per_second :: u32

record IngressStats =
  st_accepted :: u64
  rejected_auth :: u64
  rejected_rate_limit :: u64
  rejected_queue_full :: u64
  dropped_heartbeats :: u64

record AccountWindow =
  window_start :: int
  w_new_orders :: u32
  w_cancels :: u32
  w_replaces :: u32

type_synonym AuthVerifier = "FrameHeader \<Rightarrow> bytes \<Rightarrow> bool"

record IngressPipeline =
  ip_config :: IngressConfig
  verifier :: "AuthVerifier option"
  ip_stats :: IngressStats
  rate_windows :: "AccountId \<rightharpoonup> AccountWindow"
  new_orders_ring :: "OwnedFrame SpscRing"
  cancels_ring :: "OwnedFrame SpscRing"
  replaces_ring :: "OwnedFrame SpscRing"

definition kOneSecondNs :: int where "kOneSecondNs = 1000000000"

definition zero_stats :: IngressStats where
  "zero_stats = \<lparr>st_accepted = 0, rejected_auth = 0, rejected_rate_limit = 0, rejected_queue_full = 0,
     dropped_heartbeats = 0\<rparr>"

definition new_window :: AccountWindow where
  "new_window = \<lparr>window_start = 0, w_new_orders = 0, w_cancels = 0, w_replaces = 0\<rparr>"

definition default_ingress_config :: IngressConfig where
  "default_ingress_config = \<lparr>new_order_queue_depth = 4096, cancel_queue_depth = 4096, replace_queue_depth = 4096,
     max_new_orders_per_second = 10000, max_cancels_per_second = 20000, max_replaces_per_second = 20000\<rparr>"

text \<open>The constructor; the rings have the default depth, a power of two.\<close>

definition new_ingress :: "IngressPipeline option" where
  "new_ingress = do {
     r1 \<leftarrow> new_ring 4096;
     r2 \<leftarrow> new_ring 4096;
     r3 \<leftarrow> new_ring 4096;
     Some \<lparr>ip_config = default_ingress_config, verifier = None, ip_stats = zero_stats, rate_windows = Map.empty,
           new_orders_ring = r1, cancels_ring = r2, replaces_ring = r3\<rparr>
   }"

text \<open>
  \<open>configure\<close> throws when a queue depth is not a power of two; the members assigned before the
  exception keep their new values. The first component tells whether it returned.
\<close>

definition configure :: "IngressConfig \<Rightarrow> AuthVerifier option \<Rightarrow> IngressPipeline \<Rightarrow> bool \<times> IngressPipeline" where
  "configure config ver p =
     (let p1 = p\<lparr>ip_config := config, verifier := ver\<rparr>
      in case new_ring (new_order_queue_depth config) of None \<Rightarrow> (False, p1) | Some r1 \<Rightarrow>
       (let p2 = p1\<lparr>new_orders_ring := r1\<rparr>
        in case new_ring (cancel_queue_depth config) of None \<Rightarrow> (False, p2) | Some r2 \<Rightarrow>
         (let p3 = p2\<lparr>cancels_ring := r2\<rparr>
          in case new_ring (replace_queue_depth config) of None \<Rightarrow> (False, p3) | Some r3 \<Rightarrow>
            (True, p3\<lparr>replaces_ring := r3, rate_windows := Map.empty, ip_stats := zero_stats\<rparr>))))"

section \<open>Admission\<close>

text \<open>\<open>rate_limit\<close>: whether the frame is over the limit, and the window afterwards.\<close>

definition rate_limit :: "IngressConfig \<Rightarrow> MessageKind \<Rightarrow> int \<Rightarrow> AccountWindow \<Rightarrow> bool \<times> AccountWindow" where
  "rate_limit config kind timestamp window =
     (let w = (if i64 (timestamp - window_start window) \<ge> kOneSecondNs
               then \<lparr>window_start = timestamp, w_new_orders = 0, w_cancels = 0, w_replaces = 0\<rparr>
               else window)
      in case kind of
        kNewOrder \<Rightarrow> if w_new_orders w \<ge> max_new_orders_per_second config then (True, w)
                      else (False, w\<lparr>w_new_orders := w_new_orders w + 1\<rparr>)
      | kCancel \<Rightarrow> if w_cancels w \<ge> max_cancels_per_second config then (True, w)
                    else (False, w\<lparr>w_cancels := w_cancels w + 1\<rparr>)
      | kReplace \<Rightarrow> if w_replaces w \<ge> max_replaces_per_second config then (True, w)
                     else (False, w\<lparr>w_replaces := w_replaces w + 1\<rparr>)
      | kHeartbeat \<Rightarrow> (False, w))"

text \<open>The switch of \<open>submit\<close> over the kinds: push the frame into its ring.\<close>

definition push_frame :: "OwnedFrame \<Rightarrow> IngressPipeline \<Rightarrow> (bool \<times> IngressPipeline) option" where
  "push_frame f p =
     (case fh_kind (fr_header f) of
        kNewOrder \<Rightarrow> do { (ok, r) \<leftarrow> ring_push f (new_orders_ring p); Some (ok, p\<lparr>new_orders_ring := r\<rparr>) }
      | kCancel \<Rightarrow> do { (ok, r) \<leftarrow> ring_push f (cancels_ring p); Some (ok, p\<lparr>cancels_ring := r\<rparr>) }
      | kReplace \<Rightarrow> do { (ok, r) \<leftarrow> ring_push f (replaces_ring p); Some (ok, p\<lparr>replaces_ring := r\<rparr>) }
      | kHeartbeat \<Rightarrow> Some (False, p))"

definition bump :: "(IngressStats \<Rightarrow> IngressStats) \<Rightarrow> IngressPipeline \<Rightarrow> IngressPipeline" where
  "bump f p = p\<lparr>ip_stats := f (ip_stats p)\<rparr>"

definition window_of :: "AccountId \<Rightarrow> IngressPipeline \<Rightarrow> AccountWindow" where
  "window_of a p = (case rate_windows p a of None \<Rightarrow> new_window | Some w \<Rightarrow> w)"

text \<open>\<open>None\<close> would be undefined behaviour inside a ring.\<close>

definition ingress_submit :: "OwnedFrame \<Rightarrow> IngressPipeline \<Rightarrow> (bool \<times> IngressPipeline) option" where
  "ingress_submit f p =
     (let h = fr_header f in
      if fh_kind h = kHeartbeat
      then Some (True, bump (\<lambda>s. s\<lparr>dropped_heartbeats := dropped_heartbeats s + 1\<rparr>) p)
      else if (case verifier p of None \<Rightarrow> False | Some v \<Rightarrow> \<not> v h (fr_payload f))
      then Some (False, bump (\<lambda>s. s\<lparr>rejected_auth := rejected_auth s + 1\<rparr>) p)
      else
        (let (limited, w) = rate_limit (ip_config p) (fh_kind h) (received_time_ns h) (window_of (fh_account h) p);
             p1 = p\<lparr>rate_windows := (rate_windows p)(fh_account h \<mapsto> w)\<rparr>
         in if limited
            then Some (False, bump (\<lambda>s. s\<lparr>rejected_rate_limit := rejected_rate_limit s + 1\<rparr>) p1)
            else do {
              (pushed, p2) \<leftarrow> push_frame f p1;
              if \<not> pushed
              then Some (False, bump (\<lambda>s. s\<lparr>rejected_queue_full := rejected_queue_full s + 1\<rparr>) p2)
              else Some (True, bump (\<lambda>s. s\<lparr>st_accepted := st_accepted s + 1\<rparr>) p2)
            }))"

definition next_new_order :: "IngressPipeline \<Rightarrow> (OwnedFrame option \<times> IngressPipeline) option" where
  "next_new_order p = do { (out, r) \<leftarrow> ring_pop (new_orders_ring p); Some (out, p\<lparr>new_orders_ring := r\<rparr>) }"

definition next_cancel :: "IngressPipeline \<Rightarrow> (OwnedFrame option \<times> IngressPipeline) option" where
  "next_cancel p = do { (out, r) \<leftarrow> ring_pop (cancels_ring p); Some (out, p\<lparr>cancels_ring := r\<rparr>) }"

definition next_replace :: "IngressPipeline \<Rightarrow> (OwnedFrame option \<times> IngressPipeline) option" where
  "next_replace p = do { (out, r) \<leftarrow> ring_pop (replaces_ring p); Some (out, p\<lparr>replaces_ring := r\<rparr>) }"

definition reset_stats :: "IngressPipeline \<Rightarrow> IngressPipeline" where
  "reset_stats p = p\<lparr>ip_stats := zero_stats\<rparr>"

section \<open>Calls as steps\<close>

datatype IngressOp = SubmitFrame OwnedFrame | NextNewOrder | NextCancel | NextReplace | ResetStats
datatype IngressOut = Submitted bool | Popped "OwnedFrame option" | StatsReset

fun ingress_step :: "IngressOp \<Rightarrow> IngressPipeline \<Rightarrow> (IngressOut \<times> IngressPipeline) option" where
  "ingress_step (SubmitFrame f) p = map_option (map_prod Submitted id) (ingress_submit f p)"
| "ingress_step NextNewOrder p = map_option (map_prod Popped id) (next_new_order p)"
| "ingress_step NextCancel p = map_option (map_prod Popped id) (next_cancel p)"
| "ingress_step NextReplace p = map_option (map_prod Popped id) (next_replace p)"
| "ingress_step ResetStats p = Some (StatsReset, reset_stats p)"

section \<open>The specification: three lists\<close>

record IngressSpec =
  is_config :: IngressConfig
  is_verifier :: "AuthVerifier option"
  is_windows :: "AccountId \<rightharpoonup> AccountWindow"
  is_room :: "MessageKind \<Rightarrow> nat"
  is_lane :: "MessageKind \<Rightarrow> OwnedFrame list"

text \<open>The admission rule: a frame is enqueued when it is authentic, within the limit, and fits.\<close>

definition spec_window :: "AccountId \<Rightarrow> IngressSpec \<Rightarrow> AccountWindow" where
  "spec_window a s = (case is_windows s a of None \<Rightarrow> new_window | Some w \<Rightarrow> w)"

definition authentic :: "OwnedFrame \<Rightarrow> IngressSpec \<Rightarrow> bool" where
  "authentic f s = (case is_verifier s of None \<Rightarrow> True | Some v \<Rightarrow> v (fr_header f) (fr_payload f))"

definition spec_submit :: "OwnedFrame \<Rightarrow> IngressSpec \<Rightarrow> bool \<times> IngressSpec" where
  "spec_submit f s =
     (let h = fr_header f; k = fh_kind h in
      if k = kHeartbeat then (True, s)
      else if \<not> authentic f s then (False, s)
      else
        (let (limited, w) = rate_limit (is_config s) k (received_time_ns h) (spec_window (fh_account h) s);
             s1 = s\<lparr>is_windows := (is_windows s)(fh_account h \<mapsto> w)\<rparr>
         in if limited \<or> \<not> length (is_lane s k) < is_room s k then (False, s1)
            else (True, s1\<lparr>is_lane := (is_lane s)(k := is_lane s k @ [f])\<rparr>)))"

definition spec_next :: "MessageKind \<Rightarrow> IngressSpec \<Rightarrow> OwnedFrame option \<times> IngressSpec" where
  "spec_next k s =
     (case is_lane s k of [] \<Rightarrow> None | f # _ \<Rightarrow> Some f, s\<lparr>is_lane := (is_lane s)(k := tl (is_lane s k))\<rparr>)"

fun spec_step :: "IngressOp \<Rightarrow> IngressSpec \<Rightarrow> IngressOut \<times> IngressSpec" where
  "spec_step (SubmitFrame f) s = map_prod Submitted id (spec_submit f s)"
| "spec_step NextNewOrder s = map_prod Popped id (spec_next kNewOrder s)"
| "spec_step NextCancel s = map_prod Popped id (spec_next kCancel s)"
| "spec_step NextReplace s = map_prod Popped id (spec_next kReplace s)"
| "spec_step ResetStats s = (StatsReset, s)"

definition ingress_rep :: "IngressPipeline \<Rightarrow> IngressSpec \<Rightarrow> bool" where
  "ingress_rep p s \<longleftrightarrow>
     ip_config p = is_config s \<and> verifier p = is_verifier s \<and> rate_windows p = is_windows s
     \<and> ring_holds (is_room s kNewOrder) (new_orders_ring p) (is_lane s kNewOrder)
     \<and> ring_holds (is_room s kCancel) (cancels_ring p) (is_lane s kCancel)
     \<and> ring_holds (is_room s kReplace) (replaces_ring p) (is_lane s kReplace)"

lemma bump_rep [simp]: "ingress_rep (bump f p) s = ingress_rep p s"
  by (simp add: ingress_rep_def bump_def)

lemma window_rep: "ingress_rep p s \<Longrightarrow> window_of a p = spec_window a s"
  by (simp add: ingress_rep_def window_of_def spec_window_def)

lemma push_frame_rep:
  assumes "ingress_rep p s" and "fh_kind (fr_header f) = k" and "k \<noteq> kHeartbeat"
  shows "\<exists>p'. push_frame f p = Some (length (is_lane s k) < is_room s k, p')
    \<and> ingress_rep p' (s\<lparr>is_lane := (is_lane s)(k := if length (is_lane s k) < is_room s k
         then is_lane s k @ [f] else is_lane s k)\<rparr>)"
proof (cases k)
  case kNewOrder
  have "ring_holds (is_room s kNewOrder) (new_orders_ring p) (is_lane s kNewOrder)"
    using assms(1) by (simp add: ingress_rep_def)
  from ring.push_result [OF this, of f] kNewOrder assms show ?thesis by (auto simp: push_frame_def ingress_rep_def)
next
  case kCancel
  have "ring_holds (is_room s kCancel) (cancels_ring p) (is_lane s kCancel)"
    using assms(1) by (simp add: ingress_rep_def)
  from ring.push_result [OF this, of f] kCancel assms show ?thesis by (auto simp: push_frame_def ingress_rep_def)
next
  case kReplace
  have "ring_holds (is_room s kReplace) (replaces_ring p) (is_lane s kReplace)"
    using assms(1) by (simp add: ingress_rep_def)
  from ring.push_result [OF this, of f] kReplace assms show ?thesis by (auto simp: push_frame_def ingress_rep_def)
qed (use assms in simp)

lemma ingress_rep_window:
  "ingress_rep p s \<Longrightarrow> ingress_rep (p\<lparr>rate_windows := (rate_windows p)(a \<mapsto> w)\<rparr>) (s\<lparr>is_windows := (is_windows s)(a \<mapsto> w)\<rparr>)"
  by (simp add: ingress_rep_def)

lemma ingress_submit_rep:
  assumes rep: "ingress_rep p s"
  shows "\<exists>p'. ingress_submit f p = Some (fst (spec_submit f s), p') \<and> ingress_rep p' (snd (spec_submit f s))"
proof -
  let ?h = "fr_header f"
  let ?k = "fh_kind (fr_header f)"
  have auth: "(case verifier p of None \<Rightarrow> False | Some v \<Rightarrow> \<not> v ?h (fr_payload f)) \<longleftrightarrow> \<not> authentic f s"
    using rep by (simp add: ingress_rep_def authentic_def split: option.splits)
  obtain limited w where lw: "rate_limit (is_config s) ?k (received_time_ns ?h) (spec_window (fh_account ?h) s) = (limited, w)"
    by (metis surj_pair)
  have lwp: "rate_limit (ip_config p) ?k (received_time_ns ?h) (window_of (fh_account ?h) p) = (limited, w)"
    using lw rep window_rep [OF rep] by (simp add: ingress_rep_def)
  let ?p1 = "p\<lparr>rate_windows := (rate_windows p)(fh_account ?h \<mapsto> w)\<rparr>"
  let ?s1 = "s\<lparr>is_windows := (is_windows s)(fh_account ?h \<mapsto> w)\<rparr>"
  have rep1: "ingress_rep ?p1 ?s1" by (rule ingress_rep_window [OF rep])
  show ?thesis
  proof (cases "?k = kHeartbeat \<or> \<not> authentic f s \<or> limited")
    case True
    then show ?thesis using rep rep1 auth lw lwp by (auto simp: ingress_submit_def spec_submit_def Let_def)
  next
    case False
    obtain p2 where p2: "push_frame f ?p1 = Some (length (is_lane s ?k) < is_room s ?k, p2)"
      "ingress_rep p2 (?s1\<lparr>is_lane := (is_lane s)(?k := if length (is_lane s ?k) < is_room s ?k
         then is_lane s ?k @ [f] else is_lane s ?k)\<rparr>)"
      using push_frame_rep [OF rep1, of f ?k] False by (cases "length (is_lane s ?k) < is_room s ?k") auto
    with False auth lw lwp show ?thesis
      by (cases "length (is_lane s ?k) < is_room s ?k") (auto simp: ingress_submit_def spec_submit_def Let_def)
  qed
qed

lemma ingress_next_rep:
  assumes "ingress_rep p s"
  shows "\<exists>p'. next_new_order p = Some (fst (spec_next kNewOrder s), p') \<and> ingress_rep p' (snd (spec_next kNewOrder s))"
    "\<exists>p'. next_cancel p = Some (fst (spec_next kCancel s), p') \<and> ingress_rep p' (snd (spec_next kCancel s))"
    "\<exists>p'. next_replace p = Some (fst (spec_next kReplace s), p') \<and> ingress_rep p' (snd (spec_next kReplace s))"
proof -
  have r: "ring_holds (is_room s kNewOrder) (new_orders_ring p) (is_lane s kNewOrder)"
    "ring_holds (is_room s kCancel) (cancels_ring p) (is_lane s kCancel)"
    "ring_holds (is_room s kReplace) (replaces_ring p) (is_lane s kReplace)"
    using assms by (simp_all add: ingress_rep_def)
  from ring.pop_result [OF r(1)] assms
  show "\<exists>p'. next_new_order p = Some (fst (spec_next kNewOrder s), p') \<and> ingress_rep p' (snd (spec_next kNewOrder s))"
    by (auto simp: next_new_order_def spec_next_def ingress_rep_def)
  from ring.pop_result [OF r(2)] assms
  show "\<exists>p'. next_cancel p = Some (fst (spec_next kCancel s), p') \<and> ingress_rep p' (snd (spec_next kCancel s))"
    by (auto simp: next_cancel_def spec_next_def ingress_rep_def)
  from ring.pop_result [OF r(3)] assms
  show "\<exists>p'. next_replace p = Some (fst (spec_next kReplace s), p') \<and> ingress_rep p' (snd (spec_next kReplace s))"
    by (auto simp: next_replace_def spec_next_def ingress_rep_def)
qed

interpretation ingress: simulation ingress_rep ingress_step spec_step "\<lambda>_. True"
proof unfold_locales
  fix p s op
  assume rep: "ingress_rep p s"
  show "\<exists>p'. ingress_step op p = Some (fst (spec_step op s), p') \<and> ingress_rep p' (snd (spec_step op s))"
  proof (cases op)
    case (SubmitFrame f)
    with ingress_submit_rep [OF rep, of f] show ?thesis by auto
  next
    case ResetStats
    with rep show ?thesis by (simp add: reset_stats_def ingress_rep_def)
  qed (use ingress_next_rep [OF rep] in auto)
qed

text \<open>A configured pipeline is empty, with one place less than the depth in every queue.\<close>

definition fresh_spec :: "IngressConfig \<Rightarrow> AuthVerifier option \<Rightarrow> IngressSpec" where
  "fresh_spec config ver =
     \<lparr>is_config = config, is_verifier = ver, is_windows = Map.empty,
      is_room = (\<lambda>k. case k of kNewOrder \<Rightarrow> unat (new_order_queue_depth config) - 1
                  | kCancel \<Rightarrow> unat (cancel_queue_depth config) - 1
                  | kReplace \<Rightarrow> unat (replace_queue_depth config) - 1 | kHeartbeat \<Rightarrow> 0),
      is_lane = (\<lambda>_. [])\<rparr>"

lemma configure_rep:
  assumes "configure config ver p = (True, p')"
  shows "ingress_rep p' (fresh_spec config ver)"
  using assms
  by (auto simp: configure_def ingress_rep_def fresh_spec_def Let_def split: option.splits
      dest: new_ring_holds [unfolded One_nat_def])

section \<open>What goes in comes out in order\<close>

fun submitted :: "MessageKind \<Rightarrow> IngressOp list \<Rightarrow> IngressOut list \<Rightarrow> OwnedFrame list" where
  "submitted k (SubmitFrame f # ops) (Submitted ok # outs) =
     (if ok \<and> fh_kind (fr_header f) = k then [f] else []) @ submitted k ops outs"
| "submitted k (_ # ops) (_ # outs) = submitted k ops outs"
| "submitted k _ _ = []"

fun op_lane :: "IngressOp \<Rightarrow> MessageKind" where
  "op_lane NextNewOrder = kNewOrder"
| "op_lane NextCancel = kCancel"
| "op_lane NextReplace = kReplace"
| "op_lane _ = kHeartbeat"

fun delivered :: "MessageKind \<Rightarrow> IngressOp list \<Rightarrow> IngressOut list \<Rightarrow> OwnedFrame list" where
  "delivered k (op # ops) (Popped (Some f) # outs) = (if op_lane op = k then [f] else []) @ delivered k ops outs"
| "delivered k (_ # ops) (_ # outs) = delivered k ops outs"
| "delivered k _ _ = []"

lemma spec_next_lane:
  "spec_next k' s = (out, s') \<Longrightarrow>
     is_lane s k = (case out of None \<Rightarrow> [] | Some f \<Rightarrow> if k = k' then [f] else []) @ is_lane s' k"
  by (cases "is_lane s k'") (auto simp: spec_next_def)

lemma spec_submit_lane:
  "spec_submit f s = (ok, s') \<Longrightarrow> k \<noteq> kHeartbeat \<Longrightarrow>
     is_lane s' k = is_lane s k @ (if ok \<and> fh_kind (fr_header f) = k then [f] else [])"
  by (auto simp: spec_submit_def Let_def split: if_splits prod.splits)

lemma lanes_conserve:
  "run_spec spec_step ops s = (outs, s') \<Longrightarrow> k \<noteq> kHeartbeat \<Longrightarrow>
     is_lane s k @ submitted k ops outs = delivered k ops outs @ is_lane s' k"
proof (induction ops arbitrary: s outs)
  case Nil
  then show ?case by simp
next
  case (Cons op ops)
  obtain out s1 outs1 where st: "spec_step op s = (out, s1)" "run_spec spec_step ops s1 = (outs1, s')" "outs = out # outs1"
    using Cons.prems(1) by (auto simp: Let_def split: prod.splits)
  note IH = Cons.IH [OF st(2) Cons.prems(2)]
  show ?case
  proof (cases op)
    case (SubmitFrame f)
    then obtain ok where ok: "spec_submit f s = (ok, s1)" "out = Submitted ok" using st(1) by (cases "spec_submit f s") auto
    from spec_submit_lane [OF ok(1) Cons.prems(2)] IH show ?thesis by (simp add: SubmitFrame ok(2) st(3))
  next
    case ResetStats
    with st IH show ?thesis by auto
  next
    case NextNewOrder
    then obtain o1 where o1: "spec_next kNewOrder s = (o1, s1)" "out = Popped o1" using st(1) by (cases "spec_next kNewOrder s") auto
    from spec_next_lane [OF o1(1), of k] IH show ?thesis by (cases o1) (auto simp: NextNewOrder o1(2) st(3))
  next
    case NextCancel
    then obtain o1 where o1: "spec_next kCancel s = (o1, s1)" "out = Popped o1" using st(1) by (cases "spec_next kCancel s") auto
    from spec_next_lane [OF o1(1), of k] IH show ?thesis by (cases o1) (auto simp: NextCancel o1(2) st(3))
  next
    case NextReplace
    then obtain o1 where o1: "spec_next kReplace s = (o1, s1)" "out = Popped o1" using st(1) by (cases "spec_next kReplace s") auto
    from spec_next_lane [OF o1(1), of k] IH show ?thesis by (cases o1) (auto simp: NextReplace o1(2) st(3))
  qed
qed

lemma spec_run_room: "run_spec spec_step ops s = (outs, s') \<Longrightarrow> is_room s' = is_room s"
proof (induction ops arbitrary: s outs)
  case Nil
  then show ?case by simp
next
  case (Cons op ops)
  have "is_room (snd (spec_step op s)) = is_room s"
    by (cases op) (auto simp: spec_submit_def spec_next_def Let_def split: prod.splits)
  with Cons show ?case by (auto simp: Let_def split: prod.splits)
qed

text \<open>
  C28. The pipeline delivers what it accepts: on a configured pipeline, for any sequence of submissions
  and fetches, every call returns, and in each of the three lanes the delivered frames followed by
  the frames still queued are exactly the accepted frames of that kind, in the order of submission;
  a lane never queues more than its depth less one.
\<close>

theorem ingress_lanes_fifo:
  assumes "configure config ver p = (True, p')"
  shows "\<exists>outs p'' queued. run_impl ingress_step ops p' = Some (outs, p'')
    \<and> (\<forall>k. k \<noteq> kHeartbeat \<longrightarrow> submitted k ops outs = delivered k ops outs @ queued k
        \<and> length (queued k) \<le> is_room (fresh_spec config ver) k)"
proof -
  let ?s = "fresh_spec config ver"
  obtain outs s' where rs: "run_spec spec_step ops ?s = (outs, s')" by (cases "run_spec spec_step ops ?s")
  obtain p'' where r: "run_impl ingress_step ops p' = Some (outs, p'')" "ingress_rep p'' s'"
    using ingress.run_refines [OF configure_rep [OF assms], of ops] rs by (auto simp: list_all_iff)
  have "length (is_lane s' k) \<le> is_room ?s k" if "k \<noteq> kHeartbeat" for k
    using r(2) that spec_run_room [OF rs] ring.bound by (cases k) (auto simp: ingress_rep_def)
  moreover have "submitted k ops outs = delivered k ops outs @ is_lane s' k" if "k \<noteq> kHeartbeat" for k
    using lanes_conserve [OF rs that] by (simp add: fresh_spec_def)
  ultimately show ?thesis using r(1) by blast
qed

definition sample_ingress_config :: IngressConfig where
  "sample_ingress_config = \<lparr>new_order_queue_depth = 4, cancel_queue_depth = 4, replace_queue_depth = 4,
     max_new_orders_per_second = 2, max_cancels_per_second = 2, max_replaces_per_second = 2\<rparr>"

definition sample_frame :: "MessageKind \<Rightarrow> u64 \<Rightarrow> int \<Rightarrow> OwnedFrame" where
  "sample_frame k n ts = \<lparr>fr_header = \<lparr>fh_account = 9, fh_nonce = n, received_time_ns = ts, priority = 0, fh_kind = k\<rparr>,
     fr_payload = []\<rparr>"

lemma sample_pipeline:
  obtains p p' where "new_ingress = Some p" "configure sample_ingress_config None p = (True, p')"
proof -
  have "(new_ring 4096 :: OwnedFrame SpscRing option) \<noteq> None" "(new_ring 4 :: OwnedFrame SpscRing option) \<noteq> None"
    by (simp_all add: new_ring_def)
  then obtain r q where "(new_ring 4096 :: OwnedFrame SpscRing option) = Some r" "(new_ring 4 :: OwnedFrame SpscRing option) = Some q"
    by auto
  then show ?thesis
    using that by (auto simp: new_ingress_def configure_def sample_ingress_config_def Let_def)
qed

theorem ingress_lanes_fifo_witness:
  "\<exists>p p' outs p'' queued. configure sample_ingress_config None p = (True, p')
     \<and> run_impl ingress_step [SubmitFrame (sample_frame kNewOrder 1 5), NextNewOrder, NextNewOrder] p' = Some (outs, p'')
     \<and> submitted kNewOrder [SubmitFrame (sample_frame kNewOrder 1 5), NextNewOrder, NextNewOrder] outs
       = delivered kNewOrder [SubmitFrame (sample_frame kNewOrder 1 5), NextNewOrder, NextNewOrder] outs @ queued"
  using sample_pipeline ingress_lanes_fifo [of sample_ingress_config None _ _
      "[SubmitFrame (sample_frame kNewOrder 1 5), NextNewOrder, NextNewOrder]"]
  by (metis MessageKind.distinct(5))

section \<open>Rate limits\<close>

definition kind_count :: "MessageKind \<Rightarrow> AccountWindow \<Rightarrow> nat" where
  "kind_count k w = (case k of kNewOrder \<Rightarrow> unat (w_new_orders w) | kCancel \<Rightarrow> unat (w_cancels w)
     | kReplace \<Rightarrow> unat (w_replaces w) | kHeartbeat \<Rightarrow> 0)"

definition kind_limit :: "MessageKind \<Rightarrow> IngressConfig \<Rightarrow> nat" where
  "kind_limit k c = (case k of kNewOrder \<Rightarrow> unat (max_new_orders_per_second c) | kCancel \<Rightarrow> unat (max_cancels_per_second c)
     | kReplace \<Rightarrow> unat (max_replaces_per_second c) | kHeartbeat \<Rightarrow> 0)"

text \<open>The frames of one account and kind that were accepted.\<close>

definition accepted_frames :: "AccountId \<Rightarrow> MessageKind \<Rightarrow> OwnedFrame list \<Rightarrow> bool list \<Rightarrow> nat" where
  "accepted_frames a k fs oks =
     length (filter (\<lambda>(f, ok). ok \<and> fh_account (fr_header f) = a \<and> fh_kind (fr_header f) = k) (zip fs oks))"

lemma unat_inc: "\<not> w \<ge> m \<Longrightarrow> unat (w + 1) = unat w + 1 \<and> unat w + 1 \<le> unat m" for w m :: u32
proof -
  assume "\<not> w \<ge> m"
  then have lt: "unat w < unat m" by (simp add: word_less_nat_alt not_le)
  then have "unat w + 1 < 2 ^ 32" using unsigned_less [of m, where ?'a = nat] by simp
  then have "unat (w + 1) = unat w + 1" by (simp add: unat_word_ariths)
  with lt show ?thesis by simp
qed

text \<open>Within a window that is not over, a frame that passes is counted, and the count stays in the limit.\<close>

lemma rate_limit_open:
  assumes "rate_limit c k ts w = (limited, w')" and "i64 (ts - window_start w) < kOneSecondNs" and "k \<noteq> kHeartbeat"
  shows "window_start w' = window_start w"
    and "\<not> limited \<Longrightarrow> kind_count k w' = kind_count k w + 1 \<and> kind_count k w' \<le> kind_limit k c"
    and "limited \<Longrightarrow> w' = w"
    and "k' \<noteq> k \<Longrightarrow> kind_count k' w' = kind_count k' w"
  using assms unat_inc
  by (auto simp: rate_limit_def kind_count_def kind_limit_def Let_def split: MessageKind.splits if_splits)

lemma rate_limit_reset:
  assumes "i64 (ts - window_start w) \<ge> kOneSecondNs" and "i64 0 < kOneSecondNs"
  shows "rate_limit c k ts w = rate_limit c k ts \<lparr>window_start = ts, w_new_orders = 0, w_cancels = 0, w_replaces = 0\<rparr>"
  using assms by (simp add: rate_limit_def)

lemma submit_window:
  assumes "ingress_submit f p = Some (ok, p')"
  shows "ip_config p' = ip_config p"
    and "fh_account (fr_header f) \<noteq> a \<Longrightarrow> rate_windows p' a = rate_windows p a"
    and "fh_kind (fr_header f) = kHeartbeat \<Longrightarrow> rate_windows p' a = rate_windows p a"
    and "fh_kind (fr_header f) \<noteq> kHeartbeat \<Longrightarrow> fh_account (fr_header f) = a \<Longrightarrow> \<exists>limited w.
      rate_limit (ip_config p) (fh_kind (fr_header f)) (received_time_ns (fr_header f)) (window_of a p) = (limited, w)
      \<and> (limited \<longrightarrow> \<not> ok) \<and> (rate_windows p' a = rate_windows p a \<and> \<not> ok \<or> rate_windows p' a = Some w)"
proof -
  have pf: "push_frame f q = Some (b, q') \<Longrightarrow> ip_config q' = ip_config q \<and> rate_windows q' = rate_windows q" for q b q'
    by (auto simp: push_frame_def split: MessageKind.splits Option.bind_splits prod.splits)
  note defs = ingress_submit_def bump_def Let_def
  show "ip_config p' = ip_config p"
    using assms by (auto simp: defs split: if_splits prod.splits Option.bind_splits dest: pf)
  show "rate_windows p' a = rate_windows p a" if "fh_account (fr_header f) \<noteq> a"
    using assms that by (auto simp: defs split: if_splits prod.splits Option.bind_splits dest: pf)
  show "rate_windows p' a = rate_windows p a" if "fh_kind (fr_header f) = kHeartbeat"
    using assms that by (auto simp: defs)
  show "\<exists>limited w.
      rate_limit (ip_config p) (fh_kind (fr_header f)) (received_time_ns (fr_header f)) (window_of a p) = (limited, w)
      \<and> (limited \<longrightarrow> \<not> ok) \<and> (rate_windows p' a = rate_windows p a \<and> \<not> ok \<or> rate_windows p' a = Some w)"
    if "fh_kind (fr_header f) \<noteq> kHeartbeat" "fh_account (fr_header f) = a"
    using assms that by (auto simp: defs split: if_splits prod.splits Option.bind_splits dest: pf)
qed

definition fresh_window :: "int \<Rightarrow> AccountWindow" where
  "fresh_window ts = \<lparr>window_start = ts, w_new_orders = 0, w_cancels = 0, w_replaces = 0\<rparr>"

definition window_counts :: "int \<Rightarrow> MessageKind \<Rightarrow> IngressConfig \<Rightarrow> nat \<Rightarrow> AccountWindow \<Rightarrow> bool" where
  "window_counts T k c n w \<longleftrightarrow>
     T \<le> window_start w \<and> window_start w < T + kOneSecondNs \<and> n \<le> kind_count k w \<and> kind_count k w \<le> kind_limit k c"

definition counts_ok :: "int \<Rightarrow> AccountId \<Rightarrow> MessageKind \<Rightarrow> nat \<Rightarrow> IngressPipeline \<Rightarrow> bool" where
  "counts_ok T a k n p \<longleftrightarrow> (case rate_windows p a of None \<Rightarrow> n = 0 | Some w \<Rightarrow> window_counts T k (ip_config p) n w)"

lemma second_pos: "0 < kOneSecondNs"
  by (simp add: kOneSecondNs_def)

lemma window_counts_step:
  assumes "window_counts T k c n w" and "rate_limit c k' ts w = (limited, w')" and "k' \<noteq> kHeartbeat"
    and "T \<le> ts" and "ts < T + kOneSecondNs" and "kOneSecondNs \<le> T" and "T + kOneSecondNs < 2 ^ 63"
    and "limited \<longrightarrow> \<not> ok"
  shows "window_counts T k c (n + (if ok \<and> k' = k then 1 else 0)) w'"
proof -
  have "in64 (ts - window_start w)" and "ts - window_start w < kOneSecondNs"
    using assms(1,4-7) second_pos by (auto simp: window_counts_def in64_def)
  then have "i64 (ts - window_start w) < kOneSecondNs" by simp
  note o = rate_limit_open [OF assms(2) this assms(3)]
  show ?thesis
    using assms(1,8) o by (cases limited; cases "k' = k") (auto simp: window_counts_def)
qed

lemma counts_ok_step:
  assumes ok: "counts_ok T a k n p" and sub: "ingress_submit f p = Some (b, p')"
    and ts: "fh_account (fr_header f) = a \<longrightarrow> T \<le> received_time_ns (fr_header f) \<and> received_time_ns (fr_header f) < T + kOneSecondNs"
    and T: "kOneSecondNs \<le> T" "T + kOneSecondNs < 2 ^ 63" and k: "k \<noteq> kHeartbeat"
  shows "counts_ok T a k (n + (if b \<and> fh_account (fr_header f) = a \<and> fh_kind (fr_header f) = k then 1 else 0)) p'"
proof (cases "fh_account (fr_header f) \<noteq> a \<or> fh_kind (fr_header f) = kHeartbeat")
  case True
  then show ?thesis using ok k submit_window(1) [OF sub] submit_window(2,3) [OF sub, of a] by (auto simp: counts_ok_def split: option.splits)
next
  case False
  let ?k' = "fh_kind (fr_header f)" and ?ts = "received_time_ns (fr_header f)" and ?c = "ip_config p"
  have a: "fh_account (fr_header f) = a" and k': "?k' \<noteq> kHeartbeat" using False by auto
  obtain limited w where rl: "rate_limit ?c ?k' ?ts (window_of a p) = (limited, w)" "limited \<longrightarrow> \<not> b"
    and p': "rate_windows p' a = rate_windows p a \<and> \<not> b \<or> rate_windows p' a = Some w"
    using submit_window(4) [OF sub k' a] by blast
  have t: "T \<le> ?ts" "?ts < T + kOneSecondNs" using ts a by simp_all
  obtain w0 where w0: "window_counts T k ?c n w0" "rate_limit ?c ?k' ?ts w0 = (limited, w)"
  proof (cases "rate_windows p a")
    case None
    have "in64 ?ts" using t T second_pos by (simp add: in64_def)
    then have "rate_limit ?c ?k' ?ts (fresh_window ?ts) = (limited, w)"
      using rl(1) None t T rate_limit_reset [of ?ts new_window ?c ?k'] second_pos
      by (simp add: window_of_def new_window_def fresh_window_def)
    moreover have "window_counts T k ?c n (fresh_window ?ts)"
      using None ok t by (auto simp: window_counts_def counts_ok_def fresh_window_def kind_count_def split: MessageKind.splits)
    ultimately show ?thesis using that by blast
  next
    case (Some w1)
    then show ?thesis using ok rl(1) that by (simp add: counts_ok_def window_of_def)
  qed
  have "window_counts T k ?c (n + (if b \<and> ?k' = k then 1 else 0)) w"
    by (rule window_counts_step [OF w0 k' t T rl(2)])
  then show ?thesis using p' ok a submit_window(1) [OF sub] by (auto simp: counts_ok_def split: option.splits)
qed

text \<open>
  From any state: before the window of the account is replaced at most the limit is accepted, and at most the
  limit after it; within one second it is replaced at most once.
\<close>

definition two_windows :: "int \<Rightarrow> MessageKind \<Rightarrow> IngressConfig \<Rightarrow> nat \<Rightarrow> AccountWindow \<Rightarrow> bool" where
  "two_windows T k c n w \<longleftrightarrow> n \<le> kind_limit k c \<and> n \<le> kind_count k w
     \<or> T \<le> window_start w \<and> window_start w < T + kOneSecondNs \<and> n \<le> kind_limit k c + kind_count k w \<and> kind_count k w \<le> kind_limit k c"

lemma two_windows_step:
  assumes "two_windows T k c n w" and "rate_limit c k' ts w = (limited, w')" and "k' \<noteq> kHeartbeat"
    and "T \<le> ts" and "ts < T + kOneSecondNs" and "limited \<longrightarrow> \<not> ok"
  shows "two_windows T k c (n + (if ok \<and> k' = k then 1 else 0)) w'"
proof (cases "i64 (ts - window_start w) < kOneSecondNs")
  case True
  note o = rate_limit_open [OF assms(2) True assms(3)]
  show ?thesis using assms(1,6) o by (cases limited; cases "k' = k") (auto simp: two_windows_def)
next
  case False
  have "\<not> (T \<le> window_start w \<and> window_start w < T + kOneSecondNs)"
  proof
    assume "T \<le> window_start w \<and> window_start w < T + kOneSecondNs"
    then have "in64 (ts - window_start w)" "ts - window_start w < kOneSecondNs"
      using assms(4,5) by (auto simp: in64_def kOneSecondNs_def)
    then show False using False by simp
  qed
  then have n: "n \<le> kind_limit k c" using assms(1) by (auto simp: two_windows_def)
  have "rate_limit c k' ts (fresh_window ts) = (limited, w')"
    using rate_limit_reset [of ts w c k'] assms(2) False by (simp add: fresh_window_def kOneSecondNs_def)
  moreover have "i64 (ts - window_start (fresh_window ts)) < kOneSecondNs" by (simp add: fresh_window_def kOneSecondNs_def)
  ultimately have o: "window_start w' = window_start (fresh_window ts)"
    "\<not> limited \<Longrightarrow> kind_count k' w' = kind_count k' (fresh_window ts) + 1 \<and> kind_count k' w' \<le> kind_limit k' c"
    "limited \<Longrightarrow> w' = fresh_window ts" "k \<noteq> k' \<Longrightarrow> kind_count k w' = kind_count k (fresh_window ts)"
    using rate_limit_open [of c k' ts "fresh_window ts" limited w'] assms(3) by auto
  have "kind_count j (fresh_window ts) = 0" for j by (simp add: fresh_window_def kind_count_def split: MessageKind.split)
  with n o assms(4-6) show ?thesis by (cases limited; cases "k' = k") (auto simp: two_windows_def fresh_window_def)
qed

lemma two_windows_submit:
  assumes "two_windows T k (ip_config p) n (window_of a p)" and "ingress_submit f p = Some (b, p')" and "k \<noteq> kHeartbeat"
    and "fh_account (fr_header f) = a \<longrightarrow> T \<le> received_time_ns (fr_header f) \<and> received_time_ns (fr_header f) < T + kOneSecondNs"
  shows "two_windows T k (ip_config p') (n + (if b \<and> fh_account (fr_header f) = a \<and> fh_kind (fr_header f) = k then 1 else 0)) (window_of a p')"
proof (cases "fh_account (fr_header f) \<noteq> a \<or> fh_kind (fr_header f) = kHeartbeat")
  case True
  then have "rate_windows p' a = rate_windows p a" using submit_window(2,3) [OF assms(2), of a] by blast
  then show ?thesis using assms(1,3) True submit_window(1) [OF assms(2)] by (auto simp: window_of_def)
next
  case False
  then have a: "fh_kind (fr_header f) \<noteq> kHeartbeat" "fh_account (fr_header f) = a" by auto
  obtain limited w where rl: "rate_limit (ip_config p) (fh_kind (fr_header f)) (received_time_ns (fr_header f)) (window_of a p) = (limited, w)" "limited \<longrightarrow> \<not> b"
    and p': "rate_windows p' a = rate_windows p a \<and> \<not> b \<or> rate_windows p' a = Some w"
    using submit_window(4) [OF assms(2) a] by blast
  have "two_windows T k (ip_config p) (n + (if b \<and> fh_kind (fr_header f) = k then 1 else 0)) w"
    by (rule two_windows_step [OF assms(1) rl(1) a(1) _ _ rl(2)]) (use assms(4) a(2) in simp_all)
  then show ?thesis using p' assms(1) a(2) submit_window(1) [OF assms(2)] by (auto simp: window_of_def)
qed

text \<open>Over a sequence of submissions, a count that every submission keeps is kept.\<close>

lemma push_all_counts:
  assumes "\<And>n p f b p'. I n p \<Longrightarrow> ingress_submit f p = Some (b, p') \<Longrightarrow> f \<in> set fs
      \<Longrightarrow> I (n + (if b \<and> fh_account (fr_header f) = a \<and> fh_kind (fr_header f) = k then 1 else 0)) p'"
    and "I n p" and "push_all ingress_submit fs p = Some (oks, p')"
  shows "I (n + accepted_frames a k fs oks) p' \<and> ip_config p' = ip_config p"
  using assms
proof (induction fs arbitrary: n p oks)
  case (Cons f fs)
  obtain b p1 oks1 where s: "ingress_submit f p = Some (b, p1)" "push_all ingress_submit fs p1 = Some (oks1, p')" "oks = b # oks1"
    using Cons.prems(3) by (auto split: Option.bind_splits)
  have "I (n + (if b \<and> fh_account (fr_header f) = a \<and> fh_kind (fr_header f) = k then 1 else 0)) p1"
    by (rule Cons.prems(1) [OF Cons.prems(2) s(1)]) simp
  from Cons.IH [OF _ this s(2)] Cons.prems(1) submit_window(1) [OF s(1)] show ?case
    by (auto simp: s(3) accepted_frames_def split: if_splits)
qed (simp add: accepted_frames_def)

text \<open>
  C29. The rate limit: from any state of the pipeline, of the frames that an account sends with timestamps within
  one second, in any order and whatever other accounts send in between, at most twice the configured
  number of each kind is accepted. If the account has not sent a frame before, and the timestamps are at
  least one second after the epoch and one second below \<open>2 ^ 63\<close>, at most the configured number is accepted.
\<close>

theorem rate_limit_enforced:
  assumes "push_all ingress_submit fs p = Some (oks, p')" and "k \<noteq> kHeartbeat"
    and "\<forall>f \<in> set fs. fh_account (fr_header f) = a \<longrightarrow>
           T \<le> received_time_ns (fr_header f) \<and> received_time_ns (fr_header f) < T + kOneSecondNs"
  shows "accepted_frames a k fs oks \<le> 2 * kind_limit k (ip_config p)
     \<and> (rate_windows p a = None \<and> kOneSecondNs \<le> T \<and> T + kOneSecondNs < 2 ^ 63 \<longrightarrow> accepted_frames a k fs oks \<le> kind_limit k (ip_config p))"
proof (intro conjI impI)
  have "two_windows T k (ip_config p') (0 + accepted_frames a k fs oks) (window_of a p') \<and> ip_config p' = ip_config p"
    by (rule push_all_counts [where I = "\<lambda>n p. two_windows T k (ip_config p) n (window_of a p)", OF _ _ assms(1)])
      (use two_windows_submit assms(2,3) in \<open>blast, simp add: two_windows_def\<close>)
  then show "accepted_frames a k fs oks \<le> 2 * kind_limit k (ip_config p)" by (auto simp: two_windows_def)
next
  assume new: "rate_windows p a = None \<and> kOneSecondNs \<le> T \<and> T + kOneSecondNs < 2 ^ 63"
  have "counts_ok T a k (0 + accepted_frames a k fs oks) p' \<and> ip_config p' = ip_config p"
    by (rule push_all_counts [where I = "counts_ok T a k", OF _ _ assms(1)])
      (use counts_ok_step new assms(2,3) in \<open>blast, simp add: counts_ok_def\<close>)
  then show "accepted_frames a k fs oks \<le> kind_limit k (ip_config p)" by (auto simp: counts_ok_def window_counts_def split: option.splits)
qed

lemma push_all_submit: "ingress_rep p s \<Longrightarrow> \<exists>oks p'. push_all ingress_submit fs p = Some (oks, p')"
proof (induction fs arbitrary: p s)
  case Nil
  then show ?case by simp
next
  case (Cons f fs)
  obtain p1 where "ingress_submit f p = Some (fst (spec_submit f s), p1)" "ingress_rep p1 (snd (spec_submit f s))"
    using ingress_submit_rep [OF Cons.prems] by blast
  then show ?case using Cons.IH by fastforce
qed

theorem rate_limit_enforced_witness:
  "\<exists>p oks p'. push_all ingress_submit [sample_frame kNewOrder 1 2000000000, sample_frame kNewOrder 2 2000000001,
       sample_frame kNewOrder 3 2000000002] p = Some (oks, p')
     \<and> accepted_frames 9 kNewOrder [sample_frame kNewOrder 1 2000000000, sample_frame kNewOrder 2 2000000001,
       sample_frame kNewOrder 3 2000000002] oks \<le> 2"
proof -
  let ?fs = "[sample_frame kNewOrder 1 2000000000, sample_frame kNewOrder 2 2000000001, sample_frame kNewOrder 3 2000000002]"
  obtain q p where p: "configure sample_ingress_config None q = (True, p)" using sample_pipeline by blast
  note rep = configure_rep [OF p]
  obtain oks p' where r: "push_all ingress_submit ?fs p = Some (oks, p')" using push_all_submit [OF rep] by blast
  have w: "rate_windows p 9 = None" "ip_config p = sample_ingress_config"
    using rep by (simp_all add: ingress_rep_def fresh_spec_def)
  have l: "kind_limit kNewOrder sample_ingress_config = 2" by code_simp
  from rate_limit_enforced [OF r, of kNewOrder 9 2000000000] w l r show ?thesis
    by (fastforce simp: sample_frame_def kOneSecondNs_def)
qed

text \<open>
  The bound of twice the number is met up to one: with a limit of two orders, a pipeline accepts three orders
  with timestamps within a tenth of a second, after one order that opened the window 0.9 seconds earlier.
\<close>

lemma burst_over_two_windows:
  "case new_ingress of None \<Rightarrow> False | Some q \<Rightarrow>
     (case push_all ingress_submit [sample_frame kNewOrder 1 2000000000, sample_frame kNewOrder 2 2900000000,
         sample_frame kNewOrder 3 3000000000, sample_frame kNewOrder 4 3000000000] (snd (configure (sample_ingress_config\<lparr>new_order_queue_depth := 8\<rparr>) None q)) of
        None \<Rightarrow> False | Some (oks, _) \<Rightarrow> oks = [True, True, True, True])"
  by code_simp

text \<open>
  The timestamps are the sender's: frames that claim to be a second apart are never limited, however
  fast they arrive.
\<close>

lemma spaced_frames_never_limited:
  assumes "i64 (ts - window_start w) \<ge> kOneSecondNs" and "0 < kind_limit k c"
  shows "\<not> fst (rate_limit c k ts w)"
  using assms by (auto simp: rate_limit_def kind_limit_def Let_def word_le_nat_alt split: MessageKind.splits)

end
