(* ===== verification/Transport.thy ===== *)
theory Transport
  imports Wire
begin

text \<open>
  The transport (\<open>libs/ingest/transport\<close>, \<open>quic_transport\<close>): the address of the endpoint, the frame
  format of a datagram, and the state of the UDP transport: its counters and the peers seen lately.
  The socket calls are parameters; the loop of the receiving thread is one step per datagram.
  Times of the steady clock are integers, in nanoseconds.
\<close>

section \<open>Endpoint addresses\<close>

datatype EndpointInfo =
    Endpoint string u16
  | InvalidEndpoint
  | EndpointThrows

definition is_digit :: "char \<Rightarrow> bool" where
  "is_digit c \<longleftrightarrow> c \<in> set ''0123456789''"

definition digit_value :: "char \<Rightarrow> nat" where
  "digit_value c = nat (of_char c) - 48"

definition decimal :: "string \<Rightarrow> nat" where
  "decimal s = foldl (\<lambda>n c. 10 * n + digit_value c) 0 s"

text \<open>\<open>std::stoi\<close> on digits: an exception above the range of \<open>int\<close>, then the cast to 16 bits.\<close>

definition stoi_port :: "string \<Rightarrow> string \<Rightarrow> EndpointInfo" where
  "stoi_port host digits =
     (if decimal digits > 2147483647 then EndpointThrows else Endpoint host (of_nat (decimal digits)))"

text \<open>
  The whole string has to match \<open>(quic|udp)://([^:]+):(\d+)\<close>: a scheme, a host without a colon, a
  colon, digits.
\<close>

definition strip_scheme :: "string \<Rightarrow> string option" where
  "strip_scheme uri =
     (if take 7 uri = ''quic://'' then Some (drop 7 uri)
      else if take 6 uri = ''udp://'' then Some (drop 6 uri)
      else None)"

definition parse_endpoint :: "string \<Rightarrow> EndpointInfo" where
  "parse_endpoint uri =
     (case strip_scheme uri of
        None \<Rightarrow> InvalidEndpoint
      | Some rest \<Rightarrow>
          (let host = takeWhile (\<lambda>c. c \<noteq> CHR '':'') rest; tail = dropWhile (\<lambda>c. c \<noteq> CHR '':'') rest
           in if host \<noteq> [] \<and> tail \<noteq> [] \<and> tl tail \<noteq> [] \<and> list_all is_digit (tl tail)
              then stoi_port host (tl tail) else InvalidEndpoint))"

section \<open>Datagrams\<close>

definition kMagic :: u32 where "kMagic = 0x54524443"
definition kVersion :: u16 where "kVersion = 1"
definition kWireHeaderSize :: nat where "kWireHeaderSize = 36"

text \<open>The packed header as it lies in the buffer.\<close>

record WireHeader =
  wh_magic :: u32
  wh_version :: u16
  wh_flags :: u16
  wh_account :: u64
  wh_nonce :: u64
  wh_timestamp_ns :: u64
  wh_priority :: u8
  wh_kind :: u8
  wh_payload_len :: u16

definition field :: "nat \<Rightarrow> nat \<Rightarrow> bytes \<Rightarrow> 'a::len word" where
  "field n offset data = get_le (take n (drop offset data))"

definition wire_header :: "bytes \<Rightarrow> WireHeader" where
  "wire_header data =
     \<lparr>wh_magic = field 4 0 data, wh_version = field 2 4 data, wh_flags = field 2 6 data,
      wh_account = field 8 8 data, wh_nonce = field 8 16 data, wh_timestamp_ns = field 8 24 data,
      wh_priority = field 1 32 data, wh_kind = field 1 33 data, wh_payload_len = field 2 34 data\<rparr>"

definition parse_frame :: "bytes \<Rightarrow> OwnedFrame option" where
  "parse_frame data =
     (if length data < kWireHeaderSize then None
      else
        (let header = wire_header data in
         if wh_magic header \<noteq> kMagic then None
         else if wh_version header \<noteq> kVersion then None
         else if length data < kWireHeaderSize + unat (wh_payload_len header) then None
         else if wh_kind header > kind_to_byte kHeartbeat then None
         else Some \<lparr>fr_header = \<lparr>fh_account = wh_account header, fh_nonce = wh_nonce header,
                                 received_time_ns = sint (wh_timestamp_ns header),
                                 priority = wh_priority header, fh_kind = kind_of_byte (wh_kind header)\<rparr>,
                     fr_payload = (if wh_payload_len header > 0
                                   then take (unat (wh_payload_len header)) (drop kWireHeaderSize data) else [])\<rparr>))"

section \<open>The UDP transport\<close>

record TransportStats =
  ts_bytes_received :: u64
  ts_frames_received :: u64
  ts_frames_malformed :: u64
  connections_active :: u64

record UdpTransport =
  callback_set :: bool
  running :: bool
  socket_open :: bool
  bytes_received :: u64
  frames_received :: u64
  frames_malformed :: u64
  peer_last_seen :: "(u64 \<times> int) list"

definition kPeerLivenessWindow :: int where "kPeerLivenessWindow = 5000000000"

definition new_udp_transport :: UdpTransport where
  "new_udp_transport = \<lparr>callback_set = False, running = False, socket_open = False, bytes_received = 0, frames_received = 0, frames_malformed = 0, peer_last_seen = []\<rparr>"

definition peer_key :: "u32 \<Rightarrow> u16 \<Rightarrow> u64" where
  "peer_key s_addr port = push_bit 16 (ucast s_addr) OR ucast port"

text \<open>What the socket calls of \<open>start\<close> return: creating, converting the host, binding.\<close>

record SocketCalls =
  os_socket :: bool
  os_inet_pton :: "string \<Rightarrow> bool"
  os_bind :: "string \<Rightarrow> u16 \<Rightarrow> bool"

text \<open>
  \<open>start\<close> returns whether it started; \<open>None\<close> is the exception of \<open>std::stoi\<close>. The argument \<open>cb\<close> tells
  whether the given callback is not empty; it is stored even if the socket then fails.
\<close>

definition udp_start :: "SocketCalls \<Rightarrow> string \<Rightarrow> bool \<Rightarrow> UdpTransport \<Rightarrow> (bool \<times> UdpTransport) option" where
  "udp_start os uri cb t =
     (if running t then Some (False, t)
      else case parse_endpoint uri of
        EndpointThrows \<Rightarrow> None
      | InvalidEndpoint \<Rightarrow> Some (False, t)
      | Endpoint host port \<Rightarrow>
          (let t1 = t\<lparr>callback_set := cb\<rparr>; failed = t1\<lparr>socket_open := False\<rparr>
           in if \<not> os_socket os then Some (False, failed)
              else if \<not> (host = ''0.0.0.0'' \<or> host = []) \<and> \<not> os_inet_pton os host then Some (False, failed)
              else if \<not> os_bind os host port then Some (False, failed)
              else Some (True, t1\<lparr>socket_open := True, running := True\<rparr>)))"

definition udp_stop :: "UdpTransport \<Rightarrow> UdpTransport" where
  "udp_stop t = t\<lparr>running := False, socket_open := False, peer_last_seen := [], callback_set := False\<rparr>"

definition udp_is_running :: "UdpTransport \<Rightarrow> bool" where
  "udp_is_running t = running t"

text \<open>The erasing loop over the peers.\<close>

definition prune :: "int \<Rightarrow> (u64 \<times> int) list \<Rightarrow> (u64 \<times> int) list" where
  "prune now peers = filter (\<lambda>(_, seen). \<not> now - seen > kPeerLivenessWindow) peers"

definition udp_stats :: "int \<Rightarrow> UdpTransport \<Rightarrow> TransportStats \<times> UdpTransport" where
  "udp_stats now t =
     (let peers = prune now (peer_last_seen t)
      in (\<lparr>ts_bytes_received = bytes_received t, ts_frames_received = frames_received t,
           ts_frames_malformed = frames_malformed t, connections_active = of_nat (length peers)\<rparr>,
          t\<lparr>peer_last_seen := peers\<rparr>))"

text \<open>
  One iteration of \<open>receive_loop\<close> in which \<open>recvfrom\<close> delivered data (an iteration without data
  changes nothing): a frame is passed to the callback, if there is one.
\<close>

definition receive_datagram :: "int \<Rightarrow> u64 \<Rightarrow> bytes \<Rightarrow> UdpTransport \<Rightarrow> OwnedFrame option \<times> UdpTransport" where
  "receive_datagram now key data t =
     (if data = [] then (None, t)
      else
        (let t1 = t\<lparr>bytes_received := bytes_received t + of_nat (length data),
                    peer_last_seen := prune now (umap_put key now (peer_last_seen t))\<rparr>
         in case parse_frame data of
              Some frame \<Rightarrow> (if callback_set t1 then Some frame else None, t1\<lparr>frames_received := frames_received t1 + 1\<rparr>)
            | None \<Rightarrow> (None, t1\<lparr>frames_malformed := frames_malformed t1 + 1\<rparr>)))"

section \<open>The QUIC wrapper\<close>

record QuicTransport =
  qt_transport :: UdpTransport
  qt_endpoint :: string

definition new_quic_transport :: QuicTransport where
  "new_quic_transport = \<lparr>qt_transport = new_udp_transport, qt_endpoint = []\<rparr>"

definition quic_start :: "SocketCalls \<Rightarrow> string \<Rightarrow> bool \<Rightarrow> QuicTransport \<Rightarrow> bool option \<times> QuicTransport" where
  "quic_start os uri cb q =
     (let q1 = q\<lparr>qt_endpoint := uri\<rparr>
      in case udp_start os uri cb (qt_transport q1) of
           None \<Rightarrow> (None, q1)
         | Some (ok, t) \<Rightarrow> (Some ok, q1\<lparr>qt_transport := t\<rparr>))"

definition quic_stop :: "QuicTransport \<Rightarrow> QuicTransport" where
  "quic_stop q = q\<lparr>qt_transport := udp_stop (qt_transport q), qt_endpoint := []\<rparr>"

definition quic_is_running :: "QuicTransport \<Rightarrow> bool" where
  "quic_is_running q = udp_is_running (qt_transport q)"

definition quic_stats :: "int \<Rightarrow> QuicTransport \<Rightarrow> TransportStats \<times> QuicTransport" where
  "quic_stats now q = (let (s, t) = udp_stats now (qt_transport q) in (s, q\<lparr>qt_transport := t\<rparr>))"

section \<open>The frame format\<close>

text \<open>The documented layout of a frame: the header fields in order, then the payload.\<close>

definition wire_bytes :: "u16 \<Rightarrow> OwnedFrame \<Rightarrow> bytes" where
  "wire_bytes flags f =
     put_le 4 kMagic @ put_le 2 kVersion @ put_le 2 flags @ put_le 8 (fh_account (fr_header f))
     @ put_le 8 (fh_nonce (fr_header f)) @ put_le 8 (i64_word (received_time_ns (fr_header f)))
     @ put_le 1 (priority (fr_header f)) @ put_le 1 (kind_to_byte (fh_kind (fr_header f)))
     @ put_le 2 (of_nat (length (fr_payload f)) :: u16) @ fr_payload f"

lemma wire_header_bytes:
  "wire_header (wire_bytes flags f @ rest) =
     \<lparr>wh_magic = kMagic, wh_version = kVersion, wh_flags = flags, wh_account = fh_account (fr_header f),
      wh_nonce = fh_nonce (fr_header f), wh_timestamp_ns = i64_word (received_time_ns (fr_header f)),
      wh_priority = priority (fr_header f), wh_kind = kind_to_byte (fh_kind (fr_header f)),
      wh_payload_len = of_nat (length (fr_payload f))\<rparr>"
  by (simp add: wire_header_def field_def wire_bytes_def del: put_le.simps)

lemma kind_byte_range: "\<not> kind_to_byte k > kind_to_byte kHeartbeat"
  by (cases k) simp_all

lemma parse_wire_bytes:
  assumes "length (fr_payload f) < 2 ^ 16" and "in64 (received_time_ns (fr_header f))"
  shows "parse_frame (wire_bytes flags f @ rest) = Some f"
proof -
  let ?len = "length (fr_payload f)"
  have len: "unat (of_nat ?len :: u16) = ?len"
    using assms(1) by (simp add: unsigned_of_nat take_bit_nat_eq_self)
  have size: "length (wire_bytes flags f) = kWireHeaderSize + ?len"
    by (simp add: wire_bytes_def kWireHeaderSize_def)
  have dr: "drop kWireHeaderSize (wire_bytes flags f) = fr_payload f"
    by (simp add: wire_bytes_def kWireHeaderSize_def del: put_le.simps)
  have pos: "(of_nat ?len :: u16) > 0 \<longleftrightarrow> fr_payload f \<noteq> []"
    by (simp only: word_less_nat_alt len unsigned_0) simp
  show ?thesis
    using kind_byte_range [of "fh_kind (fr_header f)"] assms(2) size
    by (auto simp: parse_frame_def wire_header_bytes len dr pos Let_def intro!: OwnedFrame.equality FrameHeader.equality)
qed

lemma header_chunks:
  assumes "36 \<le> length data"
  shows "put_le 4 (field 4 0 data :: u32) @ put_le 2 (field 2 4 data :: u16) @ put_le 2 (field 2 6 data :: u16)
     @ put_le 8 (field 8 8 data :: u64) @ put_le 8 (field 8 16 data :: u64) @ put_le 8 (field 8 24 data :: u64)
     @ put_le 1 (field 1 32 data :: u8) @ put_le 1 (field 1 33 data :: u8) @ put_le 2 (field 2 34 data :: u16)
     = take 36 data"
proof -
  have "take 4 (drop 0 data) @ take 2 (drop 4 data) @ take 2 (drop 6 data) @ take 8 (drop 8 data) @ take 8 (drop 16 data)
      @ take 8 (drop 24 data) @ take 1 (drop 32 data) @ take 1 (drop 33 data) @ take 2 (drop 34 data) = take 36 data"
    using take_chunk [of 4 data 2] take_chunk [of 6 data 2] take_chunk [of 8 data 8] take_chunk [of 16 data 8]
      take_chunk [of 24 data 8] take_chunk [of 32 data 1] take_chunk [of 33 data 1] take_chunk [of 34 data 2]
    by (simp flip: append_assoc)
  moreover have "put_le 4 (field 4 0 data :: u32) = take 4 (drop 0 data)" "put_le 2 (field 2 4 data :: u16) = take 2 (drop 4 data)"
    "put_le 2 (field 2 6 data :: u16) = take 2 (drop 6 data)" "put_le 8 (field 8 8 data :: u64) = take 8 (drop 8 data)"
    "put_le 8 (field 8 16 data :: u64) = take 8 (drop 16 data)" "put_le 8 (field 8 24 data :: u64) = take 8 (drop 24 data)"
    "put_le 1 (field 1 32 data :: u8) = take 1 (drop 32 data)" "put_le 1 (field 1 33 data :: u8) = take 1 (drop 33 data)"
    "put_le 2 (field 2 34 data :: u16) = take 2 (drop 34 data)"
    unfolding field_def using assms by (intro put_get_chunk; simp)+
  ultimately show ?thesis by (simp only:)
qed

lemma kind_to_of_byte: "\<not> b > 3 \<Longrightarrow> kind_to_byte (kind_of_byte b) = b"
proof -
  assume "\<not> b > 3"
  then have "unat b \<le> 3" by (simp add: not_less word_le_nat_alt)
  then have "unat b = 0 \<or> unat b = 1 \<or> unat b = 2 \<or> unat b = 3" by auto
  then have "b = word_of_nat 0 \<or> b = word_of_nat 1 \<or> b = word_of_nat 2 \<or> b = word_of_nat 3"
    by (metis of_nat_unat ucast_id)
  then have "b = 0 \<or> b = 1 \<or> b = 2 \<or> b = 3" by simp
  then show ?thesis by (auto simp: kind_of_byte_def)
qed

text \<open>
  C30. The receiver accepts exactly the documented frames: a datagram is parsed as a frame if and only if
  it starts with the documented encoding of that frame, header fields and payload with its 16-bit
  length, with any flags and any bytes after the payload. Every access is within the datagram.
\<close>

theorem parse_frame_exact:
  "parse_frame data = Some f \<longleftrightarrow>
     (\<exists>flags rest. data = wire_bytes flags f @ rest) \<and> length (fr_payload f) < 2 ^ 16
     \<and> in64 (received_time_ns (fr_header f))"
proof
  assume p: "parse_frame data = Some f"
  let ?h = "wire_header data"
  let ?len = "unat (wh_payload_len ?h)"
  have ok: "36 + ?len \<le> length data" "wh_magic ?h = kMagic" "wh_version ?h = kVersion" "\<not> wh_kind ?h > 3"
    using p by (auto simp: parse_frame_def Let_def kWireHeaderSize_def split: if_splits)
  have f: "fr_header f = \<lparr>fh_account = wh_account ?h, fh_nonce = wh_nonce ?h, received_time_ns = sint (wh_timestamp_ns ?h),
      priority = wh_priority ?h, fh_kind = kind_of_byte (wh_kind ?h)\<rparr>"
    "fr_payload f = (if wh_payload_len ?h > 0 then take ?len (drop 36 data) else [])"
    using p by (auto simp: parse_frame_def Let_def kWireHeaderSize_def split: if_splits)
  have "?len = 0" if "\<not> wh_payload_len ?h > 0" using that by (simp add: word_less_nat_alt)
  with f(2) have f2: "fr_payload f = take ?len (drop 36 data)" by auto
  have len: "length (fr_payload f) = ?len" using f2 ok(1) by simp
  have "wire_bytes (wh_flags ?h) f = take 36 data @ take ?len (drop 36 data)"
    using header_chunks [of data] ok f(1) f2 kind_to_of_byte [OF ok(4)] len
    by (simp add: wire_bytes_def wire_header_def del: put_le.simps)
  then have "data = wire_bytes (wh_flags ?h) f @ drop (36 + ?len) data"
    by (metis append_take_drop_id take_add)
  moreover have "?len < 2 ^ 16" using unsigned_less [of "wh_payload_len ?h", where ?'a = nat] by simp
  ultimately show "(\<exists>flags rest. data = wire_bytes flags f @ rest) \<and> length (fr_payload f) < 2 ^ 16
     \<and> in64 (received_time_ns (fr_header f))" using len f(1) by auto
qed (use parse_wire_bytes in blast)

section \<open>Peers\<close>

text \<open>The datagrams received so far, as time and sender, oldest first.\<close>

fun receive_all :: "(int \<times> u64 \<times> bytes) list \<Rightarrow> UdpTransport \<Rightarrow> UdpTransport" where
  "receive_all [] t = t"
| "receive_all ((now, key, data) # ds) t = receive_all ds (snd (receive_datagram now key data t))"

text \<open>The peer table after datagrams up to a time: for every peer seen within the window, the last time.\<close>

definition peers_ok :: "int \<Rightarrow> (int \<times> u64) set \<Rightarrow> (u64 \<times> int) list \<Rightarrow> bool" where
  "peers_ok now seen peers \<longleftrightarrow>
     distinct (map fst peers) \<and> (\<forall>(k, t) \<in> set peers. (t, k) \<in> seen \<and> (\<forall>t'. (t', k) \<in> seen \<longrightarrow> t' \<le> t))
     \<and> (\<forall>(t, k) \<in> seen. now - t \<le> kPeerLivenessWindow \<longrightarrow> k \<in> fst ` set peers)"

lemma umap_put_set:
  "distinct (map fst xs) \<Longrightarrow> set (umap_put k v xs) = insert (k, v) (set xs - {k} \<times> UNIV)"
  by (induction k v xs rule: umap_put.induct) (auto, force+)

lemma prune_set: "set (prune now peers) = {(k, t). (k, t) \<in> set peers \<and> now - t \<le> kPeerLivenessWindow}"
  by (auto simp: prune_def)

lemma prune_distinct: "distinct (map fst peers) \<Longrightarrow> distinct (map fst (prune now peers))"
  unfolding prune_def by (induction peers) auto

lemma peers_pruned:
  assumes ok: "peers_ok \<tau> seen peers" and "\<tau> \<le> now"
  shows "fst ` set (prune now peers) = {k. \<exists>t. (t, k) \<in> seen \<and> now - t \<le> kPeerLivenessWindow}"
proof (intro set_eqI iffI)
  fix k
  assume "k \<in> fst ` set (prune now peers)"
  then obtain t where "(k, t) \<in> set peers" "now - t \<le> kPeerLivenessWindow" by (auto simp: prune_set)
  then show "k \<in> {k. \<exists>t. (t, k) \<in> seen \<and> now - t \<le> kPeerLivenessWindow}" using ok by (auto simp: peers_ok_def)
next
  fix k
  assume "k \<in> {k. \<exists>t. (t, k) \<in> seen \<and> now - t \<le> kPeerLivenessWindow}"
  then obtain t where t: "(t, k) \<in> seen" "now - t \<le> kPeerLivenessWindow" by blast
  then have "\<tau> - t \<le> kPeerLivenessWindow" using assms(2) by simp
  then obtain t0 where "(k, t0) \<in> set peers" using ok t(1) by (force simp: peers_ok_def)
  moreover from this have "t \<le> t0" using ok t(1) by (auto simp: peers_ok_def)
  ultimately show "k \<in> fst ` set (prune now peers)" using t(2) by (force simp: prune_set)
qed

lemma peers_ok_receive:
  assumes ok: "peers_ok \<tau> seen peers" and "\<tau> \<le> now" and "\<forall>(t, k) \<in> seen. t \<le> now"
  shows "peers_ok now (insert (now, key) seen) (prune now (umap_put key now peers))"
proof -
  have d: "distinct (map fst peers)" using ok by (simp add: peers_ok_def)
  have w: "0 \<le> kPeerLivenessWindow" by (simp add: kPeerLivenessWindow_def)
  have keys: "k \<in> fst ` set (prune now (umap_put key now peers))" if k: "(t, k) \<in> seen" "now - t \<le> kPeerLivenessWindow" for t k
  proof (cases "k = key")
    case True
    then show ?thesis using w by (force simp: prune_set umap_put_set [OF d])
  next
    case False
    have "k \<in> fst ` set (prune now peers)" using peers_pruned [OF ok assms(2)] k by blast
    with False show ?thesis by (force simp: prune_set umap_put_set [OF d])
  qed
  moreover have "key \<in> fst ` set (prune now (umap_put key now peers))" using w by (force simp: prune_set umap_put_set [OF d])
  moreover have "(t, k) \<in> insert (now, key) seen \<and> (\<forall>t'. (t', k) \<in> insert (now, key) seen \<longrightarrow> t' \<le> t)"
    if "(k, t) \<in> set (prune now (umap_put key now peers))" for k t
    using that ok assms(3) by (auto simp: prune_set umap_put_set [OF d] peers_ok_def)
  ultimately show ?thesis
    using d by (auto simp: peers_ok_def prune_distinct)
qed

lemma receive_all_peers:
  assumes "peers_ok \<tau> seen (peer_last_seen t)" and "\<forall>(s, k) \<in> seen. s \<le> \<tau>" and "sorted (\<tau> # map fst ds)"
    and "\<forall>(s, k, d) \<in> set ds. d \<noteq> []"
  shows "peers_ok (last (\<tau> # map fst ds)) (seen \<union> {(s, k). \<exists>d. (s, k, d) \<in> set ds}) (peer_last_seen (receive_all ds t))"
  using assms
proof (induction ds arbitrary: \<tau> seen t)
  case Nil
  then show ?case by simp
next
  case (Cons x ds)
  obtain now key data where x: "x = (now, key, data)" by (cases x) auto
  let ?t = "snd (receive_datagram now key data t)"
  have "peer_last_seen ?t = prune now (umap_put key now (peer_last_seen t))"
    using Cons.prems(4) by (auto simp: x receive_datagram_def Let_def split: option.splits)
  moreover have "\<forall>(s, k) \<in> seen. s \<le> now" "\<tau> \<le> now" using Cons.prems(2,3) by (fastforce simp: x)+
  ultimately have "peers_ok now (insert (now, key) seen) (peer_last_seen ?t)"
    using peers_ok_receive [OF Cons.prems(1)] by simp
  from Cons.IH [OF this] have "peers_ok (last (now # map fst ds))
      (insert (now, key) seen \<union> {(s, k). \<exists>d. (s, k, d) \<in> set ds}) (peer_last_seen (receive_all ds ?t))"
    using Cons.prems(3,4) \<open>\<forall>(s, k) \<in> seen. s \<le> now\<close> by (auto simp: x)
  moreover have "insert (now, key) seen \<union> {(s, k). \<exists>d. (s, k, d) \<in> set ds} = seen \<union> {(s, k). \<exists>d. (s, k, d) \<in> set (x # ds)}"
    by (auto simp: x)
  ultimately show ?case by (simp add: x)
qed

text \<open>
  The number of active connections is right: when datagrams have arrived at non-decreasing times, the
  transport reports exactly the number of distinct senders heard from within the liveness window.
\<close>

lemma connections_active_exact:
  assumes "sorted (map fst ds)" and "\<forall>(s, k, d) \<in> set ds. d \<noteq> [] \<and> s \<le> now"
  shows "connections_active (fst (udp_stats now (receive_all ds new_udp_transport)))
           = of_nat (card {k. \<exists>s d. (s, k, d) \<in> set ds \<and> now - s \<le> kPeerLivenessWindow})"
proof -
  let ?peers = "peer_last_seen (receive_all ds new_udp_transport)" and ?\<tau> = "case ds of [] \<Rightarrow> now | d # _ \<Rightarrow> fst d"
  have srt: "sorted (?\<tau> # map fst ds)" using assms(1) by (cases ds) auto
  have "peers_ok ?\<tau> {} (peer_last_seen new_udp_transport)" by (simp add: peers_ok_def new_udp_transport_def)
  moreover have "\<forall>(s, k, d) \<in> set ds. d \<noteq> []" using assms(2) by auto
  ultimately have ok: "peers_ok (last (?\<tau> # map fst ds)) {(s, k). \<exists>d. (s, k, d) \<in> set ds} ?peers"
    using receive_all_peers [of ?\<tau> "{}" new_udp_transport ds, OF _ _ srt] by simp
  have "last (?\<tau> # map fst ds) \<le> now"
  proof (cases ds rule: rev_cases)
    case (snoc ds' x)
    then have "fst x \<le> now" using assms(2) by (cases x) auto
    then show ?thesis unfolding snoc by simp
  qed simp
  note pr = peers_pruned [OF ok this]
  have "length (prune now ?peers) = card (fst ` set (prune now ?peers))"
  proof -
    have "distinct (map fst (prune now ?peers))" using ok by (simp add: peers_ok_def prune_distinct)
    from distinct_card [OF this] show ?thesis by simp
  qed
  then show ?thesis using pr by (simp add: udp_stats_def Let_def)
qed

end
