(* ===== verification/Wal_Crash.thy ===== *)
theory Wal_Crash
  imports Wal_Integrity "HOL-Library.Sublist"
begin

text \<open>
  Crashes and short writes: whatever a write stores, and wherever the file is cut off, the log reads back
  as a prefix of what was appended; and what a successful \<open>sync\<close> has covered is in the file or in the stream, and
  in the file if the flush of the stream stored it, which the code does not check. A failed write
  must not be followed by another one: the destructor of the writer tries again and damages the log.
\<close>

section \<open>A log that is cut off\<close>

lemma take_log:
  "\<exists>k m. k \<le> length rs \<and> take n (log_bytes rs) = log_bytes (take k rs) @ (if k < length rs then take m (record_bytes (rs ! k)) else [])
     \<and> (k < length rs \<longrightarrow> m < length (record_bytes (rs ! k)))"
proof (induction rs arbitrary: n)
  case (Cons r rs)
  show ?case
  proof (cases "n < length (record_bytes r)")
    case True
    then show ?thesis by (intro exI [of _ 0] exI [of _ n]) simp
  next
    case False
    from Cons [of "n - length (record_bytes r)"] obtain k m where
      "k \<le> length rs" "take (n - length (record_bytes r)) (log_bytes rs)
         = log_bytes (take k rs) @ (if k < length rs then take m (record_bytes (rs ! k)) else [])"
      "k < length rs \<longrightarrow> m < length (record_bytes (rs ! k))" by blast
    with False show ?thesis by (intro exI [of _ "Suc k"] exI [of _ m]) simp
  qed
qed simp

lemma read_cut_log:
  assumes "list_all record_ok rs"
  shows "\<exists>k e. read_all (open_reader (take n (log_bytes rs))) = (take k rs, e) \<and> e \<in> {None, Some ''truncated WAL record''}"
proof -
  obtain k m where k: "k \<le> length rs"
      "take n (log_bytes rs) = log_bytes (take k rs) @ (if k < length rs then take m (record_bytes (rs ! k)) else [])"
      "k < length rs \<longrightarrow> m < length (record_bytes (rs ! k))"
    using take_log [of rs n] by blast
  have ok: "list_all record_ok (take k rs)" using assms by (auto simp: list_all_iff dest: in_set_takeD)
  show ?thesis
  proof (cases "k < length rs \<and> kRecordHeaderSize \<le> m")
    case True
    then have r: "record_ok (rs ! k)" "k < length rs" "m < length (record_bytes (rs ! k))" using assms k(3) by (auto simp: list_all_length)
    have "reader_next \<lparr>rd_file = log_bytes (take k rs) @ take m (record_bytes (rs ! k)), rd_pos = length (log_bytes (take k rs))\<rparr>
        = Inl ''truncated WAL record''"
      by (rule reader_torn_payload) (use True r in auto)
    from read_log_then [OF ok this] show ?thesis using k(2) r(2) by (auto simp del: read_all.simps)
  next
    case False
    then have "length (if k < length rs then take m (record_bytes (rs ! k)) else []) < kRecordHeaderSize"
      by (auto simp: kRecordHeaderSize_def)
    from wal_torn_header [OF ok this] show ?thesis using k(2) by (auto simp del: read_all.simps)
  qed
qed

lemma read_cut_prefix:
  assumes "list_all payload_ok qs" and "prefix file (log_bytes (numbered 1 qs))"
  shows "\<exists>k e. read_all (open_reader (take n file)) = (take k (numbered 1 qs), e) \<and> e \<in> {None, Some ''truncated WAL record''}"
proof -
  have "take n file = take (min n (length file)) (log_bytes (numbered 1 qs))" using assms(2) by (auto simp: prefix_def min_def)
  then show ?thesis using read_cut_log [OF numbered_ok [OF assms(1)]] by simp
qed

section \<open>Writers with any writes\<close>

text \<open>What the writer has handed to the stream, whether or not it has reached the file, and all it holds.\<close>

definition wal_handed :: "WalWriter \<Rightarrow> bytes" where
  "wal_handed w = ww_file w @ ww_stream w"

definition wal_total :: "WalWriter \<Rightarrow> bytes" where
  "wal_total w = wal_handed w @ ww_buffer w"

text \<open>All bytes handed to the stream have been stored, provided that \<open>fflush\<close> always stores what it is given.\<close>

definition stores_all :: "StdioCalls \<Rightarrow> bool" where
  "stores_all io \<longleftrightarrow> (\<forall>bs. st_fflush io bs = length bs)"

lemma wal_flush_any:
  assumes "wal_flush io w = (e, w')"
  shows "prefix (wal_handed w') (wal_total w)" "ww_next_sequence w' = ww_next_sequence w"
    "e = None \<Longrightarrow> wal_total w' = wal_total w \<and> ww_buffer w' = []"
    "e = None \<Longrightarrow> stores_all io \<Longrightarrow> ww_stream w = [] \<Longrightarrow> ww_stream w' = []"
  using assms by (auto simp: wal_flush_def wal_total_def wal_handed_def stores_all_def Let_def take_is_prefix simp del: take_append drop_append split: if_splits)

lemma wal_append_any:
  assumes "wal_append io res payload w = (e, w')"
  defines "r \<equiv> record_bytes (wal_record (ww_next_sequence w) res payload)"
  shows "prefix (wal_handed w') (wal_total w @ r)" "ww_next_sequence w' = ww_next_sequence w + 1"
    "e = None \<Longrightarrow> wal_total w' = wal_total w @ r"
    "e = None \<Longrightarrow> stores_all io \<Longrightarrow> ww_stream w = [] \<Longrightarrow> ww_stream w' = []"
proof -
  let ?w = "w\<lparr>ww_next_sequence := ww_next_sequence w + 1, ww_buffer := ww_buffer w @ r\<rparr>"
  have t: "wal_total ?w = wal_total w @ r" by (simp add: wal_total_def wal_handed_def)
  have "prefix (wal_handed w') (wal_total w @ r) \<and> ww_next_sequence w' = ww_next_sequence w + 1
      \<and> (e = None \<longrightarrow> wal_total w' = wal_total w @ r) \<and> (e = None \<longrightarrow> stores_all io \<longrightarrow> ww_stream w = [] \<longrightarrow> ww_stream w' = [])"
  proof (cases "length (ww_buffer ?w) \<ge> flush_threshold ?w")
    case True
    then have "wal_flush io ?w = (e, w')" using assms(1) by (simp add: wal_append_def r_def)
    from wal_flush_any [OF this] show ?thesis by (simp add: t)
  next
    case False
    then have "e = None" "w' = ?w" using assms(1) by (auto simp: wal_append_def r_def)
    then show ?thesis by (auto simp: wal_total_def wal_handed_def)
  qed
  then show "prefix (wal_handed w') (wal_total w @ r)" "ww_next_sequence w' = ww_next_sequence w + 1"
    "e = None \<Longrightarrow> wal_total w' = wal_total w @ r"
    "e = None \<Longrightarrow> stores_all io \<Longrightarrow> ww_stream w = [] \<Longrightarrow> ww_stream w' = []" by simp_all
qed

lemma wal_append_all_any:
  assumes "wal_append_all io ps w = (e, w')"
  shows "prefix (wal_handed w') (wal_total w @ log_bytes (numbered (ww_next_sequence w) ps))
     \<and> (e = None \<longrightarrow> wal_total w' = wal_total w @ log_bytes (numbered (ww_next_sequence w) ps))
     \<and> (e = None \<longrightarrow> stores_all io \<longrightarrow> ww_stream w = [] \<longrightarrow> ww_stream w' = [])"
  using assms
proof (induction ps arbitrary: w)
  case (Cons p ps)
  obtain res payload where p: "p = (res, payload)" by (cases p)
  obtain e1 w1 where w1: "wal_append io res payload w = (e1, w1)" by (metis surj_pair)
  note any = wal_append_any [OF w1]
  show ?case
  proof (cases e1)
    case None
    then have "wal_append_all io ps w1 = (e, w')" using Cons.prems w1 by (simp add: p)
    from Cons.IH [OF this] any(4) [OF None] show ?thesis by (simp add: p any(2) any(3) [OF None])
  next
    case (Some x)
    then have "e = Some x" "w' = w1" using Cons.prems w1 by (simp_all add: p)
    with any(1) show ?thesis by (simp add: p flip: append_assoc)
  qed
qed (simp add: wal_total_def)



section \<open>A second write after a failed one\<close>

text \<open>
  A failed write leaves the buffer as it is, and the destructor writes all of it again behind the part that
  was stored: if that part is a single byte, the records of the buffer are lost, and a restart fails.
\<close>

lemma wal_retry_corrupts:
  assumes "list_all record_ok rs" and "record_ok r" and "ww_file w = log_bytes rs" and "ww_stream w = []" and "ww_buffer w = record_bytes r"
  shows "\<exists>w1. wal_flush \<lparr>st_fwrite = (\<lambda>_. 1), st_fflush = length\<rparr> w = (Some ''failed to write WAL buffer'', w1)
     \<and> read_all (open_reader (close_writer full_stdio w1)) = (rs, Some ''invalid WAL magic'')
     \<and> open_writer (close_writer full_stdio w1) threshold = Inl ''invalid WAL magic''"
proof -
  have len: "length (record_bytes r) > 1" by (simp add: record_bytes_def kRecordHeaderSize_def)
  then have ne: "record_bytes r \<noteq> []" by auto
  have "take 1 (put_le 4 kWalMagic) = [0x4c]" by code_simp
  then have "take 1 (record_bytes r) = [0x4c]"
    using assms(2) by (simp add: record_bytes_def header_bytes_def record_ok_def del: put_le.simps)
  then have f: "wal_flush \<lparr>st_fwrite = (\<lambda>_. 1), st_fflush = length\<rparr> w = (Some ''failed to write WAL buffer'', w\<lparr>ww_stream := [0x4c]\<rparr>)"
    using len ne assms(4,5) by (simp add: wal_flush_def Let_def)
  have c: "close_writer full_stdio (w\<lparr>ww_stream := [0x4c]\<rparr>) = log_bytes rs @ 0x4c # record_bytes r"
    using ne assms(3,5) by (simp add: close_writer_def wal_flush_def Let_def)
  have "read_all (open_reader (log_bytes rs @ 0x4c # record_bytes r)) = (rs, Some ''invalid WAL magic'')"
    by (rule read_log_then [OF assms(1) reader_shifted_record [OF assms(2)]])
  with f c show ?thesis by (simp add: open_writer_def del: read_all.simps)
qed

section \<open>A flush of the stream that fails\<close>

text \<open>
  A \<open>sync\<close> that returns has not always made the log durable: when \<open>fflush\<close> stores nothing, \<open>sync\<close> returns
  normally, and the file, on which \<open>fsync\<close> was called, reads back without the record.
\<close>

lemma sync_without_fflush:
  assumes "list_all record_ok rs" and "ww_file w = log_bytes rs" and "ww_stream w = []" and "ww_buffer w = record_bytes r"
  shows "\<exists>w'. wal_sync \<lparr>st_fwrite = length, st_fflush = (\<lambda>_. 0)\<rparr> True w = (None, w') \<and> ww_stream w' = record_bytes r
     \<and> read_all (open_reader (ww_file w')) = (rs, None)"
proof -
  have "record_bytes r \<noteq> []" by (auto simp: record_bytes_def kRecordHeaderSize_def simp flip: length_0_conv)
  then show ?thesis
    using read_log [OF assms(1)] assms(2-4) by (simp add: wal_sync_def wal_flush_def Let_def del: read_all.simps)
qed

end
