(* ===== verification/Replay.thy ===== *)
theory Replay
  imports Snapshot Wal_Crash
begin

text \<open>
  The replay driver (\<open>libs/replay\<close>): it restores the latest snapshot and delivers the records of the log
  after it. The handlers are callbacks of the client; the calls they receive are the output. What a
  handler does or throws is the client's.
\<close>

datatype ReplayCall = SnapshotHandler SequenceId bytes | EventHandler WalRecord

record ReplayDriver =
  rd_store :: SnapshotStore
  rd_wal_path :: string
  rd_snapshot_handler :: bool
  rd_event_handler :: bool

definition new_driver :: ReplayDriver where
  "new_driver = \<lparr>rd_store = new_store, rd_wal_path = [], rd_snapshot_handler = False, rd_event_handler = False\<rparr>"

definition configure_replay :: "string \<Rightarrow> string \<Rightarrow> ReplayDriver \<Rightarrow> ReplayDriver" where
  "configure_replay snapshot_directory wal_path d =
     d\<lparr>rd_store := prepare snapshot_directory (rd_store d), rd_wal_path := wal_path\<rparr>"

definition set_snapshot_handler :: "bool \<Rightarrow> ReplayDriver \<Rightarrow> ReplayDriver" where
  "set_snapshot_handler h d = d\<lparr>rd_snapshot_handler := h\<rparr>"

definition set_event_handler :: "bool \<Rightarrow> ReplayDriver \<Rightarrow> ReplayDriver" where
  "set_event_handler h d = d\<lparr>rd_event_handler := h\<rparr>"

text \<open>The loop over the log: records before \<open>resume_from\<close>, a 32-bit number, are skipped.\<close>

function replay_loop :: "SequenceId \<Rightarrow> WalReader \<Rightarrow> ReplayCall list \<times> string option" where
  "replay_loop resume_from rd =
     (case reader_next rd of
        Inl e \<Rightarrow> ([], Some e)
      | Inr (None, _) \<Rightarrow> ([], None)
      | Inr (Some r, rd') \<Rightarrow>
          if rh_sequence (wr_header r) < ucast resume_from then replay_loop resume_from rd'
          else (let (cs, e) = replay_loop resume_from rd' in (EventHandler r # cs, e)))"
  by pat_completeness auto

termination replay_loop
  by (relation "measure (\<lambda>(s, rd). length (rd_file rd) - rd_pos rd)") (auto dest: reader_next_pos)

declare replay_loop.simps [simp del]

text \<open>\<open>execute\<close>: the calls of the handlers in order, and the exception that ended it, if any.\<close>

definition execute :: "ReplayDriver \<Rightarrow> FileSystem \<Rightarrow> ReplayCall list \<times> string option" where
  "execute d fs =
     (if \<not> rd_event_handler d then ([], Some ''event handler not set for replay'')
      else case latest (rd_store d) fs of
        Inl e \<Rightarrow> ([], Some e)
      | Inr snap \<Rightarrow>
          (let resume_from = (case snap of None \<Rightarrow> 1 | Some s \<Rightarrow> sr_sequence s + 1);
               restored = (case snap of
                   Some s \<Rightarrow> if rd_snapshot_handler d then [SnapshotHandler (sr_sequence s) (sr_payload s)] else []
                 | None \<Rightarrow> [])
           in case fs (rd_wal_path d) of
                None \<Rightarrow> (restored, None)
              | Some wal \<Rightarrow> (let (cs, e) = replay_loop resume_from (open_reader wal) in (restored @ cs, e))))"

section \<open>What is replayed\<close>

lemma replay_loop_read_all:
  "replay_loop s rd = (case read_all rd of (rs, e) \<Rightarrow>
     (map EventHandler (filter (\<lambda>r. \<not> rh_sequence (wr_header r) < ucast s) rs), e))"
proof (induction s rd rule: replay_loop.induct)
  case (1 s rd)
  show ?case
  proof (cases "reader_next rd")
    case (Inl e)
    then show ?thesis by (subst replay_loop.simps, subst read_all.simps) (simp del: read_all.simps)
  next
    case (Inr x)
    obtain r rd' where x: "x = (r, rd')" by (cases x)
    show ?thesis
    proof (cases r)
      case None
      then show ?thesis using Inr x by (subst replay_loop.simps, subst read_all.simps) (simp del: read_all.simps)
    next
      case (Some r')
      then show ?thesis using Inr x 1(1) [OF Inr x [symmetric] Some] 1(2) [OF Inr x [symmetric] Some]
        by (subst replay_loop.simps, subst read_all.simps)
          (simp del: read_all.simps add: case_prod_unfold Let_def not_less)
    qed
  qed
qed

lemma filter_numbered:
  "length ps + k < 2 ^ 64 \<Longrightarrow>
     filter (\<lambda>r. \<not> rh_sequence (wr_header r) < of_nat n) (numbered (of_nat (k + 1)) ps) = drop (n - (k + 1)) (numbered (of_nat (k + 1)) ps)"
  if "n < 2 ^ 64"
proof (induction ps arbitrary: k)
  case (Cons p ps)
  obtain reserved payload where p: "p = (reserved, payload)" by (cases p)
  have kn: "k + 1 < 2 ^ 64" using Cons.prems by simp
  have "(of_nat (k + 1) :: u64) < of_nat n \<longleftrightarrow> k + 1 < n"
    using kn that by (simp add: word_less_nat_alt unat_of_nat del: of_nat_add of_nat_Suc)
  moreover have "rh_sequence (wr_header (wal_record s reserved payload)) = s" for s by (simp add: wal_record_def)
  moreover have "numbered (of_nat (k + 1)) (p # ps) = wal_record (of_nat (k + 1)) reserved payload # numbered (of_nat (Suc k + 1)) ps"
    by (simp add: p add.commute)
  moreover have "filter (\<lambda>r. \<not> rh_sequence (wr_header r) < of_nat n) (numbered (of_nat (Suc k + 1)) ps)
      = drop (n - (Suc k + 1)) (numbered (of_nat (Suc k + 1)) ps)"
    using Cons.IH [of "Suc k"] Cons.prems by (simp del: numbered.simps of_nat_add of_nat_Suc)
  ultimately show ?case
    by (cases "k + 1 < n") (auto simp: drop_Cons' simp del: numbered.simps of_nat_add of_nat_Suc)
qed simp

definition snapshot_number :: "SnapshotRecord option \<Rightarrow> SequenceId" where
  "snapshot_number snap = (case snap of None \<Rightarrow> 0 | Some s \<Rightarrow> sr_sequence s)"

lemma execute_log:
  assumes "rd_event_handler d" and "rd_snapshot_handler d" and "latest (rd_store d) fs = Inr snap"
    and "snapshot_number snap < 2 ^ 32 - 1" and "fs (rd_wal_path d) = Some (log_bytes (numbered 1 ps))"
    and "list_all payload_ok ps" and "length ps < 2 ^ 64 - 1"
  shows "execute d fs
     = ((case snap of None \<Rightarrow> [] | Some s \<Rightarrow> [SnapshotHandler (sr_sequence s) (sr_payload s)])
          @ map EventHandler (drop (unat (snapshot_number snap)) (numbered 1 ps)), None)"
proof -
  let ?n = "snapshot_number snap"
  have n: "Suc (unat ?n) < 2 ^ 32" using assms(4) by (simp add: word_less_nat_alt)
  have resume: "(case snap of None \<Rightarrow> 1 | Some s \<Rightarrow> sr_sequence s + 1) = ?n + 1"
    by (simp add: snapshot_number_def split: option.splits)
  have "unat (?n + 1) = Suc (unat ?n)" using n by (simp add: unat_word_ariths)
  then have "(ucast (?n + 1) :: u64) = of_nat (Suc (unat ?n))"
    by (metis of_nat_unat)
  moreover have "filter (\<lambda>r. \<not> rh_sequence (wr_header r) < of_nat (Suc (unat ?n))) (numbered 1 ps) = drop (unat ?n) (numbered 1 ps)"
  proof -
    have one: "(of_nat (0 + 1) :: u64) = 1" by simp
    show ?thesis using filter_numbered [of "Suc (unat ?n)" ps 0] n assms(7) unfolding one by (simp del: of_nat_Suc)
  qed
  ultimately have "replay_loop (?n + 1) (open_reader (log_bytes (numbered 1 ps))) = (map EventHandler (drop (unat ?n) (numbered 1 ps)), None)"
    by (simp add: replay_loop_read_all read_log [OF numbered_ok [OF assms(6)]] del: read_all.simps of_nat_Suc)
  then show ?thesis
    using assms(1-3,5) by (simp add: execute_def resume split: option.splits)
qed

text \<open>
  C37. Recovery is exact: when the log holds the payloads of any writer sessions and the newest snapshot has
  sequence number \<open>n\<close> below the largest 32-bit number (0 when there is no snapshot), the driver restores
  that snapshot and then delivers exactly the log records after number \<open>n\<close>, each once and in order,
  without an error.
\<close>

theorem replay_exact:
  assumes "rd_event_handler d" and "rd_snapshot_handler d" and "latest (rd_store d) fs = Inr snap"
    and "snapshot_number snap < 2 ^ 32 - 1"
    and "fs (rd_wal_path d) = Some wal" and "wal_sessions full_stdio sessions [] = Inr wal"
    and "list_all payload_ok (concat (map snd sessions))" and "length (concat (map snd sessions)) < 2 ^ 64 - 1"
  shows "execute d fs
     = ((case snap of None \<Rightarrow> [] | Some s \<Rightarrow> [SnapshotHandler (sr_sequence s) (sr_payload s)])
          @ map EventHandler (drop (unat (snapshot_number snap)) (numbered 1 (concat (map snd sessions)))), None)"
proof -
  have "wal = log_bytes (numbered 1 (concat (map snd sessions)))"
    using wal_sessions_full [of "[]" sessions] assms(6,7) by simp
  then show ?thesis using execute_log [OF assms(1-4) _ assms(7,8)] assms(5) by simp
qed

theorem replay_exact_witness:
  "\<exists>fs d wal. wal_sessions full_stdio [(0, [(0, [1]), (0, [2])]), (99, [(0, [3])])] [] = Inr wal
     \<and> fs ''events.wal'' = Some wal
     \<and> execute d fs = ([SnapshotHandler 2 [9], EventHandler (wal_record 3 0 [3])], None)"
proof -
  let ?ss = "[(0, [(0, [1]), (0, [2])]), (99, [(0, [3])])] :: (nat \<times> (u16 \<times> bytes) list) list"
  let ?d = "set_event_handler True (set_snapshot_handler True (configure_replay ''snap'' ''events.wal'' new_driver))"
  have ok: "list_all payload_ok (concat (map snd ?ss))" by (simp add: payload_ok_def)
  obtain wal where wal: "wal_sessions full_stdio ?ss [] = Inr wal" using wal_sessions_full [of "[]" ?ss] ok by auto
  define fs where "fs = [''snap/snapshot.tc'' \<mapsto> snapshot_file [(2, [9])], ''events.wal'' \<mapsto> wal]"
  have path: "ss_file_path (rd_store ?d) = ''snap/snapshot.tc''"
    by (simp add: set_event_handler_def set_snapshot_handler_def configure_replay_def prepare_def path_join_def)
  have "load_records ''snap/snapshot.tc'' fs = Inr [encoded (2, [9])]"
    using load_snapshot_file [of "[(2, [9])]"] by (simp add: load_records_def fs_def saved_ok_def)
  then have lat: "latest (rd_store ?d) fs = Inr (Some \<lparr>sr_sequence = 2, sr_payload = [9]\<rparr>)"
    unfolding latest_def path by (simp add: fs_def encoded_def new_snapshot_header_def)
  have wp: "rd_wal_path ?d = ''events.wal''" "fs ''events.wal'' = Some wal"
    by (simp_all add: set_event_handler_def set_snapshot_handler_def configure_replay_def fs_def)
  have "execute ?d fs = ([SnapshotHandler 2 [9]] @ map EventHandler (drop 2 (numbered 1 (concat (map snd ?ss)))), None)"
    using replay_exact [OF _ _ lat _ _ wal ok] wp
    by (simp add: snapshot_number_def set_event_handler_def set_snapshot_handler_def)
  then show ?thesis using wal wp(2) by (intro exI [of _ fs] exI [of _ ?d] exI [of _ wal]) simp
qed

text \<open>
  At the largest 32-bit number, which the daemon uses for every later snapshot, the resume point wraps to
  zero and the whole log is delivered again.
\<close>

lemma replay_resume_wraps:
  assumes "rd_event_handler d" and "latest (rd_store d) fs = Inr (Some \<lparr>sr_sequence = 2 ^ 32 - 1, sr_payload = p\<rparr>)"
    and "fs (rd_wal_path d) = Some (log_bytes rs)" and "list_all record_ok rs"
  shows "\<exists>restored. fst (execute d fs) = restored @ map EventHandler rs"
  using assms by (simp add: execute_def replay_loop_read_all read_log Let_def del: read_all.simps)

end
