(* ===== verification/Auth.thy ===== *)
theory Auth
  imports Wire
begin

text \<open>
  Authentication (\<open>libs/auth\<close>): the registry of public keys and the check of the signature of a frame.
  The signature scheme is libsodium's: its functions are parameters. \<open>crypto_verify signature message key\<close>
  stands for \<open>crypto_sign_verify_detached\<close> returning 0, \<open>crypto_sign message key\<close> for
  \<open>crypto_sign_detached\<close>, with no value when it fails, and a key pair is what \<open>crypto_sign_keypair\<close> gives.
\<close>

section \<open>The key registry\<close>

definition kPublicKeySize :: nat where "kPublicKeySize = 32"
definition kSecretKeySize :: nat where "kSecretKeySize = 64"
definition kSignatureSize :: nat where "kSignatureSize = 64"

type_synonym PublicKey = bytes
type_synonym SecretKey = bytes
type_synonym Signature = bytes
type_synonym CryptoVerify = "Signature \<Rightarrow> bytes \<Rightarrow> PublicKey \<Rightarrow> bool"

type_synonym Authenticator = "(AccountId \<times> PublicKey) list"

text \<open>Whether \<open>sodium_init\<close> succeeds is a parameter, like the pair of keys that \<open>crypto_sign_keypair\<close> makes.\<close>

definition ensure_sodium_init :: "bool \<Rightarrow> string option" where
  "ensure_sodium_init sodium_init = (if sodium_init then None else Some ''Failed to initialize libsodium'')"

definition new_authenticator :: "bool \<Rightarrow> string + Authenticator" where
  "new_authenticator sodium_init = (case ensure_sodium_init sodium_init of Some e \<Rightarrow> Inl e | None \<Rightarrow> Inr [])"

definition generate_keypair :: "bool \<Rightarrow> PublicKey \<times> SecretKey \<Rightarrow> string + PublicKey \<times> SecretKey" where
  "generate_keypair sodium_init keypair = (case ensure_sodium_init sodium_init of Some e \<Rightarrow> Inl e | None \<Rightarrow> Inr keypair)"

lemma sodium_simps [simp]:
  "new_authenticator True = Inr []" "new_authenticator False = Inl ''Failed to initialize libsodium''"
  "generate_keypair True keypair = Inr keypair"
  by (simp_all add: new_authenticator_def generate_keypair_def ensure_sodium_init_def)

definition register_account :: "AccountId \<Rightarrow> PublicKey \<Rightarrow> Authenticator \<Rightarrow> Authenticator" where
  "register_account account public_key keys = umap_put account public_key keys"

definition unregister_account :: "AccountId \<Rightarrow> Authenticator \<Rightarrow> Authenticator" where
  "unregister_account account keys = umap_erase account keys"

definition get_public_key :: "AccountId \<Rightarrow> Authenticator \<Rightarrow> PublicKey option" where
  "get_public_key account keys = umap_find account keys"

definition has_account :: "AccountId \<Rightarrow> Authenticator \<Rightarrow> bool" where
  "has_account account keys \<longleftrightarrow> umap_find account keys \<noteq> None"

definition account_count :: "Authenticator \<Rightarrow> nat" where
  "account_count keys = length keys"

definition verify_with_key :: "CryptoVerify \<Rightarrow> PublicKey \<Rightarrow> bytes \<Rightarrow> Signature \<Rightarrow> bool" where
  "verify_with_key crypto_verify public_key message signature = crypto_verify signature message public_key"

definition verify :: "CryptoVerify \<Rightarrow> AccountId \<Rightarrow> bytes \<Rightarrow> Signature \<Rightarrow> Authenticator \<Rightarrow> bool" where
  "verify crypto_verify account message signature keys =
     (case get_public_key account keys of
        None \<Rightarrow> False
      | Some key \<Rightarrow> verify_with_key crypto_verify key message signature)"

definition sign :: "(bytes \<Rightarrow> SecretKey \<Rightarrow> Signature option) \<Rightarrow> SecretKey \<Rightarrow> bytes \<Rightarrow> Signature option" where
  "sign crypto_sign secret_key message = crypto_sign message secret_key"

section \<open>Frames\<close>

definition verify_frame :: "CryptoVerify \<Rightarrow> bytes \<Rightarrow> bytes \<Rightarrow> AccountId \<Rightarrow> Authenticator \<Rightarrow> bool" where
  "verify_frame crypto_verify header_data payload account keys =
     (if length payload < kSignatureSize then False
      else
        (let signature = take kSignatureSize payload;
             message0 = header_data;
             message = (if length payload > kSignatureSize then message0 @ drop kSignatureSize payload else message0)
         in verify crypto_verify account message signature keys))"

text \<open>
  The daemon passes the memory of the \<open>FrameHeader\<close> object: its fields, and six bytes of padding that no
  code sets, which are a parameter.
\<close>

definition frame_header_image :: "bytes \<Rightarrow> FrameHeader \<Rightarrow> bytes" where
  "frame_header_image padding h =
     put_le 8 (fh_account h) @ put_le 8 (fh_nonce h) @ put_le 8 (i64_word (received_time_ns h))
       @ [priority h, kind_to_byte (fh_kind h)] @ padding"

definition auth_verifier :: "CryptoVerify \<Rightarrow> (FrameHeader \<Rightarrow> bytes) \<Rightarrow> Authenticator \<Rightarrow> FrameHeader \<Rightarrow> bytes \<Rightarrow> bool" where
  "auth_verifier crypto_verify padding keys header payload =
     verify_frame crypto_verify (frame_header_image (padding header) header) payload (fh_account header) keys"

section \<open>The registry as a map\<close>

datatype AuthOp = Register AccountId PublicKey | Unregister AccountId

fun auth_step :: "AuthOp \<Rightarrow> Authenticator \<Rightarrow> Authenticator" where
  "auth_step (Register a k) keys = register_account a k keys"
| "auth_step (Unregister a) keys = unregister_account a keys"

fun key_step :: "AuthOp \<Rightarrow> (AccountId \<rightharpoonup> PublicKey) \<Rightarrow> (AccountId \<rightharpoonup> PublicKey)" where
  "key_step (Register a k) m = m(a \<mapsto> k)"
| "key_step (Unregister a) m = m(a := None)"

lemma auth_keys:
  "get_public_key account (fold auth_step ops keys) = fold key_step ops (\<lambda>a. umap_find a keys) account"
proof (induction ops arbitrary: keys)
  case Nil
  then show ?case by (simp add: get_public_key_def)
next
  case (Cons op ops)
  have "(\<lambda>a. umap_find a (auth_step op keys)) = key_step op (\<lambda>a. umap_find a keys)"
    by (cases op) (auto simp: register_account_def unregister_account_def)
  then show ?case by (simp add: Cons)
qed

lemma auth_distinct: "distinct (map fst keys) \<Longrightarrow> distinct (map fst (fold auth_step ops keys))"
proof (induction ops arbitrary: keys)
  case (Cons op ops)
  have "distinct (map fst (auth_step op keys))"
    using Cons.prems by (cases op) (simp_all add: register_account_def unregister_account_def)
  then show ?case using Cons.IH by simp
qed simp

lemma account_count_card:
  "account_count (fold auth_step ops []) = card {a. has_account a (fold auth_step ops [])}"
proof -
  let ?keys = "fold auth_step ops []"
  have "{a. has_account a ?keys} = fst ` set ?keys" by (auto simp: has_account_def umap_find_None)
  moreover have "card (fst ` set ?keys) = length ?keys"
    using distinct_card [OF auth_distinct [of "[]" ops]] by simp
  ultimately show ?thesis by (simp add: account_count_def)
qed

section \<open>Signed frames\<close>

text \<open>What a client sends: the signature of the header and the message, then the message.\<close>

definition signed_payload :: "(bytes \<Rightarrow> SecretKey \<Rightarrow> Signature option) \<Rightarrow> SecretKey \<Rightarrow> bytes \<Rightarrow> bytes \<Rightarrow> bytes option" where
  "signed_payload crypto_sign secret_key header_data message =
     map_option (\<lambda>s. s @ message) (sign crypto_sign secret_key (header_data @ message))"

text \<open>
  A frame that the account's key has signed is accepted, and only registered accounts are: for a scheme
  whose signatures have 64 bytes and verify with the matching key, the signed payload passes exactly when
  the key is the one that is registered last for the account and has not been removed since, or another
  registered key happens to verify it.
\<close>

lemma signed_frame_accepted:
  assumes "\<And>m s. crypto_sign m secret = Some s \<Longrightarrow> length s = kSignatureSize \<and> crypto_verify s m public"
    and "signed_payload crypto_sign secret header_data message = Some payload"
  shows "verify_frame crypto_verify header_data payload account (fold auth_step ops [])
     \<longleftrightarrow> (case fold key_step ops Map.empty account of
            None \<Rightarrow> False
          | Some key \<Rightarrow> key = public \<or> crypto_verify (take kSignatureSize payload) (header_data @ message) key)"
proof -
  obtain s where s: "crypto_sign (header_data @ message) secret = Some s" "payload = s @ message"
    using assms(2) by (auto simp: signed_payload_def sign_def)
  have "get_public_key account (fold auth_step ops []) = fold key_step ops Map.empty account"
    using auth_keys [of account ops "[]"] by (simp add: fun_eq_iff)
  with assms(1) [OF s(1)] s(2) show ?thesis
    by (auto simp: verify_frame_def verify_def verify_with_key_def Let_def split: option.splits)
qed

text \<open>
  The messages that the decoders read lie within the 64 bytes of the signature: what comes after it, which is
  the signed message, has no effect on them.
\<close>

lemma decode_first_bytes:
  assumes "kSignatureSize \<le> length payload"
  shows "decode_new_order (take kSignatureSize payload @ message) = decode_new_order payload"
    "decode_cancel (take kSignatureSize payload @ message) = decode_cancel payload"
    "decode_replace (take kSignatureSize payload @ message) = decode_replace payload"
proof -
  have t: "take n (drop k (take kSignatureSize payload @ message)) = take n (drop k payload)" if "n + k \<le> kSignatureSize" for n k
    using that assms by (auto simp: drop_take min_def)
  have t0: "take n (take kSignatureSize payload @ message) = take n payload" if "n \<le> kSignatureSize" for n
    using t [of n 0] that by simp
  show "decode_new_order (take kSignatureSize payload @ message) = decode_new_order payload"
    "decode_cancel (take kSignatureSize payload @ message) = decode_cancel payload"
    "decode_replace (take kSignatureSize payload @ message) = decode_replace payload"
    using assms by (simp_all add: decode_new_order_eq decode_cancel_eq decode_replace_eq t t0 kNewOrderEncodedSize_def
        kCancelEncodedSize_def kReplaceEncodedSize_def kSignatureSize_def drop_take)
qed

lemma verified_length: "auth_verifier crypto_verify padding keys header payload \<Longrightarrow> kSignatureSize \<le> length payload"
  by (auto simp: auth_verifier_def verify_frame_def split: if_splits)

end
