(* ===== verification/Api_Router.thy ===== *)
theory Api_Router
  imports Wire
begin

text \<open>
  The API router (\<open>libs/api\<close>): the registered endpoints, the answers to the RPC methods, and the two
  bounded feeds of recent frames and trades. A provider of the node state is a set of optional callbacks,
  here the values they return. The locks make every operation atomic.
\<close>

section \<open>State\<close>

record ExpressFeedFrame =
  ef_wal_offset :: u64
  ef_payload :: bytes

record TradeMetadata =
  tm_wal_offset :: u64
  tm_order_id :: OrderId
  tm_account :: AccountId
  tm_market :: MarketId
  tm_price :: int
  tm_quantity :: int
  tm_timestamp_ns :: int

record NodeStatus =
  ns_chain_id :: u64
  ns_block_number :: u64
  ns_peer_connections :: u64
  ns_healthy :: bool

record NodeStateProvider =
  np_chain_id :: "u64 option"
  np_block_number :: "u64 option"
  np_peer_connections :: "u64 option"
  np_healthy :: "bool option"

record ApiRouter =
  endpoints :: "string list"
  express_feed_frames :: "ExpressFeedFrame list"
  trade_metadata :: "TradeMetadata list"
  express_feed_capacity :: nat
  trade_metadata_capacity :: nat
  node_state_provider :: NodeStateProvider

definition kDefaultBufferCapacity :: nat where "kDefaultBufferCapacity = 4096"

definition no_provider :: NodeStateProvider where
  "no_provider = \<lparr>np_chain_id = None, np_block_number = None, np_peer_connections = None, np_healthy = None\<rparr>"

definition new_router :: "nat \<Rightarrow> nat \<Rightarrow> ApiRouter" where
  "new_router feed_capacity metadata_capacity =
     \<lparr>endpoints = [], express_feed_frames = [], trade_metadata = [], express_feed_capacity = max 1 feed_capacity,
      trade_metadata_capacity = max 1 metadata_capacity, node_state_provider = no_provider\<rparr>"

section \<open>Endpoints and node state\<close>

definition register_endpoint :: "string \<Rightarrow> ApiRouter \<Rightarrow> ApiRouter" where
  "register_endpoint name r = (if name = [] then r else r\<lparr>endpoints := List.insert name (endpoints r)\<rparr>)"

definition has_endpoint :: "string \<Rightarrow> ApiRouter \<Rightarrow> bool" where
  "has_endpoint name r \<longleftrightarrow> name \<in> set (endpoints r)"

definition endpoint_count :: "ApiRouter \<Rightarrow> nat" where
  "endpoint_count r = length (endpoints r)"

definition set_node_state_provider :: "NodeStateProvider \<Rightarrow> ApiRouter \<Rightarrow> ApiRouter" where
  "set_node_state_provider provider r = r\<lparr>node_state_provider := provider\<rparr>"

definition value_or :: "'a \<Rightarrow> 'a option \<Rightarrow> 'a" where
  "value_or d x = (case x of None \<Rightarrow> d | Some v \<Rightarrow> v)"

definition node_status :: "ApiRouter \<Rightarrow> NodeStatus" where
  "node_status r =
     (let p = node_state_provider r
      in \<lparr>ns_chain_id = value_or 1 (np_chain_id p), ns_block_number = value_or 0 (np_block_number p),
          ns_peer_connections = value_or 0 (np_peer_connections p), ns_healthy = value_or True (np_healthy p)\<rparr>)"

section \<open>Formatting and RPC\<close>

definition digit_char :: "nat \<Rightarrow> char" where
  "digit_char d = (if d < 10 then char_of (48 + d) else char_of (87 + d))"

function digits :: "nat \<Rightarrow> nat \<Rightarrow> string" where
  "digits base n = (if base < 2 \<or> n < base then [digit_char n] else digits base (n div base) @ [digit_char (n mod base)])"
  by pat_completeness auto

termination digits
  by (relation "measure snd") auto

declare digits.simps [simp del]

definition to_hex :: "u64 \<Rightarrow> string" where
  "to_hex v = ''0x'' @ digits 16 (unat v)"

definition eth_chain_id :: "ApiRouter \<Rightarrow> string" where
  "eth_chain_id r = to_hex (ns_chain_id (node_status r))"

definition eth_block_number :: "ApiRouter \<Rightarrow> string" where
  "eth_block_number r = to_hex (ns_block_number (node_status r))"

definition quote :: string where "quote = [CHR 0x22]"

definition quoted :: "string \<Rightarrow> string" where
  "quoted s = quote @ s @ quote"

definition monmouth_node_status :: "ApiRouter \<Rightarrow> string" where
  "monmouth_node_status r =
     (let status = node_status r
      in ''{'' @ quoted ''healthy'' @ '':'' @ (if ns_healthy status then ''true'' else ''false'')
           @ '','' @ quoted ''chainId'' @ '':'' @ quoted (to_hex (ns_chain_id status))
           @ '','' @ quoted ''blockNumber'' @ '':'' @ quoted (to_hex (ns_block_number status))
           @ '','' @ quoted ''peerConnections'' @ '':'' @ digits 10 (unat (ns_peer_connections status)) @ ''}'')"

definition rpc_result :: "string \<Rightarrow> ApiRouter \<Rightarrow> string" where
  "rpc_result meth r =
     (if meth = ''eth_chainId'' then eth_chain_id r
      else if meth = ''eth_blockNumber'' then eth_block_number r
      else if meth = ''monmouth_nodeStatus'' then monmouth_node_status r
      else ''{'' @ quoted ''error'' @ '':'' @ quoted ''method not found'' @ ''}'')"

section \<open>The feeds\<close>

text \<open>The loop \<open>while (buffer.size() >= max_size) buffer.pop_front()\<close>, then the push.\<close>

function evict :: "'a list \<Rightarrow> nat \<Rightarrow> 'a list" where
  "evict buffer max_size = (if length buffer \<ge> max_size \<and> buffer \<noteq> [] then evict (tl buffer) max_size else buffer)"
  by pat_completeness auto

termination evict
  by (relation "measure (\<lambda>(b, m). length b)") auto

declare evict.simps [simp del]

definition push_with_fifo_eviction :: "'a list \<Rightarrow> nat \<Rightarrow> 'a \<Rightarrow> 'a list" where
  "push_with_fifo_eviction buffer max_size v = (if max_size = 0 then buffer else evict buffer max_size @ [v])"

definition push_express_feed_frame :: "ExpressFeedFrame \<Rightarrow> ApiRouter \<Rightarrow> ApiRouter" where
  "push_express_feed_frame f r =
     r\<lparr>express_feed_frames := push_with_fifo_eviction (express_feed_frames r) (express_feed_capacity r) f\<rparr>"

definition get_express_feed_frames :: "u64 \<Rightarrow> ApiRouter \<Rightarrow> ExpressFeedFrame list" where
  "get_express_feed_frames min_wal_offset r = filter (\<lambda>f. ef_wal_offset f \<ge> min_wal_offset) (express_feed_frames r)"

definition express_feed_frame_count :: "ApiRouter \<Rightarrow> nat" where
  "express_feed_frame_count r = length (express_feed_frames r)"

definition push_trade_metadata :: "TradeMetadata \<Rightarrow> ApiRouter \<Rightarrow> ApiRouter" where
  "push_trade_metadata t r =
     r\<lparr>trade_metadata := push_with_fifo_eviction (trade_metadata r) (trade_metadata_capacity r) t\<rparr>"

definition get_trade_metadata :: "u64 \<Rightarrow> ApiRouter \<Rightarrow> TradeMetadata list" where
  "get_trade_metadata min_wal_offset r = filter (\<lambda>t. tm_wal_offset t \<ge> min_wal_offset) (trade_metadata r)"

definition trade_metadata_count :: "ApiRouter \<Rightarrow> nat" where
  "trade_metadata_count r = length (trade_metadata r)"

section \<open>The feeds keep the newest entries\<close>

lemma evict_eq: "0 < n \<Longrightarrow> evict b n = drop (length b - (n - 1)) b"
proof (induction b n rule: evict.induct)
  case (1 b n)
  show ?case
  proof (cases "length b \<ge> n \<and> b \<noteq> []")
    case True
    then obtain x b' where b: "b = x # b'" by (cases b) auto
    have "length b - (n - 1) = Suc (length b' - (n - 1))" using True 1(2) by (simp add: b)
    then show ?thesis using 1 True by (simp add: b evict.simps [of "x # b'"])
  next
    case False
    then show ?thesis using 1(2) by (subst evict.simps) auto
  qed
qed

lemma push_all_newest:
  assumes "0 < n"
  shows "fold (\<lambda>x b. push_with_fifo_eviction b n x) xs (drop (length ys - n) ys) = drop (length (ys @ xs) - n) (ys @ xs)"
proof (induction xs arbitrary: ys)
  case Nil
  then show ?case by simp
next
  case (Cons x xs)
  have "push_with_fifo_eviction (drop (length ys - n) ys) n x = drop (length (ys @ [x]) - n) (ys @ [x])"
    using assms by (cases "n \<le> length ys") (auto simp: push_with_fifo_eviction_def evict_eq Suc_diff_le)
  then show ?case using Cons [of "ys @ [x]"] by simp
qed

text \<open>
  The express feed holds exactly the newest frames: after any sequence of pushes it is the last of them,
  as many as the capacity allows, in order; and asking from a log offset on returns those of them that
  have this offset or a later one.
\<close>

lemma express_feed_newest:
  "get_express_feed_frames n (fold push_express_feed_frame fs (new_router feed_capacity metadata_capacity))
     = filter (\<lambda>f. ef_wal_offset f \<ge> n) (drop (length fs - max 1 feed_capacity) fs)"
proof -
  have "fold push_express_feed_frame fs r
      = r\<lparr>express_feed_frames := fold (\<lambda>x b. push_with_fifo_eviction b (express_feed_capacity r) x) fs (express_feed_frames r)\<rparr>" for r
    by (induction fs arbitrary: r) (simp_all add: push_express_feed_frame_def)
  then show ?thesis
    using push_all_newest [of "max 1 feed_capacity" fs "[]"] by (simp add: get_express_feed_frames_def new_router_def)
qed

section \<open>Hexadecimal numbers\<close>

definition digit_of :: "char \<Rightarrow> nat" where
  "digit_of c = (let n = of_char c :: nat in if n < 58 then n - 48 else n - 87)"

definition number_of :: "nat \<Rightarrow> string \<Rightarrow> nat" where
  "number_of base s = foldl (\<lambda>n c. n * base + digit_of c) 0 s"

lemma digit_of_char: "d < 16 \<Longrightarrow> digit_of (digit_char d) = d"
  by (auto simp: digit_of_def digit_char_def Let_def of_char_of take_bit_nat_def)

lemma number_of_digits: "2 \<le> base \<Longrightarrow> base \<le> 16 \<Longrightarrow> number_of base (digits base n) = n"
proof (induction base n rule: digits.induct)
  case (1 base n)
  show ?case
  proof (cases "base < 2 \<or> n < base")
    case True
    then have "digits base n = [digit_char n]" by (subst digits.simps) simp
    then show ?thesis using True 1(2,3) by (simp add: number_of_def digit_of_char)
  next
    case False
    then have "digits base n = digits base (n div base) @ [digit_char (n mod base)]" by (subst digits.simps) simp
    moreover have "n mod base < base" using 1(2) by simp
    ultimately show ?thesis using 1(1) [OF False 1(2,3)] 1(3) by (simp add: number_of_def digit_of_char)
  qed
qed

text \<open>The hexadecimal answers can be read back: they identify the chain and the block.\<close>

lemma to_hex_number: "take 2 (to_hex v) = ''0x'' \<and> of_nat (number_of 16 (drop 2 (to_hex v))) = v"
  by (simp add: to_hex_def number_of_digits)

end
