(* ===== verification/Telemetry.thy ===== *)
theory Telemetry
  imports Types
begin

text \<open>
  Telemetry (\<open>libs/telemetry\<close>): the streaming histogram with power-of-two buckets and the sink that
  collects samples and latencies. Floating-point arithmetic is not modelled: the mean is the exact
  quotient, and the rank that a percentile asks for, \<open>count * p\<close> converted to an integer, is an argument.
\<close>

section \<open>The histogram\<close>

definition kNumBuckets :: nat where "kNumBuckets = 30"
definition kMaxMetricId :: nat where "kMaxMetricId = 1024"

record StreamingHistogram =
  buckets :: "u64 list"
  hcount :: u64
  hsum :: int
  hmin :: int
  hmax :: int

definition new_histogram :: StreamingHistogram where
  "new_histogram = \<lparr>buckets = replicate kNumBuckets 0, hcount = 0, hsum = 0, hmin = 2 ^ 63 - 1, hmax = 0\<rparr>"

text \<open>\<open>std::bit_width\<close>.\<close>

fun bit_width :: "nat \<Rightarrow> nat" where
  "bit_width n = (if n = 0 then 0 else Suc (bit_width (n div 2)))"

declare bit_width.simps [simp del]

definition bucket_index :: "int \<Rightarrow> nat" where
  "bucket_index value_ns = (if value_ns \<le> 0 then 0 else min (bit_width (nat value_ns)) (kNumBuckets - 1))"

text \<open>
  The shift count \<open>idx - 2\<close> is a \<open>std::size_t\<close>: at index 1 it wraps around to more than the width of the
  type, and the shift is undefined.
\<close>

definition bucket_midpoint :: "nat \<Rightarrow> int option" where
  "bucket_midpoint idx =
     (if idx = 0 then Some 1
      else (let shift = of_nat idx - 2 :: u64 in if shift \<ge> 64 then None else Some (i64 (3 * 2 ^ unat shift))))"

definition record_value :: "int \<Rightarrow> StreamingHistogram \<Rightarrow> StreamingHistogram" where
  "record_value value_ns h =
     (let idx = bucket_index value_ns
      in h\<lparr>buckets := (buckets h)[idx := buckets h ! idx + 1], hcount := hcount h + 1, hsum := i64 (hsum h + value_ns),
           hmin := min (hmin h) value_ns, hmax := max (hmax h) value_ns\<rparr>)"

definition reset_histogram :: "StreamingHistogram \<Rightarrow> StreamingHistogram" where
  "reset_histogram h = h\<lparr>buckets := replicate kNumBuckets 0, hcount := 0, hsum := 0, hmin := 2 ^ 63 - 1, hmax := 0\<rparr>"

definition mean :: "StreamingHistogram \<Rightarrow> int \<times> u64" where
  "mean h = (if hcount h = 0 then (0, 1) else (hsum h, hcount h))"

text \<open>The loop of \<open>percentile\<close>: the first bucket at which the running total reaches the rank.\<close>

fun rank_bucket :: "u64 \<Rightarrow> u64 \<Rightarrow> nat \<Rightarrow> u64 list \<Rightarrow> nat option" where
  "rank_bucket target cumulative idx [] = None"
| "rank_bucket target cumulative idx (b # bs) =
     (let cumulative' = cumulative + b
      in if cumulative' \<ge> target then Some idx else rank_bucket target cumulative' (idx + 1) bs)"

definition percentile_at :: "u64 \<Rightarrow> StreamingHistogram \<Rightarrow> int option" where
  "percentile_at target h =
     (if hcount h = 0 then Some 0
      else case rank_bucket target 0 0 (buckets h) of
        Some idx \<Rightarrow> bucket_midpoint idx
      | None \<Rightarrow> Some (hmax h))"

section \<open>The sink\<close>

record Sample =
  sa_id :: u64
  sa_value :: int

record TelemetrySink =
  tk_buffer :: "Sample list"
  histograms :: "StreamingHistogram list"

definition new_sink :: TelemetrySink where
  "new_sink = \<lparr>tk_buffer = [], histograms = replicate kMaxMetricId new_histogram\<rparr>"

definition push_sample :: "Sample \<Rightarrow> TelemetrySink \<Rightarrow> TelemetrySink" where
  "push_sample s t = t\<lparr>tk_buffer := tk_buffer t @ [s]\<rparr>"

definition increment :: "u64 \<Rightarrow> int \<Rightarrow> TelemetrySink \<Rightarrow> TelemetrySink" where
  "increment i delta t = push_sample \<lparr>sa_id = i, sa_value = delta\<rparr> t"

definition record_latency :: "u64 \<Rightarrow> int \<Rightarrow> TelemetrySink \<Rightarrow> TelemetrySink" where
  "record_latency i latency t =
     (let idx = unat i mod kMaxMetricId
      in t\<lparr>histograms := (histograms t)[idx := record_value latency (histograms t ! idx)]\<rparr>)"

definition drain_samples :: "TelemetrySink \<Rightarrow> Sample list \<times> TelemetrySink" where
  "drain_samples t = (tk_buffer t, t\<lparr>tk_buffer := []\<rparr>)"

record LatencySummary =
  ls_id :: u64
  ls_count :: u64
  ls_mean :: "int \<times> u64"
  ls_p99 :: "int option"

text \<open>The loop of \<open>drain_latency\<close>; \<open>rank99\<close> is the floating-point product with 0.99, converted.\<close>

fun drain_histograms :: "(u64 \<Rightarrow> u64) \<Rightarrow> nat \<Rightarrow> StreamingHistogram list \<Rightarrow> LatencySummary list \<times> StreamingHistogram list" where
  "drain_histograms rank99 idx [] = ([], [])"
| "drain_histograms rank99 idx (h # hs) =
     (let (ss, hs') = drain_histograms rank99 (idx + 1) hs
      in if hcount h = 0 then (ss, h # hs')
         else (\<lparr>ls_id = of_nat idx, ls_count = hcount h, ls_mean = mean h, ls_p99 = percentile_at (rank99 (hcount h)) h\<rparr> # ss,
               reset_histogram h # hs'))"

definition drain_latency :: "(u64 \<Rightarrow> u64) \<Rightarrow> TelemetrySink \<Rightarrow> LatencySummary list \<times> TelemetrySink" where
  "drain_latency rank99 t =
     (let (ss, hs) = drain_histograms rank99 0 (histograms t) in (ss, t\<lparr>histograms := hs\<rparr>))"

section \<open>Buckets\<close>

lemma bit_width_bounds: "0 < n \<Longrightarrow> 2 ^ (bit_width n - 1) \<le> n \<and> n < 2 ^ bit_width n \<and> 0 < bit_width n"
proof (induction n rule: bit_width.induct)
  case (1 n)
  show ?case
  proof (cases "n = 1")
    case True
    then show ?thesis by (simp add: bit_width.simps)
  next
    case False
    then have "0 < n div 2" using 1(2) by auto
    then obtain k where k: "bit_width (n div 2) = Suc k" "2 ^ k \<le> n div 2" "n div 2 < 2 ^ Suc k"
      using 1(1) 1(2) by (cases "bit_width (n div 2)") auto
    then have "bit_width n = Suc (Suc k)" using 1(2) by (subst bit_width.simps) simp
    then show ?thesis using k by auto
  qed
qed

lemma bit_width_mono: "m \<le> n \<Longrightarrow> bit_width m \<le> bit_width n"
proof (cases "m = 0")
  case True
  then show ?thesis by (simp add: bit_width.simps)
next
  case False
  assume "m \<le> n"
  then have "(2 :: nat) ^ (bit_width m - 1) < 2 ^ bit_width n"
    using bit_width_bounds [of m] bit_width_bounds [of n] False by linarith
  then show ?thesis by auto
qed

lemma bucket_index_mono: "x \<le> y \<Longrightarrow> bucket_index x \<le> bucket_index y"
  using bit_width_mono [OF nat_mono, of x y] by (auto simp: bucket_index_def min_def)

lemma bucket_index_less: "bucket_index x < kNumBuckets"
  by (auto simp: bucket_index_def kNumBuckets_def min_def)

text \<open>From 2 ns up to the last bucket, the midpoint of the bucket of a value is near the value.\<close>

lemma bucket_midpoint_near:
  assumes "2 \<le> v" and "v < 2 ^ 29"
  shows "\<exists>m. bucket_midpoint (bucket_index v) = Some m \<and> 2 * m \<le> 3 * v \<and> 3 * v < 4 * m"
proof -
  let ?n = "nat v"
  have w: "2 ^ (bit_width ?n - 1) \<le> ?n" "?n < 2 ^ bit_width ?n" "0 < bit_width ?n"
    using bit_width_bounds [of ?n] assms(1) by auto
  have n: "2 \<le> ?n" "?n < 2 ^ 29" using assms by (simp_all add: le_nat_iff nat_less_iff)
  have "(2 :: nat) ^ 1 < 2 ^ bit_width ?n" using le_less_trans [OF n(1) w(2)] by (simp only: power_one_right)
  then have lo: "2 \<le> bit_width ?n" using power_less_imp_less_exp [of "2 :: nat" 1] by fastforce
  have "(2 :: nat) ^ (bit_width ?n - 1) < 2 ^ 29" using w(1) n(2) by linarith
  then have hi: "bit_width ?n \<le> 29" using power_less_imp_less_exp [of "2 :: nat" _ 29] by fastforce
  obtain k where k: "bit_width ?n = k + 2" using lo by (metis add.commute le_Suc_ex)
  then have idx: "bucket_index v = k + 2" "k \<le> 27" using hi assms(1) by (auto simp: bucket_index_def kNumBuckets_def)
  have "(3 :: int) * 2 ^ k \<le> 3 * 2 ^ 27" using power_increasing [OF idx(2), of "2 :: int"] by simp
  then have "(3 :: int) * 2 ^ k < 2 ^ 63" by (rule le_less_trans) simp
  moreover have "- (2 ^ 63) \<le> (3 :: int) * 2 ^ k" by (rule order_trans [of _ 0]) simp_all
  ultimately have "i64 (3 * 2 ^ k) = 3 * 2 ^ k" by (intro i64_id) (simp only: in64_def)
  moreover have "unat (of_nat (k + 2) - 2 :: u64) = k" using idx(2) by (simp add: unat_of_nat)
  ultimately have "bucket_midpoint (bucket_index v) = Some (3 * 2 ^ k)"
    using idx by (simp add: bucket_midpoint_def Let_def word_le_nat_alt)
  moreover have "2 * 2 ^ k \<le> v" "v < 4 * 2 ^ k"
    using w(1,2) assms(1) unfolding k by (simp_all add: nat_less_iff le_nat_iff)
  ultimately show ?thesis by auto
qed

section \<open>Percentiles\<close>

text \<open>The counts behind the buckets: how many values fall into a bucket, and into it or an earlier one.\<close>

definition in_bucket :: "int list \<Rightarrow> nat \<Rightarrow> nat" where
  "in_bucket xs i = length (filter (\<lambda>x. bucket_index x = i) xs)"

definition up_to :: "int list \<Rightarrow> nat \<Rightarrow> nat" where
  "up_to xs i = length (filter (\<lambda>x. bucket_index x < i) xs)"

lemma up_to_Suc: "up_to xs (Suc i) = up_to xs i + in_bucket xs i"
  by (induction xs) (auto simp: up_to_def in_bucket_def less_Suc_eq)

lemma up_to_le: "up_to xs i \<le> length xs" "up_to xs kNumBuckets = length xs" "up_to xs 0 = 0"
  by (auto simp: up_to_def bucket_index_less)

lemma recorded:
  "fold record_value xs new_histogram = h \<Longrightarrow>
     buckets h = map (\<lambda>i. of_nat (in_bucket xs i)) [0..<kNumBuckets] \<and> hcount h = of_nat (length xs)"
proof (induction xs arbitrary: h rule: rev_induct)
  case Nil
  then show ?case by (auto simp: new_histogram_def in_bucket_def map_replicate_const)
next
  case (snoc x xs)
  let ?h = "fold record_value xs new_histogram"
  have ih: "buckets ?h = map (\<lambda>i. of_nat (in_bucket xs i)) [0..<kNumBuckets]" "hcount ?h = of_nat (length xs)"
    using snoc.IH [OF refl] by simp_all
  have h: "h = record_value x ?h" using snoc.prems by simp
  have "(map (\<lambda>i. of_nat (in_bucket xs i)) [0..<kNumBuckets])[bucket_index x := of_nat (in_bucket xs (bucket_index x)) + 1]
      = map (\<lambda>i. of_nat (in_bucket (xs @ [x]) i) :: u64) [0..<kNumBuckets]"
    using bucket_index_less [of x] by (intro nth_equalityI) (auto simp: nth_list_update in_bucket_def)
  then show ?case using ih bucket_index_less [of x] by (simp add: h record_value_def Let_def add.commute)
qed

text \<open>The loop stops at the bucket in which the rank lies.\<close>

lemma rank_bucket_found:
  assumes "t \<le> length xs" and "length xs < 2 ^ 64" and "up_to xs k < t" and "k \<le> kNumBuckets"
  shows "\<exists>j. rank_bucket (of_nat t) (of_nat (up_to xs k)) k (map (\<lambda>i. of_nat (in_bucket xs i)) [k..<kNumBuckets]) = Some j
           \<and> up_to xs j < t \<and> t \<le> up_to xs (Suc j)"
  using assms(3,4)
proof (induction "kNumBuckets - k" arbitrary: k)
  case 0
  then show ?case using up_to_le(2) [of xs] assms(1) by simp
next
  case (Suc n)
  then have k: "[k..<kNumBuckets] = k # [Suc k..<kNumBuckets]" by (simp add: upt_conv_Cons)
  have sum: "(of_nat (up_to xs k) + of_nat (in_bucket xs k) :: u64) = of_nat (up_to xs (Suc k))"
    by (simp add: up_to_Suc)
  have cmp: "(of_nat t :: u64) \<le> of_nat (up_to xs (Suc k)) \<longleftrightarrow> t \<le> up_to xs (Suc k)"
    using assms(1,2) up_to_le(1) [of xs "Suc k"] by (simp add: word_le_nat_alt unat_of_nat)
  show ?case
  proof (cases "t \<le> up_to xs (Suc k)")
    case True
    then show ?thesis using Suc.prems sum cmp by (simp add: k Let_def)
  next
    case False
    then show ?thesis using Suc.hyps(1) [of "Suc k"] Suc.hyps(2) sum cmp by (simp add: k Let_def)
  qed
qed

lemma rank_sorted:
  assumes "sorted ys" and "0 < t" and "t \<le> length ys"
  shows "t \<le> up_to ys i \<longleftrightarrow> bucket_index (ys ! (t - 1)) < i"
  using assms
proof (induction ys arbitrary: t)
  case (Cons y ys)
  have all: "\<forall>x \<in> set ys. bucket_index y \<le> bucket_index x" using Cons.prems(1) by (auto intro: bucket_index_mono)
  show ?case
  proof (cases "bucket_index y < i")
    case True
    show ?thesis
    proof (cases "t = 1")
      case False
      then have "t - 1 \<le> up_to ys i \<longleftrightarrow> bucket_index (ys ! (t - 1 - 1)) < i"
        using Cons.IH [of "t - 1"] Cons.prems by simp
      then show ?thesis using True False Cons.prems(2) by (auto simp: up_to_def nth_Cons')
    qed (use True in \<open>simp add: up_to_def\<close>)
  next
    case False
    then have "filter (\<lambda>x. bucket_index x < i) ys = []" using all by (auto simp: filter_empty_conv)
    moreover have "(y # ys) ! (t - 1) \<in> set (y # ys)" using Cons.prems by (intro nth_mem) auto
    ultimately show ?thesis using False all Cons.prems(2) by (auto simp: up_to_def)
  qed
qed simp

lemma up_to_sort: "up_to (sort xs) i = up_to xs i"
proof -
  have "size (filter_mset P (mset (sort xs))) = size (filter_mset P (mset xs))" for P by simp
  then show ?thesis unfolding up_to_def by (metis mset_filter size_mset)
qed

text \<open>
  C39. Percentiles are right within a factor: for latencies from 2 ns up to the last bucket, the percentile
  of rank \<open>t\<close> is at most 1.5 times and more than 0.75 times the \<open>t\<close>-th smallest recorded latency.
\<close>

theorem percentile_near_rank:
  assumes "list_all (\<lambda>x. 2 \<le> x \<and> x < 2 ^ 29) xs" and "length xs < 2 ^ 64" and "0 < t" and "t \<le> length xs"
  shows "\<exists>m. percentile_at (of_nat t) (fold record_value xs new_histogram) = Some m
           \<and> 2 * m \<le> 3 * (sort xs ! (t - 1)) \<and> 3 * (sort xs ! (t - 1)) < 4 * m"
proof -
  let ?h = "fold record_value xs new_histogram" and ?v = "sort xs ! (t - 1)"
  have "?v \<in> set (sort xs)" using assms(3,4) by (intro nth_mem) simp
  then have v: "2 \<le> ?v" "?v < 2 ^ 29" using assms(1) by (auto simp: list_all_iff)
  obtain j where j: "rank_bucket (of_nat t) 0 0 (buckets ?h) = Some j" "up_to xs j < t" "t \<le> up_to xs (Suc j)"
    using rank_bucket_found [OF assms(4,2), of 0] assms(3) recorded [of xs ?h] by (auto simp: up_to_le)
  have "bucket_index ?v = j"
    using j(2,3) rank_sorted [of "sort xs" t] assms(3,4) by (simp add: up_to_sort) (metis less_antisym not_less)
  moreover have "hcount ?h \<noteq> 0"
  proof -
    have "unat (hcount ?h) = length xs" using recorded [of xs ?h] assms(2) by (simp add: unat_of_nat)
    then show ?thesis using assms(3,4) by auto
  qed
  ultimately show ?thesis using j(1) bucket_midpoint_near [OF v] by (simp add: percentile_at_def)
qed

theorem percentile_near_rank_witness:
  "\<exists>m. percentile_at (of_nat 2) (fold record_value [900, 17, 33] new_histogram) = Some m \<and> 2 * m \<le> 99 \<and> 99 < 4 * m"
  using percentile_near_rank [of "[900, 17, 33]" 2] by simp

text \<open>
  A latency of 1 ns makes the percentile undefined; and a rank of zero, which 0.99 times a count of one
  gives, is reported as 1 ns whatever was recorded.
\<close>

lemma percentile_undefined: "percentile_at 1 (record_value 1 new_histogram) = None"
proof -
  let ?h = "record_value 1 new_histogram"
  have b1: "bucket_index 1 = 1" by (simp add: bucket_index_def kNumBuckets_def bit_width.simps)
  have "buckets ?h = 0 # 1 # replicate 28 0" "hcount ?h = 1"
    by (simp_all add: record_value_def b1 new_histogram_def kNumBuckets_def Let_def numeral_eq_Suc)
  moreover have "bucket_midpoint 1 = None" by (simp add: bucket_midpoint_def Let_def)
  ultimately show ?thesis by (simp add: percentile_at_def)
qed

lemma percentile_rank_zero:
  assumes "hcount h \<noteq> 0" and "buckets h \<noteq> []" shows "percentile_at 0 h = Some 1"
  using assms by (cases "buckets h") (simp_all add: percentile_at_def bucket_midpoint_def Let_def)

text \<open>Metrics whose numbers differ by a multiple of 1024 share a histogram.\<close>

lemma metric_ids_collide: "unat i mod kMaxMetricId = unat j mod kMaxMetricId \<Longrightarrow> record_latency i x t = record_latency j x t"
  by (simp add: record_latency_def)

end
