(* ===== verification/Config.thy ===== *)
theory Config
  imports Types
begin

text \<open>
  The configuration (\<open>libs/config\<close>): reading the settings out of a parsed TOML table, with defaults, and
  validating them. The TOML library is third-party code: a table is what its accessors return for each
  key, and the outcome of parsing a file or a text, an error message or a table, is a parameter. Casts
  between integer types wrap.
\<close>

section \<open>Settings\<close>

record EngineIngressConfig =
  ec_new_order_queue_depth :: u64
  ec_cancel_queue_depth :: u64
  ec_replace_queue_depth :: u64
  ec_max_new_orders_per_second :: u32
  ec_max_cancels_per_second :: u32

record EngineRiskConfig =
  ec_contract_size :: int
  ec_initial_margin_basis_points :: int
  ec_maintenance_margin_basis_points :: int
  ec_initial_mark_price :: int

record EngineFundingConfig =
  ec_clamp_basis_points :: int
  ec_max_rate_basis_points :: int

record MarketConfig =
  mc_id :: u32
  mc_symbol :: string
  mc_risk :: EngineRiskConfig
  mc_funding :: EngineFundingConfig

record PersistenceConfig =
  wal_path :: string
  snapshot_dir :: string
  wal_flush_threshold :: u64

record TelemetryConfig =
  telemetry_enabled :: bool
  telemetry_buffer_size :: u64

record EngineConfig =
  transport_endpoint :: string
  cfg_ingress :: EngineIngressConfig
  matcher_arena_bytes :: u64
  cfg_persistence :: PersistenceConfig
  cfg_telemetry :: TelemetryConfig
  cfg_markets :: "MarketConfig list"

record ValidationError =
  ve_field :: string
  ve_message :: string

record LoadResult =
  lr_success :: bool
  lr_config :: EngineConfig
  lr_errors :: "ValidationError list"
  lr_raw_error :: string

definition default_transport_endpoint :: string where
  "default_transport_endpoint = ''quic://127.0.0.1:9000''"

definition default_engine_ingress :: EngineIngressConfig where
  "default_engine_ingress = \<lparr>ec_new_order_queue_depth = 4096, ec_cancel_queue_depth = 4096, ec_replace_queue_depth = 4096,
     ec_max_new_orders_per_second = 10000, ec_max_cancels_per_second = 20000\<rparr>"

definition default_engine_risk :: EngineRiskConfig where
  "default_engine_risk = \<lparr>ec_contract_size = 1, ec_initial_margin_basis_points = 500,
     ec_maintenance_margin_basis_points = 300, ec_initial_mark_price = 1000\<rparr>"

definition default_engine_funding :: EngineFundingConfig where
  "default_engine_funding = \<lparr>ec_clamp_basis_points = 50, ec_max_rate_basis_points = 100\<rparr>"

definition default_market :: MarketConfig where
  "default_market = \<lparr>mc_id = 1, mc_symbol = ''BTC-PERP'', mc_risk = default_engine_risk, mc_funding = default_engine_funding\<rparr>"

definition default_arena_bytes :: u64 where "default_arena_bytes = 1048576"

definition default_persistence :: PersistenceConfig where
  "default_persistence = \<lparr>wal_path = ''/var/lib/tradecore/events.wal'', snapshot_dir = ''/var/lib/tradecore/snapshots'',
     wal_flush_threshold = 128\<rparr>"

definition default_telemetry :: TelemetryConfig where
  "default_telemetry = \<lparr>telemetry_enabled = True, telemetry_buffer_size = 1024\<rparr>"

section \<open>Tables\<close>

datatype TomlTable =
  TomlTable (value_int: "string \<Rightarrow> int option") (value_str: "string \<Rightarrow> string option") (value_bool: "string \<Rightarrow> bool option")
    (as_table: "string \<Rightarrow> TomlTable option") (as_array: "string \<Rightarrow> TomlTable option list option")

definition get_int_or :: "TomlTable \<Rightarrow> string \<Rightarrow> int \<Rightarrow> int" where
  "get_int_or tbl key default_val = (case value_int tbl key of Some v \<Rightarrow> v | None \<Rightarrow> default_val)"

definition get_str_or :: "TomlTable \<Rightarrow> string \<Rightarrow> string \<Rightarrow> string" where
  "get_str_or tbl key default_val = (case value_str tbl key of Some v \<Rightarrow> v | None \<Rightarrow> default_val)"

text \<open>A setting of an unsigned type: the default passes through a signed 64-bit value, the result is cast.\<close>

definition get_word_or :: "TomlTable \<Rightarrow> string \<Rightarrow> 'a::len word \<Rightarrow> 'a word" where
  "get_word_or tbl key default_val = word_of_int (get_int_or tbl key (sint (word_of_int (uint default_val) :: u64)))"

text \<open>The cast to \<open>std::int32_t\<close>.\<close>

definition cast_i32 :: "int \<Rightarrow> int" where
  "cast_i32 x = sint (word_of_int x :: u32)"

definition parse_transport :: "TomlTable \<Rightarrow> string" where
  "parse_transport root =
     (case as_table root ''transport'' of
        None \<Rightarrow> default_transport_endpoint
      | Some t \<Rightarrow> get_str_or t ''endpoint'' default_transport_endpoint)"

definition parse_ingress :: "TomlTable \<Rightarrow> EngineIngressConfig" where
  "parse_ingress root =
     (let cfg = default_engine_ingress
      in case as_table root ''ingress'' of
        None \<Rightarrow> cfg
      | Some t \<Rightarrow>
          \<lparr>ec_new_order_queue_depth = get_word_or t ''new_order_queue_depth'' (ec_new_order_queue_depth cfg),
           ec_cancel_queue_depth = get_word_or t ''cancel_queue_depth'' (ec_cancel_queue_depth cfg),
           ec_replace_queue_depth = get_word_or t ''replace_queue_depth'' (ec_replace_queue_depth cfg),
           ec_max_new_orders_per_second = get_word_or t ''max_new_orders_per_second'' (ec_max_new_orders_per_second cfg),
           ec_max_cancels_per_second = get_word_or t ''max_cancels_per_second'' (ec_max_cancels_per_second cfg)\<rparr>)"

definition parse_matcher :: "TomlTable \<Rightarrow> u64" where
  "parse_matcher root =
     (case as_table root ''matcher'' of
        None \<Rightarrow> default_arena_bytes
      | Some t \<Rightarrow> get_word_or t ''arena_bytes'' default_arena_bytes)"

definition parse_persistence :: "TomlTable \<Rightarrow> PersistenceConfig" where
  "parse_persistence root =
     (let cfg = default_persistence
      in case as_table root ''persistence'' of
        None \<Rightarrow> cfg
      | Some t \<Rightarrow>
          \<lparr>wal_path = get_str_or t ''wal_path'' (wal_path cfg), snapshot_dir = get_str_or t ''snapshot_dir'' (snapshot_dir cfg),
           wal_flush_threshold = get_word_or t ''wal_flush_threshold'' (wal_flush_threshold cfg)\<rparr>)"

definition parse_telemetry :: "TomlTable \<Rightarrow> TelemetryConfig" where
  "parse_telemetry root =
     (let cfg = default_telemetry
      in case as_table root ''telemetry'' of
        None \<Rightarrow> cfg
      | Some t \<Rightarrow>
          \<lparr>telemetry_enabled = (case value_bool t ''enabled'' of Some v \<Rightarrow> v | None \<Rightarrow> telemetry_enabled cfg),
           telemetry_buffer_size = get_word_or t ''buffer_size'' (telemetry_buffer_size cfg)\<rparr>)"

definition parse_market :: "TomlTable \<Rightarrow> MarketConfig" where
  "parse_market market_tbl =
     (let market = default_market; rk = mc_risk market; fd = mc_funding market
      in \<lparr>mc_id = get_word_or market_tbl ''id'' (mc_id market), mc_symbol = get_str_or market_tbl ''symbol'' (mc_symbol market),
          mc_risk =
            (case as_table market_tbl ''risk'' of
               None \<Rightarrow> rk
             | Some t \<Rightarrow>
                 \<lparr>ec_contract_size = get_int_or t ''contract_size'' (ec_contract_size rk),
                  ec_initial_margin_basis_points = cast_i32 (get_int_or t ''initial_margin_bp'' (ec_initial_margin_basis_points rk)),
                  ec_maintenance_margin_basis_points = cast_i32 (get_int_or t ''maintenance_margin_bp'' (ec_maintenance_margin_basis_points rk)),
                  ec_initial_mark_price = get_int_or t ''initial_mark_price'' (ec_initial_mark_price rk)\<rparr>),
          mc_funding =
            (case as_table market_tbl ''funding'' of
               None \<Rightarrow> fd
             | Some t \<Rightarrow>
                 \<lparr>ec_clamp_basis_points = cast_i32 (get_int_or t ''clamp_bp'' (ec_clamp_basis_points fd)),
                  ec_max_rate_basis_points = get_int_or t ''max_rate_bp'' (ec_max_rate_basis_points fd)\<rparr>)\<rparr>)"

text \<open>The loop over the array skips the elements that are not tables.\<close>

definition parse_markets :: "TomlTable \<Rightarrow> MarketConfig list" where
  "parse_markets root =
     (let markets = (case as_array root ''markets'' of None \<Rightarrow> [] | Some arr \<Rightarrow> map parse_market (List.map_filter id arr))
      in if markets = [] then [default_market] else markets)"

definition parse_config :: "TomlTable \<Rightarrow> EngineConfig" where
  "parse_config root =
     \<lparr>transport_endpoint = parse_transport root, cfg_ingress = parse_ingress root, matcher_arena_bytes = parse_matcher root,
      cfg_persistence = parse_persistence root, cfg_telemetry = parse_telemetry root, cfg_markets = parse_markets root\<rparr>"

section \<open>Validation\<close>

definition check :: "bool \<Rightarrow> string \<Rightarrow> string \<Rightarrow> ValidationError list" where
  "check bad field message = (if bad then [\<lparr>ve_field = field, ve_message = message\<rparr>] else [])"

text \<open>\<open>std::to_string\<close> of an index.\<close>

fun to_string :: "nat \<Rightarrow> string" where
  "to_string n = (if n < 10 then [char_of (48 + n)] else to_string (n div 10) @ [char_of (48 + n mod 10)])"

declare to_string.simps [simp del]

definition validate_market :: "nat \<Rightarrow> MarketConfig \<Rightarrow> ValidationError list" where
  "validate_market i market =
     (let prefix = ''markets['' @ to_string i @ '']''; rk = mc_risk market
      in check (mc_id market = 0) (prefix @ ''.id'') ''market id must be greater than 0''
         @ check (ec_contract_size rk \<le> 0) (prefix @ ''.risk.contract_size'') ''must be positive''
         @ check (ec_initial_margin_basis_points rk \<le> 0) (prefix @ ''.risk.initial_margin_bp'') ''must be positive''
         @ check (ec_maintenance_margin_basis_points rk \<le> 0) (prefix @ ''.risk.maintenance_margin_bp'') ''must be positive''
         @ check (ec_maintenance_margin_basis_points rk > ec_initial_margin_basis_points rk) (prefix @ ''.risk'')
             ''maintenance_margin_bp must be <= initial_margin_bp''
         @ check (ec_max_rate_basis_points (mc_funding market) \<le> 0) (prefix @ ''.funding.max_rate_bp'') ''must be positive'')"

fun validate_markets :: "nat \<Rightarrow> MarketConfig list \<Rightarrow> ValidationError list" where
  "validate_markets i [] = []"
| "validate_markets i (market # ms) = validate_market i market @ validate_markets (i + 1) ms"

definition validate :: "EngineConfig \<Rightarrow> ValidationError list" where
  "validate config =
     check (transport_endpoint config = []) ''transport.endpoint'' ''endpoint cannot be empty''
     @ check (ec_max_new_orders_per_second (cfg_ingress config) = 0) ''ingress.max_new_orders_per_second'' ''must be greater than 0''
     @ check (matcher_arena_bytes config < 65536) ''matcher.arena_bytes'' ''must be at least 64KB''
     @ check (wal_path (cfg_persistence config) = []) ''persistence.wal_path'' ''wal_path cannot be empty''
     @ check (snapshot_dir (cfg_persistence config) = []) ''persistence.snapshot_dir'' ''snapshot_dir cannot be empty''
     @ validate_markets 0 (cfg_markets config)"

section \<open>Loading\<close>

text \<open>The configuration of a result that failed before parsing: the defaults of the structs, no market.\<close>

definition empty_config :: EngineConfig where
  "empty_config = \<lparr>transport_endpoint = default_transport_endpoint, cfg_ingress = default_engine_ingress,
     matcher_arena_bytes = default_arena_bytes, cfg_persistence = default_persistence, cfg_telemetry = default_telemetry, cfg_markets = []\<rparr>"

definition load_failed :: "string \<Rightarrow> LoadResult" where
  "load_failed e = \<lparr>lr_success = False, lr_config = empty_config, lr_errors = [], lr_raw_error = e\<rparr>"

definition load_from_string :: "(string \<Rightarrow> string + TomlTable) \<Rightarrow> string \<Rightarrow> LoadResult" where
  "load_from_string toml_parse toml_content =
     (case toml_parse toml_content of
        Inl e \<Rightarrow> load_failed e
      | Inr table \<Rightarrow>
          (let config = parse_config table; errors = validate config
           in \<lparr>lr_success = (errors = []), lr_config = config, lr_errors = errors, lr_raw_error = []\<rparr>))"

definition load :: "(string \<Rightarrow> bool) \<Rightarrow> (string \<Rightarrow> string + TomlTable) \<Rightarrow> string \<Rightarrow> LoadResult" where
  "load path_exists toml_parse_file path =
     (if \<not> path_exists path then load_failed (''Config file not found: '' @ path)
      else case toml_parse_file path of
        Inl e \<Rightarrow> load_failed e
      | Inr table \<Rightarrow>
          (let config = parse_config table; errors = validate config
           in \<lparr>lr_success = (errors = []), lr_config = config, lr_errors = errors, lr_raw_error = []\<rparr>))"

text \<open>The text of the default configuration, line by line.\<close>

definition generate_default :: string where
  \<open>generate_default = concat (map (\<lambda>line. line @ [CHR 0x0A])
     [''# TradeCore Engine Configuration'',
      ''# Generated default configuration'',
      [],
      ''[transport]'',
      ''endpoint = "quic://127.0.0.1:9000"'',
      [],
      ''[ingress]'',
      ''new_order_queue_depth = 4096'',
      ''cancel_queue_depth = 4096'',
      ''replace_queue_depth = 4096'',
      ''max_new_orders_per_second = 100000'',
      ''max_cancels_per_second = 200000'',
      [],
      ''[matcher]'',
      ''arena_bytes = 1048576  # 1MB'',
      [],
      ''[persistence]'',
      ''wal_path = "/var/lib/tradecore/events.wal"'',
      ''snapshot_dir = "/var/lib/tradecore/snapshots"'',
      ''wal_flush_threshold = 128'',
      [],
      ''[telemetry]'',
      ''enabled = true'',
      ''buffer_size = 1024'',
      [],
      ''['' @ ''[markets]'' @ '']'',
      ''id = 1'',
      ''symbol = "BTC-PERP"'',
      [],
      ''[markets.risk]'',
      ''contract_size = 1'',
      ''initial_margin_bp = 500      # 5%'',
      ''maintenance_margin_bp = 300  # 3%'',
      ''initial_mark_price = 100000  # $100,000'',
      [],
      ''[markets.funding]'',
      ''clamp_bp = 50   # 0.5%'',
      ''max_rate_bp = 100  # 1%''])\<close>

section \<open>What the validation checks\<close>

text \<open>
  The settings that pass \<open>validate\<close>. The daemon needs more to start: powers of two as queue depths, a directory in
  the log path and an endpoint that can be bound.
\<close>

definition market_config_ok :: "MarketConfig \<Rightarrow> bool" where
  "market_config_ok m \<longleftrightarrow> mc_id m \<noteq> 0 \<and> 0 < ec_contract_size (mc_risk m)
     \<and> 0 < ec_maintenance_margin_basis_points (mc_risk m)
     \<and> ec_maintenance_margin_basis_points (mc_risk m) \<le> ec_initial_margin_basis_points (mc_risk m)
     \<and> 0 < ec_max_rate_basis_points (mc_funding m)"

definition config_ok :: "EngineConfig \<Rightarrow> bool" where
  "config_ok c \<longleftrightarrow> transport_endpoint c \<noteq> [] \<and> ec_max_new_orders_per_second (cfg_ingress c) \<noteq> 0
     \<and> 2 ^ 16 \<le> matcher_arena_bytes c \<and> wal_path (cfg_persistence c) \<noteq> [] \<and> snapshot_dir (cfg_persistence c) \<noteq> []
     \<and> cfg_markets c \<noteq> [] \<and> list_all market_config_ok (cfg_markets c)"

lemma check_Nil [simp]: "check b f m = [] \<longleftrightarrow> \<not> b"
  by (simp add: check_def)

lemma validate_market_ok: "validate_market i m = [] \<longleftrightarrow> market_config_ok m"
  by (auto simp: validate_market_def market_config_ok_def Let_def)

lemma validate_markets_ok: "validate_markets i ms = [] \<longleftrightarrow> list_all market_config_ok ms"
  by (induction ms arbitrary: i) (simp_all add: validate_market_ok)

lemma parse_markets_nonempty: "parse_markets root \<noteq> []"
  by (simp add: parse_markets_def Let_def)

lemma validate_ok: "cfg_markets c \<noteq> [] \<Longrightarrow> validate c = [] \<longleftrightarrow> config_ok c"
  by (simp add: validate_def config_ok_def validate_markets_ok not_less)

text \<open>An empty table gives the defaults, which are valid.\<close>

lemma empty_table_defaults:
  "parse_config (TomlTable (\<lambda>_. None) (\<lambda>_. None) (\<lambda>_. None) (\<lambda>_. None) (\<lambda>_. None)) = empty_config\<lparr>cfg_markets := [default_market]\<rparr>"
  "config_ok (empty_config\<lparr>cfg_markets := [default_market]\<rparr>)"
  by (simp_all add: parse_config_def parse_transport_def parse_ingress_def parse_matcher_def parse_persistence_def
      parse_telemetry_def parse_markets_def empty_config_def config_ok_def default_market_def market_config_ok_def
      default_engine_risk_def default_engine_funding_def default_transport_endpoint_def default_engine_ingress_def
      default_arena_bytes_def default_persistence_def Let_def)

text \<open>Indices are written without ambiguity: a decimal number has digits only, and is read back as the index.\<close>

lemma to_string_digits: "c \<in> set (to_string n) \<Longrightarrow> (of_char c :: nat) < 58"
proof (induction n rule: to_string.induct)
  case (1 n)
  have "n mod 10 < 10" by simp
  with 1 show ?case by (subst (asm) (2) to_string.simps) (auto split: if_splits)
qed

definition read_index :: "string \<Rightarrow> nat" where
  "read_index s = foldl (\<lambda>n c. 10 * n + (of_char c - 48)) 0 s"

lemma read_to_string: "read_index (to_string n) = n"
proof (induction n rule: to_string.induct)
  case (1 n)
  have "of_char (char_of (48 + d) :: char) = 48 + d" if "d < 10" for d :: nat using that by simp
  with 1 show ?case by (subst to_string.simps) (simp add: read_index_def)
qed

lemma no_bracket: "CHR '']'' \<notin> set (to_string n)"
  using to_string_digits [of "CHR '']''" n] by auto

text \<open>The fields that name the settings of a market, and the settings that a configuration gets wrong.\<close>

definition market_field :: "nat \<Rightarrow> string \<Rightarrow> string" where
  "market_field i setting = ''markets['' @ to_string i @ '']'' @ setting"

definition market_violation :: "MarketConfig \<Rightarrow> string \<Rightarrow> bool" where
  "market_violation m setting \<longleftrightarrow>
     setting = ''.id'' \<and> mc_id m = 0
     \<or> setting = ''.risk.contract_size'' \<and> \<not> 0 < ec_contract_size (mc_risk m)
     \<or> setting = ''.risk.initial_margin_bp'' \<and> \<not> 0 < ec_initial_margin_basis_points (mc_risk m)
     \<or> setting = ''.risk.maintenance_margin_bp'' \<and> \<not> 0 < ec_maintenance_margin_basis_points (mc_risk m)
     \<or> setting = ''.risk'' \<and> \<not> ec_maintenance_margin_basis_points (mc_risk m) \<le> ec_initial_margin_basis_points (mc_risk m)
     \<or> setting = ''.funding.max_rate_bp'' \<and> \<not> 0 < ec_max_rate_basis_points (mc_funding m)"

definition violations :: "EngineConfig \<Rightarrow> string set" where
  "violations c =
     {field. field = ''transport.endpoint'' \<and> transport_endpoint c = []
        \<or> field = ''ingress.max_new_orders_per_second'' \<and> ec_max_new_orders_per_second (cfg_ingress c) = 0
        \<or> field = ''matcher.arena_bytes'' \<and> \<not> 64 * 1024 \<le> matcher_arena_bytes c
        \<or> field = ''persistence.wal_path'' \<and> wal_path (cfg_persistence c) = []
        \<or> field = ''persistence.snapshot_dir'' \<and> snapshot_dir (cfg_persistence c) = []}
     \<union> {market_field i setting | i setting. i < length (cfg_markets c) \<and> market_violation (cfg_markets c ! i) setting}"

lemma market_field_inj: "market_field i s = market_field j t \<longleftrightarrow> i = j \<and> s = t"
proof
  assume "market_field i s = market_field j t"
  then have eq: "to_string i @ CHR '']'' # s = to_string j @ CHR '']'' # t" by (simp add: market_field_def)
  have "takeWhile (\<lambda>c. c \<noteq> CHR '']'') (to_string n @ CHR '']'' # u) = to_string n" for n u
    using no_bracket [of n] by (simp add: takeWhile_tail takeWhile_append2 [OF _]) (auto simp: takeWhile_append)
  with eq have "to_string i = to_string j" by metis
  then show "i = j \<and> s = t" using eq by (metis append_same_eq list.inject read_to_string same_append_eq)
qed simp

text \<open>The checks as a table of the fields and whether they are violated.\<close>

definition fields :: "(string \<times> bool) list \<Rightarrow> string list" where
  "fields table = map fst (filter snd table)"

lemma fields_check [simp]: "map ve_field (check bad field message) = fields [(field, bad)]"
  by (simp add: check_def fields_def)

lemma fields_append: "fields (xs @ ys) = fields xs @ fields ys"
  by (simp add: fields_def)

lemma set_fields: "set (fields table) = {f. (f, True) \<in> set table}"
  by (force simp: fields_def)

lemma distinct_fields: "distinct (map fst table) \<Longrightarrow> distinct (fields table)"
  by (simp add: fields_def distinct_map_filter)

lemma fields_market: "fields (map (map_prod (market_field i) id) table) = map (market_field i) (fields table)"
  by (simp add: fields_def filter_map comp_def)

definition market_table :: "MarketConfig \<Rightarrow> (string \<times> bool) list" where
  "market_table m =
     [(''.id'', mc_id m = 0), (''.risk.contract_size'', ec_contract_size (mc_risk m) \<le> 0),
      (''.risk.initial_margin_bp'', ec_initial_margin_basis_points (mc_risk m) \<le> 0),
      (''.risk.maintenance_margin_bp'', ec_maintenance_margin_basis_points (mc_risk m) \<le> 0),
      (''.risk'', ec_maintenance_margin_basis_points (mc_risk m) > ec_initial_margin_basis_points (mc_risk m)),
      (''.funding.max_rate_bp'', ec_max_rate_basis_points (mc_funding m) \<le> 0)]"

lemma validate_market_table: "map ve_field (validate_market i m) = map (market_field i) (fields (market_table m))"
proof -
  have "map ve_field (validate_market i m) = fields (map (map_prod (market_field i) id) (market_table m))"
    unfolding validate_market_def Let_def map_append fields_check market_table_def
    by (simp add: market_field_def flip: fields_append)
  then show ?thesis by (simp add: fields_market)
qed

lemma validate_market_fields:
  "set (map ve_field (validate_market i m)) = {market_field i s | s. market_violation m s}" "distinct (map ve_field (validate_market i m))"
proof -
  have "(s, True) \<in> set (market_table m) \<longleftrightarrow> market_violation m s" for s
    unfolding market_table_def market_violation_def by (auto simp: not_less not_le)
  then have "set (fields (market_table m)) = {s. market_violation m s}" unfolding set_fields by simp
  then show "set (map ve_field (validate_market i m)) = {market_field i s | s. market_violation m s}"
    unfolding validate_market_table by (auto simp: image_iff)
  have "distinct (fields (market_table m))" by (rule distinct_fields) (simp add: market_table_def)
  then show "distinct (map ve_field (validate_market i m))" by (simp add: validate_market_table distinct_map inj_on_def market_field_inj)
qed

lemma ex_Suc: "(\<exists>i. P i) \<longleftrightarrow> P 0 \<or> (\<exists>i. P (Suc i))"
  by (metis not0_implies_Suc)

lemma validate_markets_fields:
  "set (map ve_field (validate_markets k ms)) = {market_field (k + i) s | i s. i < length ms \<and> market_violation (ms ! i) s}
   \<and> distinct (map ve_field (validate_markets k ms))"
proof (induction ms arbitrary: k)
  case (Cons m ms)
  have "(\<exists>i s. f = market_field (k + i) s \<and> i < length (m # ms) \<and> market_violation ((m # ms) ! i) s)
      \<longleftrightarrow> (\<exists>s. f = market_field k s \<and> market_violation m s) \<or> (\<exists>i s. f = market_field (Suc k + i) s \<and> i < length ms \<and> market_violation (ms ! i) s)" for f
    unfolding ex_Suc [of "\<lambda>i. \<exists>s. f = market_field (k + i) s \<and> i < length (m # ms) \<and> market_violation ((m # ms) ! i) s"] by simp
  then have "set (map ve_field (validate_markets k (m # ms))) = {market_field (k + i) s | i s. i < length (m # ms) \<and> market_violation ((m # ms) ! i) s}"
    using Cons [of "Suc k"] validate_market_fields(1) [of k m] by (auto simp del: list.size nth_Cons)
  moreover have "distinct (map ve_field (validate_markets k (m # ms)))"
    using Cons [of "Suc k"] validate_market_fields [of k m] by (auto simp: market_field_inj)
  ultimately show ?case by blast
qed simp

definition engine_table :: "EngineConfig \<Rightarrow> (string \<times> bool) list" where
  "engine_table c =
     [(''transport.endpoint'', transport_endpoint c = []), (''ingress.max_new_orders_per_second'', ec_max_new_orders_per_second (cfg_ingress c) = 0),
      (''matcher.arena_bytes'', matcher_arena_bytes c < 65536), (''persistence.wal_path'', wal_path (cfg_persistence c) = []),
      (''persistence.snapshot_dir'', snapshot_dir (cfg_persistence c) = [])]"

lemma validate_table: "map ve_field (validate c) = fields (engine_table c) @ map ve_field (validate_markets 0 (cfg_markets c))"
  unfolding validate_def map_append fields_check engine_table_def by (simp flip: fields_append append_assoc)

lemma validate_fields: "set (map ve_field (validate c)) = violations c" "distinct (map ve_field (validate c))"
proof -
  have e: "(f, True) \<in> set (engine_table c) \<longleftrightarrow>
      f = ''transport.endpoint'' \<and> transport_endpoint c = [] \<or> f = ''ingress.max_new_orders_per_second'' \<and> ec_max_new_orders_per_second (cfg_ingress c) = 0
      \<or> f = ''matcher.arena_bytes'' \<and> \<not> 64 * 1024 \<le> matcher_arena_bytes c \<or> f = ''persistence.wal_path'' \<and> wal_path (cfg_persistence c) = []
      \<or> f = ''persistence.snapshot_dir'' \<and> snapshot_dir (cfg_persistence c) = []" for f
    unfolding engine_table_def by (auto simp: not_le)
  show "set (map ve_field (validate c)) = violations c"
    unfolding validate_table set_append set_fields e conjunct1 [OF validate_markets_fields] violations_def by simp
  have "distinct (fields (engine_table c))" by (rule distinct_fields) (simp add: engine_table_def)
  moreover have "hd f \<noteq> CHR ''m'' \<or> f = ''matcher.arena_bytes''" if "f \<in> set (fields (engine_table c))" for f
    using that unfolding set_fields e by auto
  then have "market_field i s \<notin> set (fields (engine_table c))" for i s by (force simp: market_field_def)
  ultimately show "distinct (map ve_field (validate c))"
    unfolding validate_table distinct_append using validate_markets_fields [of 0 "cfg_markets c"] by auto
qed

text \<open>
  C40. Loading a file reports exactly what is wrong with it. A file that does not exist is reported with its path and
  one that does not parse with the message of the parser, both without a list of errors. Otherwise the
  settings are those of the file and the errors name, each once, exactly the settings that are violated: an
  empty endpoint, log path or snapshot directory, an order rate of 0, an arena of less than 64 KB, and of each
  market, by its index, a number of 0, a contract size, margin or funding rate that is not positive, and a
  maintenance margin above the initial one; the load succeeds exactly when there are none.
\<close>

theorem config_load_exact:
  "let r = load path_exists toml_parse_file path
   in if \<not> path_exists path
      then \<not> lr_success r \<and> lr_raw_error r = ''Config file not found: '' @ path \<and> lr_errors r = []
      else case toml_parse_file path of
        Inl e \<Rightarrow> \<not> lr_success r \<and> lr_raw_error r = e \<and> lr_errors r = []
      | Inr table \<Rightarrow> lr_config r = parse_config table \<and> lr_raw_error r = []
          \<and> set (map ve_field (lr_errors r)) = violations (parse_config table) \<and> distinct (map ve_field (lr_errors r))
          \<and> (lr_success r \<longleftrightarrow> violations (parse_config table) = {})"
proof -
  have "validate c = [] \<longleftrightarrow> violations c = {}" for c using validate_fields(1) [of c] by auto
  then show ?thesis
    using validate_fields by (simp add: load_def load_failed_def Let_def split: sum.split)
qed

text \<open>A key that is set takes precedence over the default, cast to the width of the setting.\<close>

lemma get_word_or_set: "value_int t key = Some v \<Longrightarrow> get_word_or t key d = word_of_int v"
  by (simp add: get_word_or_def get_int_or_def)

lemma get_word_or_default: "value_int t key = None \<Longrightarrow> get_word_or t key (d :: u64) = d"
  by (simp add: get_word_or_def get_int_or_def)

end
