(* ===== verification/Daemon.thy ===== *)
theory Daemon
  imports Matching_Guarantees Risk_Properties Funding Ingress Transport Replay Auth Api_Router Telemetry Config
begin

text \<open>
  The daemon (\<open>apps/tradecored/src/main.cpp\<close>): start-up from a configuration, the callback that feeds
  received frames to the ingress pipeline, the handlers of the three lanes with the log, the risk check,
  the matching engine and the position updates, the event loop with its snapshots, and the shutdown.
  An operation returns an exception that ends the daemon, as its message, with the state; the result
  \<open>None\<close> is undefined behaviour or a loop that does not end. The parameter \<open>io\<close> tells what the writes to the
  log and the persists of snapshots do; the persist is the one with its exceptions. Console output is not modelled.
\<close>

section \<open>State\<close>

record RestingOrderContext =
  ro_account :: AccountId
  ro_market :: MarketId
  ro_side :: Side

record Daemon =
  dm_ingress :: IngressPipeline
  dm_transport :: QuicTransport
  dm_matcher :: MatchingEngine
  dm_risk :: RiskEngine
  dm_funding :: FundingEngine
  dm_ledger :: LedgerState
  dm_wal :: WalWriter
  dm_snapshot :: SnapshotStore
  dm_files :: FileSystem
  dm_replay :: ReplayDriver
  dm_telemetry :: TelemetrySink
  dm_api :: ApiRouter
  dm_chain_id :: u64
  dm_block_number :: u64
  dm_last_snapshot_block :: u64
  dm_last_status :: int
  dm_default_market :: MarketId
  resting_orders :: "u64 \<rightharpoonup> RestingOrderContext"

text \<open>
  The outcome of the calls to the C library and the file system while the daemon runs: those of the log, and, for
  a snapshot that is due at a block, the steps of its persist that fail.
\<close>

record DaemonIo =
  di_log :: StdioCalls
  di_snapshot :: "u64 \<Rightarrow> StoreFaults"

definition full_io :: DaemonIo where
  "full_io = \<lparr>di_log = full_stdio, di_snapshot = (\<lambda>_. no_faults)\<rparr>"

section \<open>The log of the frames\<close>

definition build_wal_payload :: "OwnedFrame \<Rightarrow> bytes" where
  "build_wal_payload f =
     (let h = fr_header f;
          p1 = append_primitive 1 (kind_to_byte (fh_kind h)) [];
          p2 = append_primitive 8 (fh_account h) p1;
          p3 = append_primitive 8 (fh_nonce h) p2;
          p4 = append_primitive 8 (i64_word (received_time_ns h)) p3
      in p4 @ fr_payload f)"

definition append_ingress_wal_record :: "StdioCalls \<Rightarrow> OwnedFrame \<Rightarrow> WalWriter \<Rightarrow> u64 \<times> string option \<times> WalWriter" where
  "append_ingress_wal_record io f w = (ww_next_sequence w, wal_append io 0 (build_wal_payload f) w)"

definition opposite_side :: "Side \<Rightarrow> Side" where
  "opposite_side s = (if s = kBuy then kSell else kBuy)"

section \<open>Fills\<close>

definition context_fill :: "RestingOrderContext \<Rightarrow> FillEvent \<Rightarrow> FillContext" where
  "context_fill c fill = \<lparr>fc_account = ro_account c, fc_market = ro_market c, fc_side = ro_side c,
     fc_quantity = fe_quantity fill, fc_price = fe_price fill\<rparr>"

definition process_fill :: "RestingOrderContext \<Rightarrow> u64 \<Rightarrow> int \<Rightarrow> FillEvent \<Rightarrow> Daemon \<Rightarrow> Daemon" where
  "process_fill taker wal_offset timestamp_ns fill d =
     (let r1 = apply_fill (context_fill taker fill) (dm_risk d);
          r2 = (case resting_orders d (order_key (fe_maker_order fill)) of
                  None \<Rightarrow> r1
                | Some maker \<Rightarrow> apply_fill (context_fill maker fill) r1)
      in d\<lparr>dm_risk := r2,
           dm_api := push_trade_metadata \<lparr>tm_wal_offset = wal_offset, tm_order_id = fe_taker_order fill, tm_account = ro_account taker,
             tm_market = ro_market taker, tm_price = fe_price fill, tm_quantity = fe_quantity fill,
             tm_timestamp_ns = timestamp_ns\<rparr> (dm_api d)\<rparr>)"

definition process_fills :: "FillEvent list \<Rightarrow> RestingOrderContext \<Rightarrow> u64 \<Rightarrow> int \<Rightarrow> Daemon \<Rightarrow> Daemon" where
  "process_fills fs taker wal_offset timestamp_ns d = fold (process_fill taker wal_offset timestamp_ns) fs d"

section \<open>The handlers\<close>

text \<open>What every handler does first: log the frame, and publish it with its log offset.\<close>

definition log_frame :: "DaemonIo \<Rightarrow> OwnedFrame \<Rightarrow> Daemon \<Rightarrow> u64 \<times> string option \<times> Daemon" where
  "log_frame io f d =
     (case append_ingress_wal_record (di_log io) f (dm_wal d) of
        (wal_offset, Some e, w) \<Rightarrow> (wal_offset, Some e, d\<lparr>dm_wal := w\<rparr>)
      | (wal_offset, None, w) \<Rightarrow>
          (wal_offset, None, d\<lparr>dm_wal := w,
             dm_api := push_express_feed_frame \<lparr>ef_wal_offset = wal_offset, ef_payload = fr_payload f\<rparr> (dm_api d)\<rparr>))"

definition new_order_id :: "MarketId \<Rightarrow> FrameHeader \<Rightarrow> OrderId" where
  "new_order_id market h = \<lparr>oid_market = market, oid_session = ucast (fh_account h AND 0xffff),
     oid_local = ucast (fh_nonce h AND 0xffffffff)\<rparr>"

definition new_order_intent :: "MarketId \<Rightarrow> FrameHeader \<Rightarrow> NewOrder \<Rightarrow> OrderIntent" where
  "new_order_intent market h order = \<lparr>oi_account = fh_account h, oi_market = market, oi_side = no_side order,
     oi_quantity = no_quantity order, oi_limit_price = no_price order, oi_reduce_only = HasFlag (no_flags order) kReduceOnly\<rparr>"

definition new_order_request :: "MarketId \<Rightarrow> FrameHeader \<Rightarrow> NewOrder \<Rightarrow> OrderRequest" where
  "new_order_request market h order = \<lparr>rq_id = new_order_id market h, rq_account = fh_account h, rq_side = no_side order,
     rq_quantity = no_quantity order, rq_price = no_price order, rq_display_quantity = 0, rq_tif = kGtc, rq_flags = no_flags order\<rparr>"

definition handle_new_order :: "DaemonIo \<Rightarrow> OwnedFrame \<Rightarrow> Daemon \<Rightarrow> (string option \<times> Daemon) option" where
  "handle_new_order io f d =
     (let h = fr_header f; market = dm_default_market d
      in case log_frame io f d of
           (_, Some e, d1) \<Rightarrow> Some (Some e, d1)
         | (wal_offset, None, d1) \<Rightarrow>
             (case decode_new_order (fr_payload f) of
                Inl e \<Rightarrow> Some (None, d1)
              | Inr order \<Rightarrow>
                  if decision (evaluate_order (new_order_intent market h order) (dm_risk d1)) \<noteq> kAccepted then Some (None, d1)
                  else do {
                    (result, eng) \<leftarrow> submit (new_order_request market h order) (dm_matcher d1);
                    let d2 = d1\<lparr>dm_matcher := eng\<rparr>;
                    if \<not> accepted result then Some (None, d2)
                    else
                      (let taker = \<lparr>ro_account = fh_account h, ro_market = market, ro_side = no_side order\<rparr>;
                           d3 = process_fills (fills result) taker wal_offset (received_time_ns h) d2;
                           k = order_key (new_order_id market h)
                       in Some (None, d3\<lparr>resting_orders := (resting_orders d3)(k := if resting result then Some taker else None)\<rparr>))
                  }))"

definition handle_cancel :: "DaemonIo \<Rightarrow> OwnedFrame \<Rightarrow> Daemon \<Rightarrow> (string option \<times> Daemon) option" where
  "handle_cancel io f d =
     (case log_frame io f d of
        (_, Some e, d1) \<Rightarrow> Some (Some e, d1)
      | (_, None, d1) \<Rightarrow>
          (case decode_cancel (fr_payload f) of
             Inl e \<Rightarrow> Some (None, d1)
           | Inr msg \<Rightarrow> do {
               let order_id = decode_order_id (cm_order_id msg);
               (result, eng) \<leftarrow> cancel \<lparr>cr_id = order_id\<rparr> (dm_matcher d1);
               let d2 = d1\<lparr>dm_matcher := eng\<rparr>;
               Some (None, if cancelled result then d2\<lparr>resting_orders := (resting_orders d2)(order_key order_id := None)\<rparr> else d2)
             }))"

definition replace_request :: "ReplaceMsg \<Rightarrow> ReplaceRequest" where
  "replace_request msg = \<lparr>rp_id = decode_order_id (rm_order_id msg), rp_new_quantity = rm_new_quantity msg,
     rp_new_price = rm_new_price msg, rp_new_display_quantity = 0, rp_new_tif = kGtc, rp_new_flags = rm_new_flags msg\<rparr>"

definition handle_replace :: "DaemonIo \<Rightarrow> OwnedFrame \<Rightarrow> Daemon \<Rightarrow> (string option \<times> Daemon) option" where
  "handle_replace io f d =
     (let h = fr_header f
      in case log_frame io f d of
           (_, Some e, d1) \<Rightarrow> Some (Some e, d1)
         | (wal_offset, None, d1) \<Rightarrow>
             (case decode_replace (fr_payload f) of
                Inl e \<Rightarrow> Some (None, d1)
              | Inr msg \<Rightarrow> do {
                  let order_id = decode_order_id (rm_order_id msg);
                  let taker = (case resting_orders d1 (order_key order_id) of
                      Some c \<Rightarrow> c
                    | None \<Rightarrow> \<lparr>ro_account = fh_account h, ro_market = oid_market order_id, ro_side = kBuy\<rparr>);
                  (result, eng) \<leftarrow> replace (replace_request msg) (dm_matcher d1);
                  let d2 = d1\<lparr>dm_matcher := eng\<rparr>;
                  if \<not> rr_accepted result then Some (None, d2)
                  else
                    (let d3 = process_fills (rr_fills result) taker wal_offset (received_time_ns h) d2
                     in Some (None, d3\<lparr>resting_orders :=
                          (resting_orders d3)(order_key order_id := if rr_resting result then Some taker else None)\<rparr>))
                }))"

section \<open>The event loop\<close>

text \<open>The loop \<open>while (ingress.next_...(frame))\<close> over one lane; the number is the count of frames.\<close>

partial_function (option) process_lane ::
  "(IngressPipeline \<Rightarrow> (OwnedFrame option \<times> IngressPipeline) option)
    \<Rightarrow> (OwnedFrame \<Rightarrow> Daemon \<Rightarrow> (string option \<times> Daemon) option)
    \<Rightarrow> u64 \<Rightarrow> Daemon \<Rightarrow> (string option \<times> u64 \<times> Daemon) option" where
  "process_lane next handle processed d =
     Option.bind (next (dm_ingress d)) (\<lambda>(out, p).
       case out of
         None \<Rightarrow> Some (None, processed, d\<lparr>dm_ingress := p\<rparr>)
       | Some f \<Rightarrow>
           Option.bind (handle f (d\<lparr>dm_ingress := p\<rparr>)) (\<lambda>(e, d1).
             if e \<noteq> None then Some (e, processed + 1, d1)
             else process_lane next handle (processed + 1) d1))"

definition process_new_orders :: "DaemonIo \<Rightarrow> Daemon \<Rightarrow> (string option \<times> u64 \<times> Daemon) option" where
  "process_new_orders io d = process_lane next_new_order (handle_new_order io) 0 d"

definition process_cancels :: "DaemonIo \<Rightarrow> Daemon \<Rightarrow> (string option \<times> u64 \<times> Daemon) option" where
  "process_cancels io d = process_lane next_cancel (handle_cancel io) 0 d"

definition process_replaces :: "DaemonIo \<Rightarrow> Daemon \<Rightarrow> (string option \<times> u64 \<times> Daemon) option" where
  "process_replaces io d = process_lane next_replace (handle_replace io) 0 d"

definition kSnapshotInterval :: u64 where "kSnapshotInterval = 256"

definition snapshot_sequence :: "u64 \<Rightarrow> SequenceId" where
  "snapshot_sequence new_block = ucast (min new_block (ucast (- 1 :: SequenceId)))"

text \<open>What the loop does after the lanes: count the frames as blocks, and take a snapshot when one is due.\<close>

definition advance_block :: "DaemonIo \<Rightarrow> u64 \<Rightarrow> Daemon \<Rightarrow> string option \<times> Daemon" where
  "advance_block io processed d =
     (if processed = 0 then (None, d)
      else
        (let new_block = dm_block_number d + processed; d1 = d\<lparr>dm_block_number := new_block\<rparr>
         in if new_block - dm_last_snapshot_block d1 \<ge> kSnapshotInterval
            then
              (let payload = append_primitive 8 new_block (append_primitive 8 (dm_chain_id d1) [])
               in case persist_io (fault_io (di_snapshot io new_block)) (snapshot_sequence new_block) payload (dm_snapshot d1) (dm_files d1) of
                    (Threw e, fs) \<Rightarrow> (Some e, d1\<lparr>dm_files := fs\<rparr>)
                  | (_, fs) \<Rightarrow> (None, d1\<lparr>dm_files := fs, dm_last_snapshot_block := new_block\<rparr>))
            else (None, d1)))"

text \<open>
  The operands of \<open>process_new_orders() + process_cancels() + process_replaces()\<close> are evaluated in an
  order that the language leaves open: the lanes are processed in the order given as an argument.
\<close>

fun process_kind :: "DaemonIo \<Rightarrow> MessageKind \<Rightarrow> Daemon \<Rightarrow> (string option \<times> u64 \<times> Daemon) option" where
  "process_kind io kNewOrder d = process_new_orders io d"
| "process_kind io kCancel d = process_cancels io d"
| "process_kind io kReplace d = process_replaces io d"
| "process_kind io kHeartbeat d = Some (None, 0, d)"

fun process_lanes :: "DaemonIo \<Rightarrow> MessageKind list \<Rightarrow> Daemon \<Rightarrow> (string option \<times> u64 \<times> Daemon) option" where
  "process_lanes io [] d = Some (None, 0, d)"
| "process_lanes io (k # ks) d = do {
     (e, n, d1) \<leftarrow> process_kind io k d;
     if e \<noteq> None then Some (e, n, d1)
     else do {
       (e2, n2, d2) \<leftarrow> process_lanes io ks d1;
       Some (e2, n + n2, d2)
     }
   }"

definition evaluation_order :: "MessageKind list \<Rightarrow> bool" where
  "evaluation_order ks \<longleftrightarrow> mset ks = mset [kNewOrder, kCancel, kReplace]"

text \<open>The status line, due once a second: reading the transport statistics prunes the peers.\<close>

definition kStatusInterval :: int where "kStatusInterval = 1000000000"

definition report_status :: "int \<Rightarrow> Daemon \<Rightarrow> Daemon" where
  "report_status now d =
     (if now - dm_last_status d \<ge> kStatusInterval
      then (let (_, t) = quic_stats now (dm_transport d) in d\<lparr>dm_transport := t, dm_last_status := now\<rparr>)
      else d)"

definition event_loop_iteration :: "DaemonIo \<Rightarrow> int \<Rightarrow> MessageKind list \<Rightarrow> Daemon \<Rightarrow> (string option \<times> Daemon) option" where
  "event_loop_iteration io now order d = do {
     (e, processed, d1) \<leftarrow> process_lanes io order d;
     if e \<noteq> None then Some (e, d1)
     else
       (case advance_block io processed d1 of
          (Some e2, d2) \<Rightarrow> Some (Some e2, d2)
        | (None, d2) \<Rightarrow> Some (None, report_status now d2))
   }"

text \<open>The receive thread: a datagram, and the callback that submits its frame to the pipeline.\<close>

definition on_datagram :: "int \<Rightarrow> u64 \<Rightarrow> bytes \<Rightarrow> Daemon \<Rightarrow> Daemon option" where
  "on_datagram now key data d =
     (let (frame, t) = receive_datagram now key data (qt_transport (dm_transport d));
          d1 = d\<lparr>dm_transport := (dm_transport d)\<lparr>qt_transport := t\<rparr>\<rparr>
      in case frame of
           None \<Rightarrow> Some d1
         | Some f \<Rightarrow> do { (ok, p) \<leftarrow> ingress_submit f (dm_ingress d1); Some (d1\<lparr>dm_ingress := p\<rparr>) })"

definition shutdown :: "DaemonIo \<Rightarrow> bool \<Rightarrow> Daemon \<Rightarrow> string option \<times> Daemon" where
  "shutdown io fsync_ok d =
     (let d1 = d\<lparr>dm_transport := quic_stop (dm_transport d)\<rparr>
      in case wal_sync (di_log io) fsync_ok (dm_wal d1) of (e, w) \<Rightarrow> (e, d1\<lparr>dm_wal := w\<rparr>))"

text \<open>Without failures: the calls of the log are full, and an advance persists as the store does when nothing fails.\<close>

lemma full_io_simps [simp]: "di_log full_io = full_stdio" "di_snapshot full_io b = no_faults"
  by (simp_all add: full_io_def)

lemma advance_block_full:
  "advance_block full_io processed d =
     (if processed = 0 then (None, d)
      else
        (let new_block = dm_block_number d + processed; d1 = d\<lparr>dm_block_number := new_block\<rparr>
         in if new_block - dm_last_snapshot_block d1 \<ge> kSnapshotInterval
            then
              (let payload = append_primitive 8 new_block (append_primitive 8 (dm_chain_id d1) [])
               in case persist (snapshot_sequence new_block) payload (dm_snapshot d1) (dm_files d1) of
                    (Some e, fs) \<Rightarrow> (Some e, d1\<lparr>dm_files := fs\<rparr>)
                  | (None, fs) \<Rightarrow> (None, d1\<lparr>dm_files := fs, dm_last_snapshot_block := new_block\<rparr>))
            else (None, d1)))"
  by (simp add: advance_block_def persist_def Let_def split: prod.splits Ending.splits)

section \<open>Start-up\<close>

text \<open>What the daemon finds outside: the file system, sockets, environment variables and the crypto library.\<close>

record Environment =
  env_home :: "string option"
  env_exists :: "string \<Rightarrow> bool"
  env_parse_file :: "string \<Rightarrow> string + TomlTable"
  env_parse :: "string \<Rightarrow> string + TomlTable"
  env_crypto_verify :: CryptoVerify
  env_padding :: "FrameHeader \<Rightarrow> bytes"
  env_sodium :: bool
  env_keypair :: "PublicKey \<times> SecretKey"
  env_sockets :: SocketCalls
  env_create_directories :: "string \<Rightarrow> bool"
  env_log :: LogCalls
  env_files :: FileSystem
  env_chain_id :: "u64 option option"
  env_start_time :: int

definition find_config_path :: "string list \<Rightarrow> string option \<Rightarrow> (string \<Rightarrow> bool) \<Rightarrow> string" where
  "find_config_path args home path_exists =
     (case args of
        a # _ \<Rightarrow> a
      | [] \<Rightarrow>
          (let default_paths = [''./tradecore.toml'', ''/etc/tradecore/tradecore.toml'',
                 path_join (case home of None \<Rightarrow> [] | Some dir \<Rightarrow> dir) ''.config/tradecore/tradecore.toml'']
           in case find (\<lambda>path. path \<noteq> [] \<and> path_exists path) default_paths of None \<Rightarrow> [] | Some path \<Rightarrow> path))"

text \<open>The configuration, or the error the daemon exits with.\<close>

definition load_config :: "string list \<Rightarrow> Environment \<Rightarrow> string + EngineConfig" where
  "load_config args env =
     (if length args > 1 then Inl ''usage''
      else
        (let config_path = find_config_path args (env_home env) (env_exists env);
             result = (if config_path = [] then load_from_string (env_parse env) generate_default
                       else load (env_exists env) (env_parse_file env) config_path)
         in if lr_success result then Inr (lr_config result) else Inl ''configuration rejected''))"

definition ingress_config :: "EngineConfig \<Rightarrow> IngressConfig" where
  "ingress_config cfg = default_ingress_config
     \<lparr>max_new_orders_per_second := ec_max_new_orders_per_second (cfg_ingress cfg),
      max_cancels_per_second := ec_max_cancels_per_second (cfg_ingress cfg),
      new_order_queue_depth := ec_new_order_queue_depth (cfg_ingress cfg),
      cancel_queue_depth := ec_cancel_queue_depth (cfg_ingress cfg),
      replace_queue_depth := ec_replace_queue_depth (cfg_ingress cfg)\<rparr>"

text \<open>One round of the loop over the markets; the 32-bit number of a market is narrowed to 16 bits.\<close>

definition setup_market :: "MarketConfig \<Rightarrow> MatchingEngine \<times> RiskEngine \<times> FundingEngine \<Rightarrow> MatchingEngine \<times> RiskEngine \<times> FundingEngine" where
  "setup_market mc engines =
     (case engines of (eng, rk, fd) \<Rightarrow>
        (let m = ucast (mc_id mc) :: MarketId
         in (add_market m eng,
             set_mark_price m (ec_initial_mark_price (mc_risk mc))
               (configure_market m \<lparr>contract_size = ec_contract_size (mc_risk mc),
                  initial_margin_basis_points = ec_initial_margin_basis_points (mc_risk mc),
                  maintenance_margin_basis_points = ec_maintenance_margin_basis_points (mc_risk mc)\<rparr> rk),
             configure_funding_market m \<lparr>clamp_basis_points = ec_clamp_basis_points (mc_funding mc),
               max_rate_basis_points = ec_max_rate_basis_points (mc_funding mc)\<rparr> fd)))"

definition setup_api :: ApiRouter where
  "setup_api = fold register_endpoint [''/orders'', ''/express-feed'', ''/trade-metadata'', ''/state-root'']
     (new_router kDefaultBufferCapacity kDefaultBufferCapacity)"

text \<open>\<open>parent_path\<close> of \<open>std::filesystem::path\<close>: what comes before the last separator.\<close>

definition parent_path :: "string \<Rightarrow> string" where
  "parent_path path =
     (let dir = rev (dropWhile (\<lambda>c. c \<noteq> CHR ''/'') (rev path)); stripped = rev (dropWhile (\<lambda>c. c = CHR ''/'') (rev dir))
      in if stripped = [] \<and> dir \<noteq> [] then ''/'' else stripped)"

text \<open>
  The start-up: its error is the message of an exception, or names the failure for which \<open>main\<close> returns 1
  (the transport did not start, the chain id is invalid).
\<close>

definition boot :: "Environment \<Rightarrow> EngineConfig \<Rightarrow> string + Daemon" where
  "boot env cfg =
     (case new_authenticator (env_sodium env) of Inl e \<Rightarrow> Inl e | Inr auth0 \<Rightarrow>
      case generate_keypair (env_sodium env) (env_keypair env) of Inl e \<Rightarrow> Inl e | Inr (public_key, secret_key) \<Rightarrow>
      case new_ingress of None \<Rightarrow> Inl ''ring'' | Some ingress0 \<Rightarrow>
      (let auth = register_account 1 public_key auth0;
           (configured, ingress1) = configure (ingress_config cfg)
             (Some (auth_verifier (env_crypto_verify env) (env_padding env) auth)) ingress0;
           (started, transport) = quic_start (env_sockets env) (transport_endpoint cfg) True new_quic_transport;
           (eng, rk, fd) = fold setup_market (cfg_markets cfg) (Map.empty, new_risk_engine, Map.empty);
           path = wal_path (cfg_persistence cfg);
           log = file_at (env_files env) path;
           store = open_store (snapshot_dir (cfg_persistence cfg)) default_store_options
       in if \<not> configured then Inl ''SpscRing capacity must be power of two''
          else if started = None then Inl ''stoi''
          else if started \<noteq> Some True then Inl ''failed to start transport''
          else if \<not> env_create_directories env (snapshot_dir (cfg_persistence cfg)) \<or> \<not> env_create_directories env (parent_path path)
          then Inl ''filesystem error: cannot create directories''
          else case ensure_open (env_log env) path log (unat (wal_flush_threshold (cfg_persistence cfg))) of
            Inl e \<Rightarrow> Inl e
          | Inr wal \<Rightarrow>
              if env_chain_id env = Some None then Inl ''invalid MONMOUTH_CHAIN_ID''
              else Inr \<lparr>dm_ingress = ingress1, dm_transport = transport, dm_matcher = eng, dm_risk = rk, dm_funding = fd,
                dm_ledger = Map.empty, dm_wal = wal, dm_snapshot = store, dm_files = env_files env,
                dm_replay = configure_replay (ss_directory store) path new_driver,
                dm_telemetry = (if telemetry_enabled (cfg_telemetry cfg) then push_sample \<lparr>sa_id = 1, sa_value = 0\<rparr> new_sink else new_sink),
                dm_api = setup_api,
                dm_chain_id = (case env_chain_id env of Some (Some v) \<Rightarrow> v | _ \<Rightarrow> 1),
                dm_block_number = 0, dm_last_snapshot_block = 0, dm_last_status = env_start_time env,
                dm_default_market = (case cfg_markets cfg of [] \<Rightarrow> 1 | mc # _ \<Rightarrow> ucast (mc_id mc)),
                resting_orders = Map.empty\<rparr>))"

text \<open>An RPC request: the callbacks of the node state read the daemon, and prune the peers.\<close>

definition daemon_rpc :: "int \<Rightarrow> string \<Rightarrow> Daemon \<Rightarrow> string" where
  "daemon_rpc now meth d =
     rpc_result meth (set_node_state_provider
       \<lparr>np_chain_id = Some (dm_chain_id d), np_block_number = Some (dm_block_number d),
        np_peer_connections = Some (connections_active (fst (quic_stats now (dm_transport d)))),
        np_healthy = Some (quic_is_running (dm_transport d))\<rparr> (dm_api d))"

end
