(* ===== verification/Daemon_Properties.thy ===== *)
theory Daemon_Properties
  imports Daemon
begin

text \<open>
  Properties of the daemon as a whole: every handler returns on every reachable state, every frame is
  logged before it has an effect, and an iteration of the event loop empties the three lanes in order.
\<close>

section \<open>Handling a sequence of frames\<close>

definition handle_frame :: "DaemonIo \<Rightarrow> OwnedFrame \<Rightarrow> Daemon \<Rightarrow> (string option \<times> Daemon) option" where
  "handle_frame io f d =
     (case fh_kind (fr_header f) of
        kNewOrder \<Rightarrow> handle_new_order io f d
      | kCancel \<Rightarrow> handle_cancel io f d
      | kReplace \<Rightarrow> handle_replace io f d
      | kHeartbeat \<Rightarrow> Some (None, d))"

fun handle_frames :: "DaemonIo \<Rightarrow> OwnedFrame list \<Rightarrow> Daemon \<Rightarrow> (string option \<times> Daemon) option" where
  "handle_frames io [] d = Some (None, d)"
| "handle_frames io (f # fs) d = do {
     (e, d1) \<leftarrow> handle_frame io f d;
     if e \<noteq> None then Some (e, d1) else handle_frames io fs d1
   }"

lemma handle_frames_append:
  "handle_frames io (fs @ gs) d =
     Option.bind (handle_frames io fs d) (\<lambda>(e, d1). if e \<noteq> None then Some (e, d1) else handle_frames io gs d1)"
  by (induction fs arbitrary: d) (auto split: bind_splits)

section \<open>The engine returns\<close>

lemma submit_returns:
  assumes "engine_reachable eng" and "in64 (rq_quantity r)"
  shows "\<exists>res eng'. submit r eng = Some (res, eng') \<and> engine_reachable eng'"
proof -
  obtain be where "engine_rep eng be" using reachable_rep [OF assms(1)] by blast
  then obtain eng' where e: "submit r eng = Some (fst (book_submit r be), eng')" using submit_refines assms(2) by blast
  then have "engine_step (Submit r) eng = Some (OrderOut (fst (book_submit r be)), eng')" by (simp add: engine_step_def)
  with e show ?thesis using engine_reachable.step [OF assms(1), of "Submit r"] assms(2) by auto
qed

lemma cancel_returns:
  assumes "engine_reachable eng"
  shows "\<exists>res eng'. cancel r eng = Some (res, eng') \<and> engine_reachable eng'"
proof -
  obtain be where "engine_rep eng be" using reachable_rep [OF assms(1)] by blast
  then obtain eng' where e: "cancel r eng = Some (fst (book_cancel r be), eng')" using cancel_refines by blast
  then have "engine_step (Cancel r) eng = Some (CancelOut (fst (book_cancel r be)), eng')" by (simp add: engine_step_def)
  with e show ?thesis using engine_reachable.step [OF assms(1), of "Cancel r"] by auto
qed

lemma replace_returns:
  assumes "engine_reachable eng" and "in64 (rp_new_quantity r)"
  shows "\<exists>res eng'. replace r eng = Some (res, eng') \<and> engine_reachable eng'"
proof -
  obtain be where "engine_rep eng be" using reachable_rep [OF assms(1)] by blast
  then obtain eng' where e: "replace r eng = Some (fst (book_replace r be), eng')" using replace_refines assms(2) by blast
  then have "engine_step (Replace r) eng = Some (ReplaceOut (fst (book_replace r be)), eng')" by (simp add: engine_step_def)
  with e show ?thesis using engine_reachable.step [OF assms(1), of "Replace r"] assms(2) by auto
qed

text \<open>Decoded quantities are 64-bit values.\<close>

lemma decode_new_order_in64: "decode_new_order data = Inr order \<Longrightarrow> in64 (no_quantity order)"
  by (cases "kNewOrderEncodedSize \<le> length data") (auto simp: decode_new_order_eq, simp add: decode_new_order_def)

lemma decode_replace_in64: "decode_replace data = Inr msg \<Longrightarrow> in64 (rm_new_quantity msg)"
  by (cases "kReplaceEncodedSize \<le> length data") (auto simp: decode_replace_eq, simp add: decode_replace_def)

section \<open>The log\<close>

definition wal_bytes :: "Daemon \<Rightarrow> bytes" where
  "wal_bytes d = ww_file (dm_wal d) @ ww_buffer (dm_wal d)"

definition log_entry :: "OwnedFrame \<Rightarrow> u16 \<times> bytes" where
  "log_entry f = (0, build_wal_payload f)"

definition logs :: "(u16 \<times> bytes) list \<Rightarrow> Daemon \<Rightarrow> bool" where
  "logs qs d \<longleftrightarrow> ww_stream (dm_wal d) = [] \<and> wal_bytes d = log_bytes (numbered 1 qs) \<and> ww_next_sequence (dm_wal d) = 1 + of_nat (length qs)"

text \<open>What handling a frame leaves alone.\<close>

definition same_shell :: "Daemon \<Rightarrow> Daemon \<Rightarrow> bool" where
  "same_shell d d' \<longleftrightarrow> dm_ingress d' = dm_ingress d \<and> dm_transport d' = dm_transport d \<and> dm_snapshot d' = dm_snapshot d
     \<and> dm_files d' = dm_files d \<and> dm_chain_id d' = dm_chain_id d \<and> dm_block_number d' = dm_block_number d
     \<and> dm_last_snapshot_block d' = dm_last_snapshot_block d \<and> dm_default_market d' = dm_default_market d"

lemma same_shell_trans: "same_shell a b \<Longrightarrow> same_shell b c \<Longrightarrow> same_shell a c"
  by (simp add: same_shell_def)

lemma same_shell_refl [simp]: "same_shell d d"
  by (simp add: same_shell_def)

definition same_trading :: "Daemon \<Rightarrow> Daemon \<Rightarrow> bool" where
  "same_trading d d' \<longleftrightarrow> dm_matcher d' = dm_matcher d \<and> dm_risk d' = dm_risk d \<and> resting_orders d' = resting_orders d"

text \<open>With full writes, logging does not fail, appends the frame to the log and touches nothing else but the feed.\<close>

lemma log_frame_full:
  assumes "logs qs d"
  obtains d1 where "log_frame full_io f d = (ww_next_sequence (dm_wal d), None, d1)" "logs (qs @ [log_entry f]) d1"
    "same_shell d d1" "same_trading d d1"
proof -
  obtain w where w: "wal_append full_stdio 0 (build_wal_payload f) (dm_wal d) = (None, w)" "ww_stream w = []"
      "ww_file w @ ww_buffer w = wal_bytes d @ record_bytes (wal_record (ww_next_sequence (dm_wal d)) 0 (build_wal_payload f))"
      "ww_next_sequence w = ww_next_sequence (dm_wal d) + 1"
    using wal_append_full [of "dm_wal d" 0 "build_wal_payload f"] assms by (auto simp: logs_def wal_bytes_def)
  let ?d = "d\<lparr>dm_wal := w, dm_api := push_express_feed_frame
      \<lparr>ef_wal_offset = ww_next_sequence (dm_wal d), ef_payload = fr_payload f\<rparr> (dm_api d)\<rparr>"
  have "log_frame full_io f d = (ww_next_sequence (dm_wal d), None, ?d)"
    by (simp add: log_frame_def append_ingress_wal_record_def w(1))
  moreover have "logs (qs @ [log_entry f]) ?d"
    using assms w(2-) by (simp add: logs_def wal_bytes_def numbered_append log_entry_def add.commute)
  ultimately show thesis by (rule that) (simp_all add: same_shell_def same_trading_def)
qed

lemma process_fills_shell:
  "same_shell d (process_fills fs taker off ts d)" "dm_matcher (process_fills fs taker off ts d) = dm_matcher d"
  "resting_orders (process_fills fs taker off ts d) = resting_orders d" "dm_wal (process_fills fs taker off ts d) = dm_wal d"
  unfolding process_fills_def
  by (induction fs arbitrary: d) (simp_all add: process_fill_def same_shell_def Let_def)

lemma logs_upd [simp]:
  "logs qs (d\<lparr>dm_matcher := eng\<rparr>) = logs qs d" "logs qs (d\<lparr>resting_orders := ro\<rparr>) = logs qs d"
  "logs qs (d\<lparr>dm_ingress := p\<rparr>) = logs qs d" "logs qs (process_fills fs taker off ts d) = logs qs d"
  by (simp_all add: logs_def wal_bytes_def process_fills_shell)

lemma same_shell_upd [simp]:
  "same_shell d (d1\<lparr>dm_matcher := eng\<rparr>) = same_shell d d1" "same_shell d (d1\<lparr>resting_orders := ro\<rparr>) = same_shell d d1"
  "same_shell d (process_fills fs taker off ts d1) = same_shell d d1"
  using process_fills_shell(1) [of d1 fs taker off ts] by (auto simp: same_shell_def)

lemmas shell_simps = process_fills_shell(2-4) logs_upd same_shell_upd

text \<open>Every handler returns, whatever the frame holds, and has logged the frame.\<close>

lemma handle_new_order_returns:
  assumes "engine_reachable (dm_matcher d)" and "logs qs d"
  shows "\<exists>d'. handle_new_order full_io f d = Some (None, d') \<and> engine_reachable (dm_matcher d')
           \<and> logs (qs @ [log_entry f]) d' \<and> same_shell d d'"
proof -
  obtain d1 where d1: "log_frame full_io f d = (ww_next_sequence (dm_wal d), None, d1)" "logs (qs @ [log_entry f]) d1"
      "same_shell d d1" "same_trading d d1" using log_frame_full [OF assms(2)] by blast
  have reach: "engine_reachable (dm_matcher d1)" using assms(1) d1(4) by (simp add: same_trading_def)
  show ?thesis
  proof (cases "decode_new_order (fr_payload f)")
    case (Inl e)
    then show ?thesis using d1 reach by (simp add: handle_new_order_def)
  next
    case (Inr order)
    let ?r = "new_order_request (dm_default_market d) (fr_header f) order"
    have "in64 (rq_quantity ?r)" using decode_new_order_in64 [OF Inr] by (simp add: new_order_request_def)
    from submit_returns [OF reach this] obtain res eng where "submit ?r (dm_matcher d1) = Some (res, eng)" "engine_reachable eng"
      by blast
    then show ?thesis
      using d1 reach Inr by (auto simp: handle_new_order_def Let_def shell_simps)
  qed
qed

lemma handle_cancel_returns:
  assumes "engine_reachable (dm_matcher d)" and "logs qs d"
  shows "\<exists>d'. handle_cancel full_io f d = Some (None, d') \<and> engine_reachable (dm_matcher d')
           \<and> logs (qs @ [log_entry f]) d' \<and> same_shell d d'"
proof -
  obtain d1 where d1: "log_frame full_io f d = (ww_next_sequence (dm_wal d), None, d1)" "logs (qs @ [log_entry f]) d1"
      "same_shell d d1" "same_trading d d1" using log_frame_full [OF assms(2)] by blast
  have reach: "engine_reachable (dm_matcher d1)" using assms(1) d1(4) by (simp add: same_trading_def)
  show ?thesis
  proof (cases "decode_cancel (fr_payload f)")
    case (Inl e)
    then show ?thesis using d1 reach by (simp add: handle_cancel_def)
  next
    case (Inr msg)
    obtain res eng where "cancel \<lparr>cr_id = decode_order_id (cm_order_id msg)\<rparr> (dm_matcher d1) = Some (res, eng)" "engine_reachable eng"
      using cancel_returns [OF reach] by blast
    then show ?thesis using d1 reach Inr by (auto simp: handle_cancel_def Let_def shell_simps)
  qed
qed

lemma handle_replace_returns:
  assumes "engine_reachable (dm_matcher d)" and "logs qs d"
  shows "\<exists>d'. handle_replace full_io f d = Some (None, d') \<and> engine_reachable (dm_matcher d')
           \<and> logs (qs @ [log_entry f]) d' \<and> same_shell d d'"
proof -
  obtain d1 where d1: "log_frame full_io f d = (ww_next_sequence (dm_wal d), None, d1)" "logs (qs @ [log_entry f]) d1"
      "same_shell d d1" "same_trading d d1" using log_frame_full [OF assms(2)] by blast
  have reach: "engine_reachable (dm_matcher d1)" using assms(1) d1(4) by (simp add: same_trading_def)
  show ?thesis
  proof (cases "decode_replace (fr_payload f)")
    case (Inl e)
    then show ?thesis using d1 reach by (simp add: handle_replace_def)
  next
    case (Inr msg)
    have "in64 (rp_new_quantity (replace_request msg))" using decode_replace_in64 [OF Inr] by (simp add: replace_request_def)
    from replace_returns [OF reach this] obtain res eng where
      "replace (replace_request msg) (dm_matcher d1) = Some (res, eng)" "engine_reachable eng" by blast
    then show ?thesis
      using d1 reach Inr by (auto simp: handle_replace_def Let_def shell_simps)
  qed
qed

lemma handle_frame_returns:
  assumes "engine_reachable (dm_matcher d)" and "logs qs d" and "fh_kind (fr_header f) \<noteq> kHeartbeat"
  shows "\<exists>d'. handle_frame full_io f d = Some (None, d') \<and> engine_reachable (dm_matcher d')
           \<and> logs (qs @ [log_entry f]) d' \<and> same_shell d d'"
  using handle_new_order_returns [OF assms(1,2)] handle_cancel_returns [OF assms(1,2)] handle_replace_returns [OF assms(1,2)] assms(3)
  by (cases "fh_kind (fr_header f)") (simp_all add: handle_frame_def)

lemma handle_frames_returns:
  assumes "engine_reachable (dm_matcher d)" and "logs qs d" and "list_all (\<lambda>f. fh_kind (fr_header f) \<noteq> kHeartbeat) fs"
  shows "\<exists>d'. handle_frames full_io fs d = Some (None, d') \<and> engine_reachable (dm_matcher d')
           \<and> logs (qs @ map log_entry fs) d' \<and> same_shell d d'"
  using assms
proof (induction fs arbitrary: d qs)
  case Nil
  then show ?case by simp
next
  case (Cons f fs)
  obtain d1 where d1: "handle_frame full_io f d = Some (None, d1)" "engine_reachable (dm_matcher d1)"
      "logs (qs @ [log_entry f]) d1" "same_shell d d1"
    using handle_frame_returns [OF Cons.prems(1,2), of f] Cons.prems(3) by auto
  with Cons.IH [OF d1(2,3)] Cons.prems(3) show ?case by (auto intro: same_shell_trans)
qed

section \<open>One lane\<close>

text \<open>The handlers do not look at the pipeline.\<close>

lemma process_fills_ingress:
  "process_fills fs taker off ts (d\<lparr>dm_ingress := p\<rparr>) = (process_fills fs taker off ts d)\<lparr>dm_ingress := p\<rparr>"
proof -
  have "process_fill taker off ts f (x\<lparr>dm_ingress := p\<rparr>) = (process_fill taker off ts f x)\<lparr>dm_ingress := p\<rparr>" for f x
    by (simp add: process_fill_def Let_def)
  then show ?thesis unfolding process_fills_def by (induction fs arbitrary: d) simp_all
qed

lemma process_fills_ingress_matcher:
  "process_fills fs taker off ts (d\<lparr>dm_ingress := p, dm_matcher := eng\<rparr>) = (process_fills fs taker off ts (d\<lparr>dm_matcher := eng\<rparr>))\<lparr>dm_ingress := p\<rparr>"
proof -
  have "d\<lparr>dm_ingress := p, dm_matcher := eng\<rparr> = (d\<lparr>dm_matcher := eng\<rparr>)\<lparr>dm_ingress := p\<rparr>" by simp
  then show ?thesis by (simp only: process_fills_ingress)
qed

lemma log_frame_ingress:
  "log_frame io f (d\<lparr>dm_ingress := p\<rparr>) = (case log_frame io f d of (off, e, d1) \<Rightarrow> (off, e, d1\<lparr>dm_ingress := p\<rparr>))"
  by (simp add: log_frame_def split: prod.splits option.splits)

lemma handle_frame_ingress:
  "handle_frame io f (d\<lparr>dm_ingress := p\<rparr>) = map_option (map_prod id (\<lambda>d1. d1\<lparr>dm_ingress := p\<rparr>)) (handle_frame io f d)"
proof -
  obtain off e d1 where l: "log_frame io f d = (off, e, d1)" by (metis prod_cases3)
  have "handle_new_order io f (d\<lparr>dm_ingress := p\<rparr>) = map_option (map_prod id (\<lambda>d1. d1\<lparr>dm_ingress := p\<rparr>)) (handle_new_order io f d)"
    by (simp add: handle_new_order_def log_frame_ingress l Let_def process_fills_ingress_matcher split: option.splits sum.splits bind_splits)
  moreover have "handle_cancel io f (d\<lparr>dm_ingress := p\<rparr>) = map_option (map_prod id (\<lambda>d1. d1\<lparr>dm_ingress := p\<rparr>)) (handle_cancel io f d)"
    by (simp add: handle_cancel_def log_frame_ingress l Let_def split: option.splits sum.splits bind_splits)
  moreover have "handle_replace io f (d\<lparr>dm_ingress := p\<rparr>) = map_option (map_prod id (\<lambda>d1. d1\<lparr>dm_ingress := p\<rparr>)) (handle_replace io f d)"
    by (simp add: handle_replace_def log_frame_ingress l Let_def process_fills_ingress_matcher split: option.splits sum.splits bind_splits)
  ultimately show ?thesis by (simp add: handle_frame_def split: MessageKind.split)
qed

lemma handle_frames_ingress:
  "handle_frames io fs (d\<lparr>dm_ingress := p\<rparr>) = map_option (map_prod id (\<lambda>d1. d1\<lparr>dm_ingress := p\<rparr>)) (handle_frames io fs d)"
proof (induction fs arbitrary: d)
  case (Cons f fs)
  then show ?case by (cases "handle_frame io f d") (auto simp: handle_frame_ingress)
qed simp

fun lane_next :: "MessageKind \<Rightarrow> IngressPipeline \<Rightarrow> (OwnedFrame option \<times> IngressPipeline) option" where
  "lane_next kNewOrder p = next_new_order p"
| "lane_next kCancel p = next_cancel p"
| "lane_next kReplace p = next_replace p"
| "lane_next kHeartbeat p = Some (None, p)"

fun lane_handler :: "DaemonIo \<Rightarrow> MessageKind \<Rightarrow> OwnedFrame \<Rightarrow> Daemon \<Rightarrow> (string option \<times> Daemon) option" where
  "lane_handler io kNewOrder f d = handle_new_order io f d"
| "lane_handler io kCancel f d = handle_cancel io f d"
| "lane_handler io kReplace f d = handle_replace io f d"
| "lane_handler io kHeartbeat f d = Some (None, d)"

lemma process_kind_lane: "k \<noteq> kHeartbeat \<Longrightarrow> process_kind io k d = process_lane (lane_next k) (lane_handler io k) 0 d"
proof -
  have "lane_next kNewOrder = next_new_order" "lane_next kCancel = next_cancel" "lane_next kReplace = next_replace"
    "lane_handler io kNewOrder = handle_new_order io" "lane_handler io kCancel = handle_cancel io"
    "lane_handler io kReplace = handle_replace io"
    by (simp_all add: fun_eq_iff)
  then show "k \<noteq> kHeartbeat \<Longrightarrow> ?thesis"
    by (cases k) (simp_all add: process_new_orders_def process_cancels_def process_replaces_def)
qed

lemma lane_handler_frame: "fh_kind (fr_header f) = k \<Longrightarrow> lane_handler io k f d = handle_frame io f d"
  by (cases k) (auto simp: handle_frame_def)

lemma lane_next_rep:
  "ingress_rep p s \<Longrightarrow> k \<noteq> kHeartbeat \<Longrightarrow> \<exists>p'. lane_next k p = Some (fst (spec_next k s), p') \<and> ingress_rep p' (snd (spec_next k s))"
  using ingress_next_rep [of p s] by (cases k) simp_all

text \<open>Frames are in the lane of their kind.\<close>

definition lanes_ok :: "IngressSpec \<Rightarrow> bool" where
  "lanes_ok s \<longleftrightarrow> is_lane s kHeartbeat = []
     \<and> (\<forall>k. \<forall>f \<in> set (is_lane s k). fh_kind (fr_header f) = k \<and> length (fr_payload f) < 2 ^ 16)"

definition emptied :: "MessageKind \<Rightarrow> IngressSpec \<Rightarrow> IngressSpec" where
  "emptied k s = s\<lparr>is_lane := (is_lane s)(k := [])\<rparr>"

lemma lanes_ok_emptied: "lanes_ok s \<Longrightarrow> lanes_ok (emptied k s)"
  by (auto simp: lanes_ok_def emptied_def split: if_splits)

lemma lanes_ok_sub: "lanes_ok s \<Longrightarrow> k \<noteq> kHeartbeat \<Longrightarrow> set fs \<subseteq> set (is_lane s k) \<Longrightarrow> lanes_ok (s\<lparr>is_lane := (is_lane s)(k := fs)\<rparr>)"
  by (auto simp: lanes_ok_def subset_iff)

lemma spec_next_simps:
  "is_lane s k = [] \<Longrightarrow> spec_next k s = (None, emptied k s)"
  "is_lane s k = f # fs \<Longrightarrow> spec_next k s = (Some f, s\<lparr>is_lane := (is_lane s)(k := fs)\<rparr>)"
  by (simp_all add: spec_next_def emptied_def)

text \<open>The loop over a lane ends and is the handling of the frames in the lane, first in first out.\<close>

lemma process_lane_drains:
  assumes "ingress_rep (dm_ingress d) s" and "lanes_ok s" and "k \<noteq> kHeartbeat" and "is_lane s k = fs"
    and "engine_reachable (dm_matcher d)" and "logs qs d"
  shows "\<exists>d1 p. handle_frames full_io fs d = Some (None, d1)
     \<and> process_lane (lane_next k) (lane_handler full_io k) n d = Some (None, n + of_nat (length fs), d1\<lparr>dm_ingress := p\<rparr>)
     \<and> ingress_rep p (emptied k s)"
  using assms
proof (induction fs arbitrary: d s qs n)
  case Nil
  then obtain p where "lane_next k (dm_ingress d) = Some (None, p)" "ingress_rep p (emptied k s)"
    using lane_next_rep [OF Nil.prems(1,3)] by (auto simp: spec_next_simps)
  then show ?case by (subst process_lane.simps) auto
next
  case (Cons f fs)
  let ?s = "s\<lparr>is_lane := (is_lane s)(k := fs)\<rparr>"
  obtain p where p: "lane_next k (dm_ingress d) = Some (Some f, p)" "ingress_rep p ?s"
    using lane_next_rep [OF Cons.prems(1,3)] by (auto simp: spec_next_simps(2) [OF Cons.prems(4)])
  have kind: "fh_kind (fr_header f) = k" using Cons.prems(2,4) by (auto simp: lanes_ok_def)
  obtain d1 where d1: "handle_frame full_io f d = Some (None, d1)" "engine_reachable (dm_matcher d1)" "logs (qs @ [log_entry f]) d1"
    using handle_frame_returns [OF Cons.prems(5,6)] kind Cons.prems(3) by blast
  have "lane_handler full_io k f (d\<lparr>dm_ingress := p\<rparr>) = Some (None, d1\<lparr>dm_ingress := p\<rparr>)"
    by (simp add: lane_handler_frame [OF kind] handle_frame_ingress d1(1))
  then have step: "process_lane (lane_next k) (lane_handler full_io k) n d
      = process_lane (lane_next k) (lane_handler full_io k) (n + 1) (d1\<lparr>dm_ingress := p\<rparr>)"
    by (subst process_lane.simps) (simp add: p(1))
  have "lanes_ok ?s" using lanes_ok_sub [OF Cons.prems(2) Cons.prems(3)] Cons.prems(4) by auto
  with Cons.IH [of "d1\<lparr>dm_ingress := p\<rparr>" ?s "qs @ [log_entry f]" "n + 1"] p(2) d1(2,3) Cons.prems(3)
  obtain d2 p2 where "handle_frames full_io fs (d1\<lparr>dm_ingress := p\<rparr>) = Some (None, d2)"
      "process_lane (lane_next k) (lane_handler full_io k) (n + 1) (d1\<lparr>dm_ingress := p\<rparr>) = Some (None, n + 1 + of_nat (length fs), d2\<lparr>dm_ingress := p2\<rparr>)"
      "ingress_rep p2 (emptied k ?s)"
    by auto
  moreover from this(1) obtain d3 where "handle_frames full_io fs d1 = Some (None, d3)" "d2 = d3\<lparr>dm_ingress := p\<rparr>"
    by (auto simp: handle_frames_ingress)
  moreover have "emptied k ?s = emptied k s" by (simp add: emptied_def)
  ultimately show ?case using d1(1) step by (auto simp: ac_simps)
qed

section \<open>One iteration of the event loop\<close>

lemma process_lanes_drain:
  assumes "ingress_rep (dm_ingress d) s" and "lanes_ok s" and "distinct ks" and "kHeartbeat \<notin> set ks"
    and "engine_reachable (dm_matcher d)" and "logs qs d"
  shows "\<exists>d1 p. handle_frames full_io (concat (map (is_lane s) ks)) d = Some (None, d1)
     \<and> process_lanes full_io ks d = Some (None, of_nat (length (concat (map (is_lane s) ks))), d1\<lparr>dm_ingress := p\<rparr>)
     \<and> ingress_rep p (fold emptied ks s)"
  using assms
proof (induction ks arbitrary: d s qs)
  case Nil
  then show ?case by (intro exI [of _ d] exI [of _ "dm_ingress d"]) simp
next
  case (Cons k ks)
  have k: "k \<noteq> kHeartbeat" using Cons.prems(4) by auto
  obtain d1 p where d1: "handle_frames full_io (is_lane s k) d = Some (None, d1)"
      "process_kind full_io k d = Some (None, of_nat (length (is_lane s k)), d1\<lparr>dm_ingress := p\<rparr>)" "ingress_rep p (emptied k s)"
    using process_lane_drains [OF Cons.prems(1,2) k refl Cons.prems(5,6), of 0] process_kind_lane [OF k] by auto
  have "list_all (\<lambda>f. fh_kind (fr_header f) \<noteq> kHeartbeat) (is_lane s k)"
    using Cons.prems(2) k by (auto simp: lanes_ok_def list_all_iff)
  with handle_frames_returns [OF Cons.prems(5,6)] d1(1)
  have ok: "engine_reachable (dm_matcher d1)" "logs (qs @ map log_entry (is_lane s k)) d1" by fastforce+
  have same: "map (is_lane (emptied k s)) ks = map (is_lane s) ks" using Cons.prems(3) by (auto simp: emptied_def)
  obtain d2 p2 where d2: "handle_frames full_io (concat (map (is_lane s) ks)) (d1\<lparr>dm_ingress := p\<rparr>) = Some (None, d2)"
      "process_lanes full_io ks (d1\<lparr>dm_ingress := p\<rparr>) = Some (None, of_nat (length (concat (map (is_lane s) ks))), d2\<lparr>dm_ingress := p2\<rparr>)"
      "ingress_rep p2 (fold emptied ks (emptied k s))"
    using Cons.IH [of "d1\<lparr>dm_ingress := p\<rparr>" "emptied k s" "qs @ map log_entry (is_lane s k)"] d1(3) lanes_ok_emptied [OF Cons.prems(2)] Cons.prems(3,4) ok
    unfolding same by auto
  moreover from d2(1) obtain d3 where "handle_frames full_io (concat (map (is_lane s) ks)) d1 = Some (None, d3)" "d2 = d3\<lparr>dm_ingress := p\<rparr>"
    by (auto simp: handle_frames_ingress)
  ultimately show ?case using d1(1,2) by (auto simp: handle_frames_append)
qed

end
