(* ===== verification/Daemon_Runs.thy ===== *)
theory Daemon_Runs
  imports Daemon_Properties
begin

text \<open>
  Runs of the daemon: datagrams arrive and the event loop iterates, in any interleaving. The daemon keeps
  an invariant over all its components, no operation ends it with an exception, and every accepted frame
  is handled and logged exactly once, in the order of its lane.
\<close>

section \<open>Invariants of the trading state\<close>

text \<open>What trading depends on: the books, the positions, the contexts of resting orders and the market.\<close>

definition same_core :: "Daemon \<Rightarrow> Daemon \<Rightarrow> bool" where
  "same_core d d' \<longleftrightarrow> same_trading d d' \<and> dm_default_market d' = dm_default_market d"

text \<open>
  The contract of a property \<open>J\<close> of the trading state and the frames handled so far: it depends on nothing
  else, and handling a frame keeps it. Every run of the daemon then keeps it.
\<close>

locale frame_invariant =
  fixes J :: "OwnedFrame list \<Rightarrow> Daemon \<Rightarrow> bool"
  assumes core: "J fs d \<Longrightarrow> same_core d d' \<Longrightarrow> J fs d'"
    and frame: "J fs d \<Longrightarrow> engine_reachable (dm_matcher d) \<Longrightarrow> logs qs d \<Longrightarrow> fh_kind (fr_header f) \<noteq> kHeartbeat
      \<Longrightarrow> handle_frame full_io f d = Some (None, d') \<Longrightarrow> J (fs @ [f]) d'"
begin

lemma frames:
  assumes "J fs d" and "engine_reachable (dm_matcher d)" and "logs qs d"
    and "list_all (\<lambda>f. fh_kind (fr_header f) \<noteq> kHeartbeat) gs" and "handle_frames full_io gs d = Some (None, d')"
  shows "J (fs @ gs) d'"
  using assms
proof (induction gs arbitrary: fs d qs)
  case (Cons g gs)
  obtain d1 where d1: "handle_frame full_io g d = Some (None, d1)" "engine_reachable (dm_matcher d1)" "logs (qs @ [log_entry g]) d1"
    using handle_frame_returns [OF Cons.prems(2,3), of g] Cons.prems(4) by auto
  then have "J (fs @ [g]) d1" using frame [OF Cons.prems(1-3)] Cons.prems(4) by simp
  from Cons.IH [OF this d1(2,3)] Cons.prems(4,5) d1(1) show ?case by simp
qed simp

end

text \<open>From one state to another, over the handling of some frames, every such property is kept.\<close>

definition keeps :: "Daemon \<Rightarrow> OwnedFrame list \<Rightarrow> Daemon \<Rightarrow> bool" where
  "keeps d fs d' \<longleftrightarrow> (\<forall>J gs. frame_invariant J \<longrightarrow> J gs d \<longrightarrow> J (gs @ fs) d')"

lemma keepsD:
  assumes "keeps d fs d'" and "frame_invariant J" and "J gs d" shows "J (gs @ fs) d'"
  using assms(1) [unfolded keeps_def, rule_format, of J gs] assms(2,3) .

lemma keeps_core: "same_core d d' \<Longrightarrow> keeps d [] d'"
  unfolding keeps_def append_Nil2 by (intro allI impI) (rule frame_invariant.core)

lemma keeps_frames:
  assumes "engine_reachable (dm_matcher d)" and "logs qs d" and "list_all (\<lambda>f. fh_kind (fr_header f) \<noteq> kHeartbeat) fs"
    and "handle_frames full_io fs d = Some (None, d')"
  shows "keeps d fs d'"
  unfolding keeps_def using frame_invariant.frames [OF _ _ assms] by blast

lemma keeps_trans:
  assumes "keeps d fs d1" and "keeps d1 gs d2" shows "keeps d (fs @ gs) d2"
  unfolding keeps_def
proof (intro allI impI)
  fix J hs
  assume J: "frame_invariant J" "J hs d"
  have "J (hs @ fs) d1" by (rule keepsD [where J = J, OF assms(1) J])
  from keepsD [where J = J, OF assms(2) J(1) this] show "J (hs @ fs @ gs) d2" by simp
qed

section \<open>The invariant\<close>

definition daemon_ok :: "IngressSpec \<Rightarrow> (u16 \<times> bytes) list \<Rightarrow> Saved list \<Rightarrow> Daemon \<Rightarrow> bool" where
  "daemon_ok s qs ps d \<longleftrightarrow> ingress_rep (dm_ingress d) s \<and> lanes_ok s \<and> engine_reachable (dm_matcher d)
     \<and> logs qs d \<and> list_all payload_ok qs \<and> store_ready (dm_snapshot d)
     \<and> (case dm_files d (ss_file_path (dm_snapshot d)) of None \<Rightarrow> [] | Some b \<Rightarrow> b) = snapshot_file ps \<and> list_all saved_ok ps"

lemma build_wal_payload_length: "length (build_wal_payload f) = 25 + length (fr_payload f)"
  by (simp add: build_wal_payload_def append_primitive_def Let_def)

lemma log_entry_ok: "length (fr_payload f) < 2 ^ 16 \<Longrightarrow> payload_ok (log_entry f)"
  by (simp add: payload_ok_def log_entry_def build_wal_payload_length)

text \<open>
  The snapshots against the count of the frames: after \<open>n\<close> frames the newest snapshot of this run, if there
  is one, has the state after \<open>k\<close> of them, and a next one is not due yet.
\<close>

definition snapshot_payload :: "u64 \<Rightarrow> u64 \<Rightarrow> bytes" where
  "snapshot_payload cid block = append_primitive 8 block (append_primitive 8 cid [])"

definition newest :: "u64 \<Rightarrow> nat \<Rightarrow> Saved list \<Rightarrow> bool" where
  "newest cid k ps \<longleftrightarrow> k = 0 \<and> ps = [] \<or> 0 < k \<and> ps \<noteq> [] \<and> last ps = (snapshot_sequence (of_nat k), snapshot_payload cid (of_nat k))"

definition snaps :: "SnapshotStore \<Rightarrow> u64 \<Rightarrow> nat \<Rightarrow> Saved list \<Rightarrow> Daemon \<Rightarrow> bool" where
  "snaps store cid n ps d \<longleftrightarrow> dm_snapshot d = store \<and> dm_chain_id d = cid \<and> dm_block_number d = of_nat n
     \<and> (\<exists>k \<le> n. dm_last_snapshot_block d = of_nat k \<and> (of_nat (n - k) :: u64) < kSnapshotInterval \<and> newest cid k ps)"

definition snaps_step :: "Saved list \<Rightarrow> Daemon \<Rightarrow> nat \<Rightarrow> Saved list \<Rightarrow> Daemon \<Rightarrow> bool" where
  "snaps_step ps d j ps' d' \<longleftrightarrow> (\<forall>store cid n. snaps store cid n ps d \<longrightarrow> snaps store cid (n + j) ps' d')"

lemma snaps_step_trans: "snaps_step ps d i ps1 d1 \<Longrightarrow> snaps_step ps1 d1 j ps2 d2 \<Longrightarrow> snaps_step ps d (i + j) ps2 d2"
  by (fastforce simp: snaps_step_def add.assoc)

lemma snaps_same:
  "same_shell d d' \<Longrightarrow> snaps store cid n ps d' = snaps store cid n ps d"
  "snaps store cid n ps (d\<lparr>dm_ingress := p\<rparr>) = snaps store cid n ps d"
  "snaps store cid n ps (d\<lparr>dm_transport := t\<rparr>) = snaps store cid n ps d"
  "snaps store cid n ps (report_status now d) = snaps store cid n ps d"
  by (simp_all add: snaps_def same_shell_def report_status_def Let_def split: prod.splits)

lemma snaps_count:
  assumes "dm_block_number d + of_nat j - dm_last_snapshot_block d < kSnapshotInterval"
  shows "snaps_step ps d j ps (d\<lparr>dm_block_number := dm_block_number d + of_nat j\<rparr>)"
  unfolding snaps_step_def
proof (intro allI impI)
  fix store cid n
  assume sn: "snaps store cid n ps d"
  then obtain k where k: "k \<le> n" "dm_last_snapshot_block d = of_nat k" "newest cid k ps" by (auto simp: snaps_def)
  then have "(of_nat (n + j - k) :: u64) < kSnapshotInterval" using assms sn by (simp add: snaps_def of_nat_diff)
  with sn k show "snaps store cid (n + j) ps (d\<lparr>dm_block_number := dm_block_number d + of_nat j\<rparr>)"
    unfolding snaps_def by (intro conjI exI [of _ k]) simp_all
qed

lemma snaps_idle:
  assumes "of_nat j = (0 :: u64)" shows "snaps_step ps d j ps d"
  unfolding snaps_step_def
proof (intro allI impI)
  fix store cid n
  assume sn: "snaps store cid n ps d"
  then have "dm_block_number d + of_nat j - dm_last_snapshot_block d < kSnapshotInterval" using assms by (auto simp: snaps_def of_nat_diff)
  from snaps_count [OF this, of ps] sn show "snaps store cid (n + j) ps d" using assms by (simp add: snaps_step_def)
qed

lemma snaps_taken:
  assumes "b = dm_block_number d + of_nat j" and "0 < j" and "ps' \<noteq> []" and "last ps' = (snapshot_sequence b, snapshot_payload (dm_chain_id d) b)"
  shows "snaps_step ps d j ps' (d\<lparr>dm_block_number := b, dm_files := fs, dm_last_snapshot_block := b\<rparr>)"
  unfolding snaps_step_def
proof (intro allI impI)
  fix store cid n
  assume "snaps store cid n ps d"
  then show "snaps store cid (n + j) ps' (d\<lparr>dm_block_number := b, dm_files := fs, dm_last_snapshot_block := b\<rparr>)"
    using assms unfolding snaps_def by (intro conjI exI [of _ "n + j"]) (simp_all add: kSnapshotInterval_def newest_def)
qed

text \<open>Counting blocks and taking snapshots succeeds.\<close>

lemma advance_block_ok:
  assumes "daemon_ok s qs ps d"
  shows "\<exists>ps' d'. advance_block full_io (of_nat j) d = (None, d') \<and> daemon_ok s qs ps' d' \<and> dm_block_number d' = dm_block_number d + of_nat j
    \<and> same_core d d' \<and> snaps_step ps d j ps' d'"
proof -
  let ?n = "of_nat j :: u64"
  let ?b = "dm_block_number d + ?n" and ?path = "ss_file_path (dm_snapshot d)"
  let ?d = "d\<lparr>dm_block_number := ?b\<rparr>" and ?pl = "snapshot_payload (dm_chain_id d) ?b"
  have ok1: "daemon_ok s qs ps ?d" using assms by (simp add: daemon_ok_def logs_def wal_bytes_def)
  consider "?n = 0" | "?n \<noteq> 0" "\<not> ?b - dm_last_snapshot_block d \<ge> kSnapshotInterval"
    | "?n \<noteq> 0" "?b - dm_last_snapshot_block d \<ge> kSnapshotInterval" by blast
  then show ?thesis
  proof cases
    case 3
    then have "0 < j" by (cases j) simp_all
    have "list_all saved_ok (ps @ [(snapshot_sequence ?b, ?pl)])"
      using assms by (simp add: daemon_ok_def saved_ok_def snapshot_payload_def append_primitive_def)
    then obtain k fs where k: "persist (snapshot_sequence ?b) ?pl (dm_snapshot d) (dm_files d) = (None, fs)"
        "fs ?path = Some (snapshot_file (drop k (ps @ [(snapshot_sequence ?b, ?pl)])))" "k \<le> length ps"
      using persist_file [of "dm_snapshot d" "dm_files d" ps "snapshot_sequence ?b" ?pl] assms
      by (fastforce simp: daemon_ok_def)
    let ?ps = "drop k (ps @ [(snapshot_sequence ?b, ?pl)])"
    have "list_all saved_ok ?ps"
      using \<open>list_all saved_ok (ps @ [(snapshot_sequence ?b, ?pl)])\<close> by (auto simp: list_all_iff dest: in_set_dropD)
    then have "daemon_ok s qs ?ps (?d\<lparr>dm_files := fs, dm_last_snapshot_block := ?b\<rparr>)"
      using assms k(2) by (simp add: daemon_ok_def logs_def wal_bytes_def)
    moreover have "snaps_step ps d j ?ps (?d\<lparr>dm_files := fs, dm_last_snapshot_block := ?b\<rparr>)"
      using k(3) \<open>0 < j\<close> by (intro snaps_taken) simp_all
    ultimately show ?thesis
      using 3 k(1) by (intro exI [of _ ?ps]) (simp add: advance_block_full snapshot_payload_def same_core_def same_trading_def Let_def)
  next
    case 2
    then show ?thesis using ok1 snaps_count [of d j ps] by (auto simp: advance_block_full same_core_def same_trading_def Let_def)
  next
    case 1
    then show ?thesis using assms snaps_idle [OF 1] by (auto simp: advance_block_full same_core_def same_trading_def)
  qed
qed

lemma report_status_ok:
  "daemon_ok s qs ps (report_status now d) = daemon_ok s qs ps d" "dm_block_number (report_status now d) = dm_block_number d"
  "same_core x (report_status now d) = same_core x d"
  by (simp_all add: report_status_def same_core_def same_trading_def daemon_ok_def logs_def wal_bytes_def Let_def split: prod.splits)

lemma evaluation_order_facts:
  assumes "evaluation_order ks"
  shows "distinct ks" "kHeartbeat \<notin> set ks" "set ks = {kNewOrder, kCancel, kReplace}"
proof -
  show s: "set ks = {kNewOrder, kCancel, kReplace}" using mset_eq_setD [OF assms [unfolded evaluation_order_def]] by simp
  show "kHeartbeat \<notin> set ks" by (simp add: s)
  show "distinct ks" using mset_eq_imp_distinct_iff [OF assms [unfolded evaluation_order_def]] by simp
qed

definition is_kind :: "MessageKind \<Rightarrow> OwnedFrame \<Rightarrow> bool" where
  "is_kind k f \<longleftrightarrow> fh_kind (fr_header f) = k"

lemma lanes_by_kind:
  "lanes_ok s \<Longrightarrow> distinct ks \<Longrightarrow> filter (is_kind k) (concat (map (is_lane s) ks)) = (if k \<in> set ks then is_lane s k else [])"
proof (induction ks)
  case (Cons j ks)
  have "filter (is_kind k) (is_lane s j) = (if j = k then is_lane s k else [])"
    using Cons.prems(1) by (auto simp: lanes_ok_def is_kind_def filter_id_conv filter_empty_conv)
  then show ?case using Cons by auto
qed simp

lemma fold_emptied_lane: "is_lane (fold emptied ks s) k = (if k \<in> set ks then [] else is_lane s k)"
  by (induction ks arbitrary: s) (auto simp: emptied_def)

lemma fold_emptied_ok: "lanes_ok s \<Longrightarrow> lanes_ok (fold emptied ks s)"
  by (induction ks arbitrary: s) (simp_all add: lanes_ok_emptied)

lemma lane_frames_ok:
  assumes "daemon_ok s qs ps d" and "evaluation_order ks"
  shows "list_all (\<lambda>f. fh_kind (fr_header f) \<noteq> kHeartbeat) (concat (map (is_lane s) ks))"
    "list_all payload_ok (map log_entry (concat (map (is_lane s) ks)))"
proof -
  have "\<forall>f \<in> set (concat (map (is_lane s) ks)). fh_kind (fr_header f) \<noteq> kHeartbeat \<and> length (fr_payload f) < 2 ^ 16"
    using assms(1) evaluation_order_facts(2) [OF assms(2)] by (auto simp: daemon_ok_def lanes_ok_def)
  then show "list_all (\<lambda>f. fh_kind (fr_header f) \<noteq> kHeartbeat) (concat (map (is_lane s) ks))"
    "list_all payload_ok (map log_entry (concat (map (is_lane s) ks)))"
    by (auto simp: list_all_iff intro!: log_entry_ok)
qed

text \<open>
  An iteration handles exactly the queued frames, lane by lane in the order of evaluation, leaves the lanes
  empty and counts the frames.
\<close>

lemma event_loop_iteration_ok:
  assumes "daemon_ok s qs ps d" and "evaluation_order ks"
  shows "\<exists>d1 d' ps'. event_loop_iteration full_io now ks d = Some (None, d')
     \<and> handle_frames full_io (concat (map (is_lane s) ks)) d = Some (None, d1) \<and> same_core d1 d'
     \<and> daemon_ok (fold emptied ks s) (qs @ map log_entry (concat (map (is_lane s) ks))) ps' d'
     \<and> dm_block_number d' = dm_block_number d + of_nat (length (concat (map (is_lane s) ks)))
     \<and> snaps_step ps d (length (concat (map (is_lane s) ks))) ps' d'"
proof -
  let ?fs = "concat (map (is_lane s) ks)"
  note order = evaluation_order_facts [OF assms(2)]
  have inv: "ingress_rep (dm_ingress d) s" "lanes_ok s" "engine_reachable (dm_matcher d)" "logs qs d"
    using assms(1) by (simp_all add: daemon_ok_def)
  obtain d1 p where d1: "handle_frames full_io ?fs d = Some (None, d1)"
      "process_lanes full_io ks d = Some (None, of_nat (length ?fs), d1\<lparr>dm_ingress := p\<rparr>)" "ingress_rep p (fold emptied ks s)"
    using process_lanes_drain [OF inv(1,2) order(1,2) inv(3,4)] by blast
  note fs = lane_frames_ok [OF assms]
  have h: "engine_reachable (dm_matcher d1)" "logs (qs @ map log_entry ?fs) d1" "same_shell d d1"
    using handle_frames_returns [OF inv(3,4) fs(1)] d1(1) by auto
  have "daemon_ok (fold emptied ks s) (qs @ map log_entry ?fs) ps (d1\<lparr>dm_ingress := p\<rparr>)"
    using assms(1) h fs(2) d1(3) fold_emptied_ok [OF inv(2)] by (simp add: daemon_ok_def same_shell_def)
  from advance_block_ok [OF this, of "length ?fs"] obtain ps' d' where
    "advance_block full_io (of_nat (length ?fs)) (d1\<lparr>dm_ingress := p\<rparr>) = (None, d')"
    "daemon_ok (fold emptied ks s) (qs @ map log_entry ?fs) ps' d'" "dm_block_number d' = dm_block_number d1 + of_nat (length ?fs)"
    "same_core (d1\<lparr>dm_ingress := p\<rparr>) d'" "snaps_step ps (d1\<lparr>dm_ingress := p\<rparr>) (length ?fs) ps' d'"
    by auto
  then have "event_loop_iteration full_io now ks d = Some (None, report_status now d')"
      "daemon_ok (fold emptied ks s) (qs @ map log_entry ?fs) ps' (report_status now d')" "same_core d1 (report_status now d')"
      "dm_block_number (report_status now d') = dm_block_number d + of_nat (length ?fs)"
      "snaps_step ps d (length ?fs) ps' (report_status now d')"
    using d1(2) h(3) by (simp_all add: event_loop_iteration_def report_status_ok snaps_step_def snaps_same(1) [OF h(3)] snaps_same(2-),
      simp_all add: same_core_def same_trading_def same_shell_def)
  with d1(1) show ?thesis by blast
qed

section \<open>Datagrams\<close>

text \<open>The frame that a datagram adds to a lane: the callback gets it and the pipeline accepts it.\<close>

definition accepted_frame :: "int \<Rightarrow> u64 \<Rightarrow> bytes \<Rightarrow> Daemon \<Rightarrow> OwnedFrame list" where
  "accepted_frame now key data d =
     (case fst (receive_datagram now key data (qt_transport (dm_transport d))) of
        None \<Rightarrow> []
      | Some f \<Rightarrow>
          (case ingress_submit f (dm_ingress d) of
             Some (True, _) \<Rightarrow> if fh_kind (fr_header f) = kHeartbeat then [] else [f]
           | _ \<Rightarrow> []))"

lemma received_payload:
  "fst (receive_datagram now key data t) = Some f \<Longrightarrow> length (fr_payload f) < 2 ^ 16"
proof -
  assume "fst (receive_datagram now key data t) = Some f"
  then have "parse_frame data = Some f" by (auto simp: receive_datagram_def Let_def split: if_splits option.splits)
  then have "length (fr_payload f) \<le> unat (wh_payload_len (wire_header data))"
    by (auto simp: parse_frame_def Let_def split: if_splits)
  also have "\<dots> < 2 ^ 16" using unsigned_less [of "wh_payload_len (wire_header data)"] by simp
  finally show "length (fr_payload f) < 2 ^ 16" .
qed

lemma spec_submit_lanes:
  assumes "lanes_ok s" and "length (fr_payload f) < 2 ^ 16"
  shows "lanes_ok (snd (spec_submit f s))"
    "is_lane (snd (spec_submit f s)) k = is_lane s k
       @ (if fst (spec_submit f s) \<and> fh_kind (fr_header f) \<noteq> kHeartbeat \<and> fh_kind (fr_header f) = k then [f] else [])"
  using assms by (auto simp: spec_submit_def lanes_ok_def Let_def split: prod.splits if_splits)

lemma on_datagram_ok:
  assumes "daemon_ok s qs ps d"
  shows "\<exists>s' d'. on_datagram now key data d = Some d' \<and> daemon_ok s' qs ps d' \<and> dm_block_number d' = dm_block_number d \<and> same_core d d'
     \<and> snaps_step ps d 0 ps d'
     \<and> (\<forall>k. is_lane s' k = is_lane s k @ filter (is_kind k) (accepted_frame now key data d))"
proof -
  obtain fr t where r: "receive_datagram now key data (qt_transport (dm_transport d)) = (fr, t)" by (metis surj_pair)
  let ?d1 = "d\<lparr>dm_transport := (dm_transport d)\<lparr>qt_transport := t\<rparr>\<rparr>"
  have ok1: "daemon_ok s qs ps ?d1" using assms by (simp add: daemon_ok_def logs_def wal_bytes_def)
  show ?thesis
  proof (cases fr)
    case None
    then show ?thesis using r ok1 by (auto simp: on_datagram_def accepted_frame_def same_core_def same_trading_def snaps_step_def snaps_same)
  next
    case (Some f)
    have small: "length (fr_payload f) < 2 ^ 16" using received_payload [of now key data "qt_transport (dm_transport d)" f] r Some by simp
    have rep: "ingress_rep (dm_ingress d) s" "lanes_ok s" using assms by (simp_all add: daemon_ok_def)
    obtain p where p: "ingress_submit f (dm_ingress d) = Some (fst (spec_submit f s), p)" "ingress_rep p (snd (spec_submit f s))"
      using ingress_submit_rep [OF rep(1)] by blast
    note lanes = spec_submit_lanes [OF rep(2) small]
    have "on_datagram now key data d = Some (?d1\<lparr>dm_ingress := p\<rparr>)" using r Some p(1) by (simp add: on_datagram_def)
    moreover have "daemon_ok (snd (spec_submit f s)) qs ps (?d1\<lparr>dm_ingress := p\<rparr>)"
      using ok1 p(2) lanes(1) by (simp add: daemon_ok_def)
    moreover have "is_lane (snd (spec_submit f s)) k = is_lane s k @ filter (is_kind k) (accepted_frame now key data d)" for k
      using r Some p(1) by (auto simp: accepted_frame_def is_kind_def lanes(2) split: bool.splits)
    ultimately show ?thesis by (intro exI [of _ "snd (spec_submit f s)"]) (simp add: same_core_def same_trading_def snaps_step_def snaps_same)
  qed
qed

section \<open>Runs\<close>

datatype DaemonOp = Datagram int u64 bytes | Iteration int "MessageKind list"

text \<open>A run returns the accepted frames, the exception that ended the daemon, if any, and the state.\<close>

fun run_daemon :: "DaemonIo \<Rightarrow> DaemonOp list \<Rightarrow> Daemon \<Rightarrow> (OwnedFrame list \<times> string option \<times> Daemon) option" where
  "run_daemon io [] d = Some ([], None, d)"
| "run_daemon io (Datagram now key data # ops) d = do {
     d1 \<leftarrow> on_datagram now key data d;
     (fs, e, d2) \<leftarrow> run_daemon io ops d1;
     Some (accepted_frame now key data d @ fs, e, d2)
   }"
| "run_daemon io (Iteration now ks # ops) d = do {
     (e, d1) \<leftarrow> event_loop_iteration io now ks d;
     if e \<noteq> None then Some ([], e, d1) else run_daemon io ops d1
   }"

fun daemon_op_ok :: "DaemonOp \<Rightarrow> bool" where
  "daemon_op_ok (Datagram now key data) = True"
| "daemon_op_ok (Iteration now ks) = evaluation_order ks"

lemma run_daemon_append:
  assumes "run_daemon io ops d = Some (acc, None, d1)" and "run_daemon io ops' d1 = Some (acc', e, d2)"
  shows "run_daemon io (ops @ ops') d = Some (acc @ acc', e, d2)"
  using assms
proof (induction ops arbitrary: d acc)
  case (Cons op ops)
  then show ?case by (cases op) (auto split: bind_splits if_splits)
qed simp

text \<open>
  What a run from a state with lanes \<open>s\<close> and log \<open>qs\<close> has done when the frames \<open>fs\<close> have been handled: they
  are logged and counted, in each lane the queued and accepted frames are the handled and the still queued
  ones, the snapshots have kept up, and every invariant of the trading state has been kept.
\<close>

definition run_effect :: "IngressSpec \<Rightarrow> (u16 \<times> bytes) list \<Rightarrow> Saved list \<Rightarrow> Daemon \<Rightarrow> OwnedFrame list \<Rightarrow> OwnedFrame list \<Rightarrow> IngressSpec \<Rightarrow> Daemon \<Rightarrow> bool" where
  "run_effect s qs ps d acc fs s' d' \<longleftrightarrow>
     (\<exists>ps'. daemon_ok s' (qs @ map log_entry fs) ps' d' \<and> snaps_step ps d (length fs) ps' d')
     \<and> dm_block_number d' = dm_block_number d + of_nat (length fs)
     \<and> (\<forall>k. is_lane s k @ filter (is_kind k) acc = filter (is_kind k) fs @ is_lane s' k)
     \<and> keeps d fs d'"

lemma run_effect_datagram:
  assumes "run_effect s1 qs ps d1 acc fs s' d'" and "dm_block_number d1 = dm_block_number d" and "same_core d d1"
    and "snaps_step ps d 0 ps d1" and "\<forall>k. is_lane s1 k = is_lane s k @ filter (is_kind k) acc1"
  shows "run_effect s qs ps d (acc1 @ acc) fs s' d'"
  using assms(1,2,5) keeps_trans [OF keeps_core [OF assms(3)], of fs d'] snaps_step_trans [OF assms(4)] by (fastforce simp: run_effect_def)

lemma run_effect_iteration:
  assumes "run_effect (fold emptied ks s) (qs @ map log_entry gs) ps1 d1 acc fs s' d'" and gs: "gs = concat (map (is_lane s) ks)"
    and "dm_block_number d1 = dm_block_number d + of_nat (length gs)" and h: "handle_frames full_io gs d = Some (None, d0)"
    and "same_core d0 d1" and ok: "daemon_ok s qs ps d" and ks: "evaluation_order ks" and "snaps_step ps d (length gs) ps1 d1"
  shows "run_effect s qs ps d acc (gs @ fs) s' d'"
proof -
  have inv: "lanes_ok s" "engine_reachable (dm_matcher d)" "logs qs d" using ok by (simp_all add: daemon_ok_def)
  note nh = lane_frames_ok(1) [OF ok ks, folded gs]
  have "is_lane s k = filter (is_kind k) gs @ is_lane (fold emptied ks s) k" for k
    by (simp add: gs lanes_by_kind [OF inv(1) evaluation_order_facts(1) [OF ks]] fold_emptied_lane)
  moreover have "keeps d (gs @ fs) d'"
    using keeps_trans [OF keeps_trans [OF keeps_frames [OF inv(2,3) nh h] keeps_core [OF assms(5)]], of fs d'] assms(1)
    by (simp add: run_effect_def)
  ultimately show ?thesis using assms(1,3) snaps_step_trans [OF assms(8)] by (fastforce simp: run_effect_def)
qed

lemma run_daemon_ok:
  assumes "daemon_ok s qs ps d" and "list_all daemon_op_ok ops"
  shows "\<exists>acc d' fs s'. run_daemon full_io ops d = Some (acc, None, d') \<and> run_effect s qs ps d acc fs s' d'"
  using assms
proof (induction ops arbitrary: s qs ps d)
  case Nil
  then have "run_effect s qs ps d [] [] s d" by (auto simp: run_effect_def keeps_def snaps_step_def)
  then show ?case by auto
next
  case (Cons op ops)
  show ?case
  proof (cases op)
    case (Datagram now key data)
    obtain s1 d1 where d1: "on_datagram now key data d = Some d1" "daemon_ok s1 qs ps d1" "dm_block_number d1 = dm_block_number d"
        "same_core d d1" "snaps_step ps d 0 ps d1" "\<forall>k. is_lane s1 k = is_lane s k @ filter (is_kind k) (accepted_frame now key data d)"
      using on_datagram_ok [OF Cons.prems(1)] by blast
    from Cons.IH [OF d1(2)] Cons.prems(2) obtain acc d' fs s' where
      "run_daemon full_io ops d1 = Some (acc, None, d')" "run_effect s1 qs ps d1 acc fs s' d'" by auto
    with run_effect_datagram [OF this(2) d1(3-6)] d1(1) show ?thesis by (auto simp: Datagram)
  next
    case (Iteration now ks)
    have ks: "evaluation_order ks" using Cons.prems(2) Iteration by simp
    obtain d0 d1 ps1 where d1: "event_loop_iteration full_io now ks d = Some (None, d1)"
        "handle_frames full_io (concat (map (is_lane s) ks)) d = Some (None, d0)" "same_core d0 d1"
        "daemon_ok (fold emptied ks s) (qs @ map log_entry (concat (map (is_lane s) ks))) ps1 d1"
        "dm_block_number d1 = dm_block_number d + of_nat (length (concat (map (is_lane s) ks)))"
        "snaps_step ps d (length (concat (map (is_lane s) ks))) ps1 d1"
      using event_loop_iteration_ok [OF Cons.prems(1) ks] by blast
    from Cons.IH [OF d1(4)] Cons.prems(2) obtain acc d' fs s' where
      "run_daemon full_io ops d1 = Some (acc, None, d')"
      "run_effect (fold emptied ks s) (qs @ map log_entry (concat (map (is_lane s) ks))) ps1 d1 acc fs s' d'" by auto
    with run_effect_iteration [OF this(2) refl d1(5,2,3) Cons.prems(1) ks d1(6)] d1(1) show ?thesis by (auto simp: Iteration)
  qed
qed

lemma shutdown_file: "logs qs d \<Longrightarrow> ww_file (dm_wal (snd (shutdown full_io fsync_ok d))) = log_bytes (numbered 1 qs)"
  by (simp add: shutdown_def wal_sync_def wal_flush_full logs_def wal_bytes_def Let_def)

lemma shutdown_log:
  assumes "logs qs d" and "list_all payload_ok qs"
  shows "read_all (open_reader (ww_file (dm_wal (snd (shutdown full_io fsync_ok d))))) = (numbered 1 qs, None)"
  using read_log [OF numbered_ok [OF assms(2)]] by (simp add: shutdown_file [OF assms(1)] del: read_all.simps)

section \<open>Start-up\<close>

lemma setup_markets_reachable:
  "engine_reachable eng \<Longrightarrow> engine_reachable (fst (fold setup_market ms (eng, rk, fd)))"
proof (induction ms arbitrary: eng rk fd)
  case (Cons mc ms)
  have "engine_reachable (add_market (ucast (mc_id mc)) eng)"
    using engine_reachable.step [OF Cons.prems, of "AddMarket (ucast (mc_id mc))"] by (simp add: engine_step_def)
  from Cons.IH [OF this] show ?case by (simp add: setup_market_def Let_def)
qed simp

lemma load_config_ok: "load_config args env = Inr cfg \<Longrightarrow> config_ok cfg"
proof -
  have v: "validate (parse_config t) = [] \<Longrightarrow> config_ok (parse_config t)" for t
    using validate_ok [of "parse_config t"] by (simp add: parse_config_def parse_markets_nonempty)
  show "load_config args env = Inr cfg \<Longrightarrow> config_ok cfg"
    by (auto simp: load_config_def load_def load_from_string_def load_failed_def Let_def intro: v split: if_splits sum.splits)
qed

text \<open>
  What earlier runs have left: a log with the payloads \<open>qs\<close> and a snapshot file with the snapshots \<open>ps\<close>; a
  file without contents need not exist. A daemon that starts on such files satisfies the invariant.
\<close>

definition prior_files :: "Environment \<Rightarrow> EngineConfig \<Rightarrow> (u16 \<times> bytes) list \<Rightarrow> Saved list \<Rightarrow> bool" where
  "prior_files env cfg qs ps \<longleftrightarrow>
     file_at (env_files env) (wal_path (cfg_persistence cfg)) = log_bytes (numbered 1 qs) \<and> list_all payload_ok qs
     \<and> file_at (env_files env) (path_join (snapshot_dir (cfg_persistence cfg)) ''snapshot.tc'') = snapshot_file ps
     \<and> list_all saved_ok ps"

lemma boot_cases:
  assumes "boot env cfg = Inr d" and "prior_files env cfg qs ps"
  obtains ver where "ingress_rep (dm_ingress d) (fresh_spec (ingress_config cfg) ver)"
    "dm_matcher d = fst (fold setup_market (cfg_markets cfg) (Map.empty, new_risk_engine, Map.empty))"
    "dm_risk d = fst (snd (fold setup_market (cfg_markets cfg) (Map.empty, new_risk_engine, Map.empty)))"
    "logs qs d" "dm_snapshot d = open_store (snapshot_dir (cfg_persistence cfg)) default_store_options"
    "dm_files d = env_files env" "dm_block_number d = 0" "resting_orders d = Map.empty"
    "dm_default_market d = (case cfg_markets cfg of [] \<Rightarrow> 1 | mc # _ \<Rightarrow> ucast (mc_id mc))"
    "dm_last_snapshot_block d = 0" "dm_replay d = configure_replay (snapshot_dir (cfg_persistence cfg)) (wal_path (cfg_persistence cfg)) new_driver"
proof -
  have sodium: "env_sodium env = True" using assms(1) by (cases "env_sodium env") (simp_all add: boot_def)
  obtain p0 where p0: "new_ingress = Some p0" using assms(1) by (auto simp: boot_def sodium case_prod_unfold split: option.splits)
  let ?ver = "Some (auth_verifier (env_crypto_verify env) (env_padding env) (register_account 1 (fst (env_keypair env)) []))"
  obtain ok p1 where p1: "configure (ingress_config cfg) ?ver p0 = (ok, p1)" by (metis surj_pair)
  obtain st t where st: "quic_start (env_sockets env) (transport_endpoint cfg) True new_quic_transport = (st, t)" by (metis surj_pair)
  obtain eng rk fd where e: "fold setup_market (cfg_markets cfg) (Map.empty, new_risk_engine, Map.empty) = (eng, rk, fd)" by (metis prod_cases3)
  have w: "open_writer (file_at (env_files env) (wal_path (cfg_persistence cfg))) n = Inr \<lparr>ww_file = log_bytes (numbered 1 qs),
      ww_stream = [], ww_buffer = [], flush_threshold = n, ww_next_sequence = 1 + of_nat (length qs)\<rparr>" for n
    using open_writer_log [of qs] assms(2) by (simp add: prior_files_def)
  note boot = assms(1) [unfolded boot_def, simplified sodium sodium_simps sum.case case_prod_unfold p0 option.case Let_def p1 st e prod.sel]
  have "ok" using boot by (auto split: if_splits)
  then have "ingress_rep p1 (fresh_spec (ingress_config cfg) ?ver)" using configure_rep p1 by simp
  moreover have "dm_ingress d = p1" "dm_matcher d = eng" "dm_risk d = rk" "logs qs d"
      "dm_snapshot d = open_store (snapshot_dir (cfg_persistence cfg)) default_store_options"
      "dm_files d = env_files env" "dm_block_number d = 0" "resting_orders d = Map.empty"
      "dm_default_market d = (case cfg_markets cfg of [] \<Rightarrow> 1 | mc # _ \<Rightarrow> ucast (mc_id mc))"
      "dm_last_snapshot_block d = 0" "dm_replay d = configure_replay (snapshot_dir (cfg_persistence cfg)) (wal_path (cfg_persistence cfg)) new_driver"
    using boot by (auto simp: open_store_def prepare_def ensure_open_def w logs_def wal_bytes_def split: if_splits)
  ultimately show thesis by (intro that [of ?ver]) (simp_all add: e)
qed

lemma boot_ok:
  assumes "load_config args env = Inr cfg" and "boot env cfg = Inr d" and "prior_files env cfg qs ps"
  shows "\<exists>ver. daemon_ok (fresh_spec (ingress_config cfg) ver) qs ps d \<and> dm_block_number d = 0"
proof -
  have dir: "snapshot_dir (cfg_persistence cfg) \<noteq> []" using load_config_ok [OF assms(1)] by (simp add: config_ok_def)
  have path: "ss_file_path (open_store dir opts) = path_join dir ''snapshot.tc''" for dir opts
    by (simp add: open_store_def prepare_def)
  from assms(2,3) show ?thesis
  proof (cases rule: boot_cases)
    case (1 ver)
    have "engine_reachable (dm_matcher d)" using 1(2) setup_markets_reachable [OF engine_reachable.start] by simp
    moreover have "lanes_ok (fresh_spec (ingress_config cfg) ver)" by (simp add: lanes_ok_def fresh_spec_def)
    ultimately show ?thesis using 1 dir assms(3) by (auto simp: daemon_ok_def path prior_files_def file_at_def)
  qed
qed

text \<open>
  A log path without a directory passes the validation of the configuration, but its parent is the empty path, for
  which \<open>create_directories\<close> throws: the daemon does not start.
\<close>

lemma boot_directories:
  assumes "boot env cfg = Inr d"
  shows "env_create_directories env (parent_path (wal_path (cfg_persistence cfg)))"
proof -
  have sodium: "env_sodium env = True" using assms by (cases "env_sodium env") (simp_all add: boot_def)
  obtain p0 where p0: "new_ingress = Some p0" using assms by (auto simp: boot_def sodium case_prod_unfold split: option.splits)
  let ?ver = "Some (auth_verifier (env_crypto_verify env) (env_padding env) (register_account 1 (fst (env_keypair env)) []))"
  obtain ok p1 where p1: "configure (ingress_config cfg) ?ver p0 = (ok, p1)" by (metis surj_pair)
  obtain st t where st: "quic_start (env_sockets env) (transport_endpoint cfg) True new_quic_transport = (st, t)" by (metis surj_pair)
  obtain eng rk fd where e: "fold setup_market (cfg_markets cfg) (Map.empty, new_risk_engine, Map.empty) = (eng, rk, fd)" by (metis prod_cases3)
  show ?thesis using assms [unfolded boot_def, simplified sodium sodium_simps sum.case case_prod_unfold p0 option.case Let_def p1 st e prod.sel] by (simp split: if_splits)
qed

lemma bare_log_path_refused:
  assumes "CHR ''/'' \<notin> set (wal_path (cfg_persistence cfg))" and "\<not> env_create_directories env []"
  shows "\<exists>e. boot env cfg = Inl e"
proof (cases "boot env cfg")
  case (Inr d)
  have "dropWhile (\<lambda>c. c \<noteq> CHR ''/'') (rev (wal_path (cfg_persistence cfg))) = []"
    using assms(1) unfolding dropWhile_eq_Nil_conv by (metis set_rev)
  then have "parent_path (wal_path (cfg_persistence cfg)) = []" unfolding parent_path_def Let_def by (simp only:) simp
  with boot_directories [OF Inr] assms(2) show ?thesis by simp
qed simp

section \<open>A concrete start\<close>

text \<open>A machine with an empty configuration file, working sockets and no files yet.\<close>

definition sample_environment :: Environment where
  "sample_environment = \<lparr>env_home = None, env_exists = (\<lambda>path. path = ''tradecore.toml''),
     env_parse_file = (\<lambda>_. Inr (TomlTable (\<lambda>_. None) (\<lambda>_. None) (\<lambda>_. None) (\<lambda>_. None) (\<lambda>_. None))),
     env_parse = (\<lambda>_. Inl ''unused''), env_crypto_verify = (\<lambda>_ _ _. True), env_padding = (\<lambda>_. []),
     env_sodium = True, env_keypair = ([], []), env_sockets = \<lparr>os_socket = True, os_inet_pton = (\<lambda>_. True), os_bind = (\<lambda>_ _. True)\<rparr>,
     env_create_directories = (\<lambda>path. path \<noteq> []), env_log = \<lparr>lc_fopen = (\<lambda>_. True), lc_fseek = (\<lambda>_. True), lc_fopen_read = (\<lambda>_. True)\<rparr>,
     env_files = Map.empty, env_chain_id = None, env_start_time = 0\<rparr>"

definition sample_config :: EngineConfig where
  "sample_config = empty_config\<lparr>cfg_markets := [default_market]\<rparr>"

text \<open>A frame with an order for 10 contracts, filled up to the length of a signature, which this machine accepts.\<close>

definition sample_order_frame :: OwnedFrame where
  "sample_order_frame = \<lparr>fr_header = \<lparr>fh_account = 1, fh_nonce = 5, received_time_ns = 0, priority = 0, fh_kind = kNewOrder\<rparr>,
     fr_payload = encode_new_order \<lparr>no_side = kBuy, no_quantity = 10, no_price = 900, no_flags = 0\<rparr> @ replicate 45 0\<rparr>"

lemma sample_load: "load_config [''tradecore.toml''] sample_environment = Inr sample_config"
proof -
  have "validate sample_config = []"
    unfolding sample_config_def by (subst validate_ok) (simp_all add: empty_table_defaults(2))
  then show ?thesis
    by (simp add: load_config_def find_config_path_def load_def sample_environment_def empty_table_defaults(1) sample_config_def Let_def)
qed

lemma sample_prior: "prior_files sample_environment cfg [] []"
  by (simp add: prior_files_def file_at_def sample_environment_def)

lemma sample_endpoint: "parse_endpoint default_transport_endpoint = Endpoint ''127.0.0.1'' 9000"
  by (simp add: parse_endpoint_def default_transport_endpoint_def strip_scheme_def stoi_port_def decimal_def is_digit_def digit_value_def)

lemma sample_boot: "\<exists>d. boot sample_environment sample_config = Inr d"
proof -
  have "(new_ring 4096 :: OwnedFrame SpscRing option) \<noteq> None" by (simp add: new_ring_def)
  then obtain r where r: "(new_ring 4096 :: OwnedFrame SpscRing option) = Some r" by blast
  have rd: "read_all (open_reader []) = ([], None)" using read_log [of "[]"] by (simp del: read_all.simps)
  have t: "fst (quic_start (env_sockets sample_environment) default_transport_endpoint True new_quic_transport) = Some True"
    by (simp add: quic_start_def udp_start_def sample_endpoint sample_environment_def new_quic_transport_def new_udp_transport_def Let_def)
  show ?thesis
    using t
    by (auto simp: boot_def new_ingress_def configure_def r sample_config_def empty_config_def ingress_config_def default_engine_ingress_def
        sample_environment_def ensure_open_def open_writer_def rd file_at_def parent_path_def default_persistence_def Let_def simp del: read_all.simps split: prod.splits)
qed

section \<open>Every accepted frame is handled and logged once\<close>

text \<open>
  End to end: on a daemon that started with any accepted configuration on the log and the snapshots of
  earlier runs, if any, for any datagrams and event-loop iterations in any interleaving (and any order in which the
  language may evaluate the three lanes) and full writes, no operation ends the daemon. After a final
  iteration there is a list of handled frames that for each kind has exactly the accepted frames of that
  kind in the order of their arrival; the block number is its length; and after the shutdown the log
  reads back as the records it held before and then exactly these frames, numbered without a gap from 1,
  without an error.
\<close>

lemma daemon_handles_every_frame:
  assumes "load_config args env = Inr cfg" and "boot env cfg = Inr d" and "prior_files env cfg qs ps"
    and "list_all daemon_op_ok ops" and "evaluation_order ks"
  shows "\<exists>acc d' fs. run_daemon full_io (ops @ [Iteration now ks]) d = Some (acc, None, d')
     \<and> (\<forall>k. filter (is_kind k) fs = filter (is_kind k) acc)
     \<and> dm_block_number d' = of_nat (length fs)
     \<and> read_all (open_reader (ww_file (dm_wal (snd (shutdown full_io fsync_ok d'))))) = (numbered 1 (qs @ map log_entry fs), None)"
proof -
  obtain ver where d: "daemon_ok (fresh_spec (ingress_config cfg) ver) qs ps d" "dm_block_number d = 0"
    using boot_ok [OF assms(1-3)] by blast
  obtain acc1 d1 fs1 s1 ps1 where r1: "run_daemon full_io ops d = Some (acc1, None, d1)" "daemon_ok s1 (qs @ map log_entry fs1) ps1 d1"
      "dm_block_number d1 = of_nat (length fs1)" "\<forall>k. filter (is_kind k) acc1 = filter (is_kind k) fs1 @ is_lane s1 k"
    using run_daemon_ok [OF d(1) assms(4)] d(2) by (auto simp: run_effect_def fresh_spec_def)
  let ?gs = "concat (map (is_lane s1) ks)"
  obtain d2 ps2 where r2: "event_loop_iteration full_io now ks d1 = Some (None, d2)"
      "daemon_ok (fold emptied ks s1) (qs @ map log_entry (fs1 @ ?gs)) ps2 d2" "dm_block_number d2 = of_nat (length (fs1 @ ?gs))"
    using event_loop_iteration_ok [OF r1(2) assms(5), of now] r1(3) by auto
  have "run_daemon full_io (ops @ [Iteration now ks]) d = Some (acc1, None, d2)"
    using run_daemon_append [OF r1(1), of "[Iteration now ks]"] r2(1) by simp
  moreover have "filter (is_kind k) (fs1 @ ?gs) = filter (is_kind k) acc1" for k
  proof -
    have "lanes_ok s1" using r1(2) by (simp add: daemon_ok_def)
    moreover from this have "k = kHeartbeat \<Longrightarrow> is_lane s1 k = []" by (simp add: lanes_ok_def)
    ultimately show ?thesis
      using r1(4) lanes_by_kind [of s1 ks k] evaluation_order_facts [OF assms(5)] by (cases k) auto
  qed
  moreover have "read_all (open_reader (ww_file (dm_wal (snd (shutdown full_io fsync_ok d2))))) = (numbered 1 (qs @ map log_entry (fs1 @ ?gs)), None)"
    using r2(2) by (intro shutdown_log) (simp_all add: daemon_ok_def)
  ultimately show ?thesis using r2(3) by blast
qed

end
