(* ===== verification/Daemon_Start.thy ===== *)
theory Daemon_Start
  imports Daemon_Runs
begin

text \<open>
  When the daemon starts: \<open>boot\<close> against the conditions that the configuration and the machine have to meet.
  They are more than the configuration loader checks.
\<close>

section \<open>Queues and endpoints\<close>

lemma new_ring_power: "(\<exists>r. new_ring c = Some r) \<longleftrightarrow> (\<exists>k. unat c = 2 ^ k)"
proof
  assume "\<exists>r. new_ring c = Some r"
  then have "c \<noteq> 0" "c AND (c - 1) = 0" by (auto simp: new_ring_def split: if_splits)
  then show "\<exists>k. unat c = 2 ^ k" using capacity_power by metis
next
  assume "\<exists>k. unat c = 2 ^ k"
  then obtain k where k: "unat c = 2 ^ k" by blast
  then have c: "c = 2 ^ k" by (metis of_nat_numeral of_nat_power of_nat_unat ucast_id)
  have "c \<noteq> 0" using k by auto
  moreover have "c AND (c - 1) = take_bit k (2 ^ k)" by (simp add: c take_bit_eq_mask mask_eq_exp_minus_1)
  moreover have "take_bit k (2 ^ k) = (0 :: u64)" by (rule bit_eqI) (auto simp: bit_simps)
  ultimately have "c \<noteq> 0" "c AND (c - 1) = 0" by simp_all
  then show "\<exists>r. new_ring c = Some r" by (simp add: new_ring_def)
qed

lemma configure_power:
  "fst (configure config ver p) \<longleftrightarrow> (\<exists>i. unat (new_order_queue_depth config) = 2 ^ i) \<and> (\<exists>i. unat (cancel_queue_depth config) = 2 ^ i)
     \<and> (\<exists>i. unat (replace_queue_depth config) = 2 ^ i)"
  by (auto simp: configure_def Let_def simp flip: new_ring_power [where ?'a = OwnedFrame] split: option.splits)

lemma strip_scheme_iff: "strip_scheme uri = Some rest \<longleftrightarrow> uri = ''quic://'' @ rest \<or> uri = ''udp://'' @ rest"
proof
  assume s: "strip_scheme uri = Some rest"
  have "uri = take 7 uri @ drop 7 uri" "uri = take 6 uri @ drop 6 uri" by simp_all
  with s show "uri = ''quic://'' @ rest \<or> uri = ''udp://'' @ rest" by (auto simp: strip_scheme_def simp del: append_take_drop_id split: if_splits)
qed (auto simp: strip_scheme_def)

lemma takeWhile_colon: "takeWhile (\<lambda>c. c \<noteq> x) s = host \<and> dropWhile (\<lambda>c. c \<noteq> x) s = y # t \<longleftrightarrow> s = host @ x # t \<and> y = x \<and> x \<notin> set host"
proof (induction s arbitrary: host)
  case (Cons c s)
  then show ?case by (cases host) auto
qed auto

text \<open>An endpoint is accepted when it has the form \<open>quic://host:digits\<close> or \<open>udp://host:digits\<close> and the number fits an \<open>int\<close>.\<close>

lemma parse_endpoint_iff:
  "parse_endpoint uri = Endpoint host port \<longleftrightarrow>
     (\<exists>digits. (uri = ''quic://'' @ host @ CHR '':'' # digits \<or> uri = ''udp://'' @ host @ CHR '':'' # digits)
        \<and> host \<noteq> [] \<and> CHR '':'' \<notin> set host \<and> digits \<noteq> [] \<and> list_all is_digit digits
        \<and> decimal digits \<le> 2147483647 \<and> port = of_nat (decimal digits))" (is "_ \<longleftrightarrow> ?form")
proof
  let ?host = "takeWhile (\<lambda>c. c \<noteq> CHR '':'')" and ?tail = "dropWhile (\<lambda>c. c \<noteq> CHR '':'')"
  {
    assume "parse_endpoint uri = Endpoint host port"
    then obtain rest where rest: "strip_scheme uri = Some rest" "?host rest \<noteq> []" "?tail rest \<noteq> []" "tl (?tail rest) \<noteq> []"
        "list_all is_digit (tl (?tail rest))" "stoi_port (?host rest) (tl (?tail rest)) = Endpoint host port"
      by (auto simp: parse_endpoint_def Let_def split: option.splits if_splits)
    then have host: "?host rest = host" "decimal (tl (?tail rest)) \<le> 2147483647" "port = of_nat (decimal (tl (?tail rest)))"
      by (auto simp: stoi_port_def split: if_splits)
    obtain y where "?tail rest = y # tl (?tail rest)" using rest(3) by (cases "?tail rest") auto
    with host(1) have "rest = host @ CHR '':'' # tl (?tail rest)" "CHR '':'' \<notin> set host"
      using takeWhile_colon [of "CHR '':''" rest host y "tl (?tail rest)"] by blast+
    with rest host show ?form unfolding strip_scheme_iff by (intro exI [of _ "tl (?tail rest)"]) auto
  next
    assume ?form
    then obtain digits where d: "strip_scheme uri = Some (host @ CHR '':'' # digits)" "host \<noteq> []" "CHR '':'' \<notin> set host" "digits \<noteq> []"
        "list_all is_digit digits" "decimal digits \<le> 2147483647" "port = of_nat (decimal digits)"
      unfolding strip_scheme_iff by blast
    have "?host (host @ CHR '':'' # digits) = host" "?tail (host @ CHR '':'' # digits) = CHR '':'' # digits"
      using takeWhile_colon [of "CHR '':''" "host @ CHR '':'' # digits" host "CHR '':''" digits] d(3) by simp_all
    with d show "parse_endpoint uri = Endpoint host port" by (simp add: parse_endpoint_def stoi_port_def Let_def)
  }
qed

lemma quic_start_iff:
  "fst (quic_start os uri cb new_quic_transport) = Some True \<longleftrightarrow>
     (\<exists>host port. parse_endpoint uri = Endpoint host port \<and> os_socket os
        \<and> (host = ''0.0.0.0'' \<or> host = [] \<or> os_inet_pton os host) \<and> os_bind os host port)"
  by (auto simp: quic_start_def udp_start_def new_quic_transport_def new_udp_transport_def Let_def split: EndpointInfo.splits)

lemma open_writer_returns: "(\<exists>w. open_writer file n = Inr w) \<longleftrightarrow> snd (read_all (open_reader file)) = None"
  by (auto simp: open_writer_def simp del: read_all.simps split: prod.splits option.splits)

section \<open>The start-up\<close>

lemma boot_conditions:
  "(\<exists>d. boot env cfg = Inr d) \<longleftrightarrow> env_sodium env \<and> (\<forall>ver p. fst (configure (ingress_config cfg) ver p))
     \<and> fst (quic_start (env_sockets env) (transport_endpoint cfg) True new_quic_transport) = Some True
     \<and> env_create_directories env (snapshot_dir (cfg_persistence cfg)) \<and> env_create_directories env (parent_path (wal_path (cfg_persistence cfg)))
     \<and> (\<exists>w. ensure_open (env_log env) (wal_path (cfg_persistence cfg)) (file_at (env_files env) (wal_path (cfg_persistence cfg)))
             (unat (wal_flush_threshold (cfg_persistence cfg))) = Inr w)
     \<and> env_chain_id env \<noteq> Some None"
proof (cases "env_sodium env")
  case True
  obtain p0 where p0: "new_ingress = Some p0" by (auto simp: new_ingress_def new_ring_def)
  let ?ver = "Some (auth_verifier (env_crypto_verify env) (env_padding env) (register_account 1 (fst (env_keypair env)) []))"
  obtain ok p1 where p1: "configure (ingress_config cfg) ?ver p0 = (ok, p1)" by (metis surj_pair)
  have ok: "(\<forall>ver p. fst (configure (ingress_config cfg) ver p)) \<longleftrightarrow> ok" using p1 configure_power by (metis fst_conv)
  obtain st t where st: "quic_start (env_sockets env) (transport_endpoint cfg) True new_quic_transport = (st, t)" by (metis surj_pair)
  obtain eng rk fd where e: "fold setup_market (cfg_markets cfg) (Map.empty, new_risk_engine, Map.empty) = (eng, rk, fd)" by (metis prod_cases3)
  show ?thesis
    unfolding boot_def ok st
    by (simp add: True case_prod_unfold p0 Let_def p1 st e split: sum.split) auto
qed (simp add: boot_def)


end
