(* ===== verification/Daemon_Balance.thy ===== *)
theory Daemon_Balance
  imports Daemon_Runs
begin

text \<open>
  The positions balance: every fill that the daemon books changes a buyer and a seller by the same
  quantity, so that in each market the positions of all accounts sum to zero in 64-bit arithmetic. The
  proof connects three components: the books (whose orders can be makers), the contexts of resting orders
  that the daemon keeps beside them, and the positions of the risk engine.
\<close>

section \<open>The requests in a book\<close>

definition live :: "BookState \<Rightarrow> OrderRequest set" where
  "live bs = rec_request ` set (all_orders bs)"

text \<open>A maker of one of the fills is a request of the book.\<close>

definition makers_from :: "OrderRequest set \<Rightarrow> FillEvent list \<Rightarrow> bool" where
  "makers_from rs fs \<longleftrightarrow> (\<forall>f \<in> set fs. \<exists>r \<in> rs. fe_maker_order f = rq_id r)"

lemma makers_from_simps [simp]:
  "makers_from rs []" "makers_from rs (f # fs) \<longleftrightarrow> (\<exists>r \<in> rs. fe_maker_order f = rq_id r) \<and> makers_from rs fs"
  "makers_from rs (fs @ gs) \<longleftrightarrow> makers_from rs fs \<and> makers_from rs gs"
  by (auto simp: makers_from_def)

lemma makers_from_mono: "makers_from rs fs \<Longrightarrow> rs \<subseteq> rs' \<Longrightarrow> makers_from rs' fs"
  by (auto simp: makers_from_def)

lemma fill_queue_requests:
  "fill_queue tid p q os = (os', q', fs) \<Longrightarrow>
     rec_request ` set os' \<subseteq> rec_request ` set os \<and> makers_from (rec_request ` set os) fs"
proof (induction os arbitrary: q os' q' fs)
  case (Cons m ms)
  then show ?case
    by (cases "fill_queue tid p (q - remaining m) ms") (fastforce split: if_splits elim: makers_from_mono)
qed simp

lemma sweep_requests:
  "sweep side limit tid q b = (b', q', fs) \<Longrightarrow>
     rec_request ` set (orders_of b') \<subseteq> rec_request ` set (orders_of b) \<and> makers_from (rec_request ` set (orders_of b)) fs"
proof (induction b arbitrary: q b' q' fs)
  case (Cons x b)
  obtain p os where x: "x = (p, os)" by (cases x)
  from Cons.prems [unfolded x] show ?case
  proof (cases rule: sweep_Cons_cases)
    case (trade os1 q1 fs1 b2 fs2)
    then show ?thesis
      using Cons.IH [OF trade(4)] fill_queue_requests [OF trade(3)]
      by (auto simp: x image_Un elim: makers_from_mono)
  qed (simp add: x)
qed simp

definition opposing :: "OrderRequest \<Rightarrow> OrderRequest \<Rightarrow> bool" where
  "opposing order r \<longleftrightarrow> (rq_side r = kBuy \<longleftrightarrow> rq_side order \<noteq> kBuy)"

lemma wf_book_sides:
  assumes "wf_book bs"
  shows "ord \<in> set (orders_of (bs_bids bs)) \<Longrightarrow> rq_side (rec_request ord) = kBuy"
    "ord \<in> set (orders_of (bs_asks bs)) \<Longrightarrow> rq_side (rec_request ord) \<noteq> kBuy"
  using assms book_ok_orderD [of "(>)" Bids "bs_bids bs" ord] book_ok_orderD [of "(<)" Asks "bs_asks bs" ord]
  by (auto simp: wf_book_def order_ok_def book_side_def split: if_splits)

lemma spec_match_requests:
  assumes "spec_match order bs = (bs', q', fs)" and "wf_book bs"
  shows "live bs' \<subseteq> live bs" "makers_from {r \<in> live bs. opposing order r} fs"
proof -
  note sides = wf_book_sides [OF assms(2)]
  have "live bs' \<subseteq> live bs \<and> makers_from {r \<in> live bs. opposing order r} fs"
    using assms(1)
  proof (cases rule: spec_matchE)
    case (buy b')
    have "rec_request ` set (orders_of (bs_asks bs)) \<subseteq> {r \<in> live bs. opposing order r}"
      using sides buy(1) by (auto simp: live_def all_orders_def opposing_def)
    then show ?thesis
      using sweep_requests [OF buy(3)] buy(2) by (auto simp: live_def all_orders_def image_Un intro: makers_from_mono)
  next
    case (sell b')
    have "rec_request ` set (orders_of (bs_bids bs)) \<subseteq> {r \<in> live bs. opposing order r}"
      using sides sell(1) by (auto simp: live_def all_orders_def opposing_def)
    then show ?thesis
      using sweep_requests [OF sell(3)] sell(2) by (auto simp: live_def all_orders_def image_Un intro: makers_from_mono)
  qed
  then show "live bs' \<subseteq> live bs" "makers_from {r \<in> live bs. opposing order r} fs" by simp_all
qed

text \<open>
  Placing an order adds its request to the book only if it is reported as resting, and the makers of its
  fills are requests of the other side.
\<close>

lemma book_place_requests:
  assumes "book_place order bs = (res, bs')" and "wf_book bs"
  shows "live bs' \<subseteq> live bs \<union> (if resting res then {order} else {})"
    "makers_from {r \<in> live bs. opposing order r} (fills res)"
proof -
  have "live bs' \<subseteq> live bs \<union> (if resting res then {order} else {}) \<and> makers_from {r \<in> live bs. opposing order r} (fills res)"
    using assms(1) [unfolded book_place_def]
  proof (cases rule: spec_placeE)
    case (matched bs2 q fs)
    have wf: "wf_book (bs\<lparr>bs_next := bs_next bs + 1\<rparr>)" "live (bs\<lparr>bs_next := bs_next bs + 1\<rparr>) = live bs"
      using assms(2) by (simp_all add: live_def)
    note m = spec_match_requests [OF matched(3) wf(1), unfolded wf(2)]
    have "live (spec_rest (resting_record order (bs_next bs) q) bs2) = insert order (live bs2)"
      using volume_rest(2) [OF spec_match_wf [OF matched(3) wf(1)]] by (simp add: live_def)
    then show ?thesis
      using matched(4-7) m by (cases "q > 0"; cases "rq_tif order = kIoc \<or> rq_tif order = kFok"; cases "order_key (rq_id order) \<in> keys (all_orders bs2)")
        (auto simp: empty_order_result_def)
  qed (simp_all add: empty_order_result_def)
  then show "live bs' \<subseteq> live bs \<union> (if resting res then {order} else {})"
    "makers_from {r \<in> live bs. opposing order r} (fills res)" by simp_all
qed

section \<open>The sum of the positions\<close>

definition total_position :: "MarketId \<Rightarrow> RiskEngine \<Rightarrow> int" where
  "total_position m eng = (\<Sum>a \<in> set (get_all_accounts eng). existing_quantity a m eng)"

lemma total_position_UNIV: "total_position m eng = (\<Sum>a \<in> UNIV. existing_quantity a m eng)"
  unfolding total_position_def
proof (rule sum.mono_neutral_left)
  show "\<forall>a \<in> UNIV - set (get_all_accounts eng). existing_quantity a m eng = 0"
    by (auto simp: existing_quantity_def find_account_def get_all_accounts_def simp flip: umap_find_None)
qed simp_all

definition signed_fill :: "FillContext \<Rightarrow> int" where
  "signed_fill f = (if fc_side f = kBuy then fc_quantity f else - fc_quantity f)"

lemma total_position_fill:
  "i64 (total_position m (apply_fill f eng)) = i64 (total_position m eng + (if fc_market f = m then signed_fill f else 0))"
proof -
  let ?a = "fc_account f"
  have split: "total_position m e = existing_quantity ?a m e + (\<Sum>a \<in> UNIV - {?a}. existing_quantity a m e)" for e
    unfolding total_position_UNIV by (rule sum.remove) simp_all
  have "(\<Sum>a \<in> UNIV - {?a}. existing_quantity a m (apply_fill f eng)) = (\<Sum>a \<in> UNIV - {?a}. existing_quantity a m eng)"
    by (rule sum.cong) (auto simp: existing_quantity_fill)
  then show ?thesis
    by (auto simp: split existing_quantity_fill signed_fill_def i64_simps algebra_simps)
qed

definition balanced :: "RiskEngine \<Rightarrow> bool" where
  "balanced eng \<longleftrightarrow> (\<forall>m. i64 (total_position m eng) = 0)"

lemma balanced_pair:
  assumes "balanced eng" and "fc_market g = fc_market f" and "signed_fill g = - signed_fill f"
  shows "balanced (apply_fill g (apply_fill f eng))"
  unfolding balanced_def
proof
  fix m
  let ?x = "\<lambda>h. if fc_market h = m then signed_fill h else 0"
  have "i64 (total_position m (apply_fill g (apply_fill f eng))) = i64 (total_position m (apply_fill f eng) + ?x g)"
    by (rule total_position_fill)
  also have "\<dots> = i64 (i64 (total_position m (apply_fill f eng)) + ?x g)" by (rule i64_add_left [symmetric])
  also have "\<dots> = i64 (i64 (total_position m eng) + (?x f + ?x g))" by (simp only: total_position_fill i64_add_left add.assoc)
  also have "\<dots> = 0" using assms by (simp add: balanced_def)
  finally show "i64 (total_position m (apply_fill g (apply_fill f eng))) = 0" .
qed

text \<open>Booking fills whose makers have contexts of the taker's market and the other side.\<close>

definition counterparty :: "RestingOrderContext \<Rightarrow> RestingOrderContext \<Rightarrow> bool" where
  "counterparty taker c \<longleftrightarrow> ro_market c = ro_market taker \<and> (ro_side c = kBuy \<longleftrightarrow> ro_side taker \<noteq> kBuy)"

lemma process_fills_balanced:
  assumes "balanced (dm_risk d)"
    and "\<forall>f \<in> set fs. \<exists>c. resting_orders d (order_key (fe_maker_order f)) = Some c \<and> counterparty taker c"
  shows "balanced (dm_risk (process_fills fs taker off ts d))"
  using assms unfolding process_fills_def
proof (induction fs arbitrary: d)
  case (Cons f fs)
  obtain c where c: "resting_orders d (order_key (fe_maker_order f)) = Some c" "counterparty taker c" using Cons.prems(2) by auto
  let ?d = "process_fill taker off ts f d"
  have "balanced (dm_risk ?d)"
    using c Cons.prems(1) by (auto simp: process_fill_def Let_def context_fill_def counterparty_def signed_fill_def intro!: balanced_pair)
  moreover have "resting_orders ?d = resting_orders d" by (simp add: process_fill_def Let_def)
  ultimately show ?case using Cons by simp
qed simp

section \<open>Contexts of resting orders\<close>

text \<open>
  Every order that rests in the book of a market has a context with this market and the order's side.
\<close>

definition has_context :: "(u64 \<rightharpoonup> RestingOrderContext) \<Rightarrow> MarketId \<Rightarrow> OrderRequest \<Rightarrow> bool" where
  "has_context ro m r \<longleftrightarrow> oid_market (rq_id r) = m
     \<and> (\<exists>c. ro (order_key (rq_id r)) = Some c \<and> ro_market c = m \<and> (ro_side c = kBuy \<longleftrightarrow> rq_side r = kBuy))"

definition contexts_ok :: "BookEngine \<Rightarrow> (u64 \<rightharpoonup> RestingOrderContext) \<Rightarrow> bool" where
  "contexts_ok be ro \<longleftrightarrow> (\<forall>m. \<forall>r \<in> live (book_at m be). has_context ro m r)"

lemma contexts_okD: "contexts_ok be ro \<Longrightarrow> r \<in> live (book_at m be) \<Longrightarrow> has_context ro m r"
  by (simp add: contexts_ok_def)

lemma book_at_upd [simp]: "book_at m' (be(m \<mapsto> bs)) = (if m' = m then bs else book_at m' be)"
  by (simp add: book_at_def)

lemma book_at_wf: "engine_rep eng be \<Longrightarrow> wf_book (book_at m be)"
  by (cases rule: engine_rep_cases [of eng be m])
    (auto simp: book_at_def intro: shard_rep_wf shard_rep_wf [OF new_book_rep])

lemma contexts_shrink:
  assumes "contexts_ok be ro" and "live bs \<subseteq> live (book_at m be)"
  shows "contexts_ok (be(m \<mapsto> bs)) ro"
  using assms by (auto simp: contexts_ok_def)

lemma live_remove: "live (spec_remove k bs) = {r \<in> live bs. order_key (rq_id r) \<noteq> k}"
  by (auto simp: live_def all_orders_remove okey_def)

text \<open>Dropping or setting the context of an identifier that no order in the books has.\<close>

lemma contexts_upd:
  assumes "contexts_ok be ro" and "\<forall>r \<in> live (book_at (oid_market i) be). rq_id r \<noteq> i"
  shows "contexts_ok be (ro(order_key i := c))"
  unfolding contexts_ok_def
proof (intro allI ballI)
  fix m r assume r: "r \<in> live (book_at m be)"
  then have "has_context ro m r" using assms(1) by (rule contexts_okD [rotated])
  moreover from this have "rq_id r \<noteq> i" using r assms(2) by (auto simp: has_context_def)
  ultimately show "has_context (ro(order_key i := c)) m r" by (simp add: has_context_def)
qed

lemma book_place_resting: "book_place order bs = (res, bs') \<Longrightarrow> resting res \<Longrightarrow> accepted res"
  by (auto simp: book_place_def spec_place_def empty_order_result_def Let_def split: if_splits prod.splits)

text \<open>
  Placing an order into a book without its identifier, for a taker of its market and side: afterwards the
  contexts are right with the entry of the order set as the handlers set it, and the makers of the fills
  have contexts of the other side before.
\<close>

lemma place_contexts:
  assumes "contexts_ok be ro" and "book_place order bs = (res, bs')" and "wf_book bs"
    and m: "m = oid_market (rq_id order)" and bs: "live bs \<subseteq> live (book_at m be)" "\<forall>r \<in> live bs. rq_id r \<noteq> rq_id order"
    and taker: "ro_market taker = m" "ro_side taker = kBuy \<longleftrightarrow> rq_side order = kBuy"
  shows "accepted res \<Longrightarrow> contexts_ok (be(m \<mapsto> bs')) (ro(order_key (rq_id order) := if resting res then Some taker else None))"
    "\<not> accepted res \<Longrightarrow> contexts_ok (be(m \<mapsto> bs')) ro"
    "\<forall>f \<in> set (fills res). \<exists>c. ro (order_key (fe_maker_order f)) = Some c \<and> counterparty taker c"
proof -
  note req = book_place_requests [OF assms(2,3)]
  show "contexts_ok (be(m \<mapsto> bs')) ro" if "\<not> accepted res"
    using book_place_resting [OF assms(2)] that req(1) bs(1) by (intro contexts_shrink assms(1)) (auto split: if_splits)
  have "contexts_ok (be(m \<mapsto> bs)) ro" using assms(1) bs(1) by (rule contexts_shrink)
  then have ctx: "contexts_ok (be(m \<mapsto> bs)) (ro(order_key (rq_id order) := if resting res then Some taker else None))" (is "contexts_ok _ ?ro")
    by (rule contexts_upd) (use bs(2) m in simp)
  show "contexts_ok (be(m \<mapsto> bs')) ?ro"
    unfolding contexts_ok_def
  proof (intro allI ballI)
    fix m' r assume r: "r \<in> live (book_at m' (be(m \<mapsto> bs')))"
    then consider "r \<in> live (book_at m' (be(m \<mapsto> bs)))" | "m' = m" "r = order" "resting res"
      using req(1) by (auto split: if_splits)
    then show "has_context ?ro m' r"
    proof cases
      case 1
      then show ?thesis by (rule contexts_okD [OF ctx])
    next
      case 2
      then show ?thesis using m taker by (simp add: has_context_def)
    qed
  qed
  have "\<exists>c. ro (order_key (rq_id r)) = Some c \<and> counterparty taker c" if "r \<in> live bs" "opposing order r" for r
    using contexts_okD [OF assms(1), of r m] that bs(1) taker by (auto simp: has_context_def opposing_def counterparty_def)
  then show "\<forall>f \<in> set (fills res). \<exists>c. ro (order_key (fe_maker_order f)) = Some c \<and> counterparty taker c"
    using req(2) by (fastforce simp: makers_from_def)
qed

section \<open>The handlers keep the books and the positions together\<close>

definition booked :: "u64 set \<Rightarrow> Daemon \<Rightarrow> bool" where
  "booked used d \<longleftrightarrow> (\<exists>be. engine_rep (dm_matcher d) be \<and> contexts_ok be (resting_orders d))
     \<and> dom (resting_orders d) \<subseteq> used \<and> balanced (dm_risk d)"

lemma booked_mono: "booked used d \<Longrightarrow> used \<subseteq> used' \<Longrightarrow> booked used' d"
  by (auto simp: booked_def)

lemma booked_same: "same_trading d d' \<Longrightarrow> booked used d' = booked used d"
  by (simp add: booked_def same_trading_def)

lemma booked_matcher:
  assumes "booked used d" and "engine_rep eng be" and "contexts_ok be (resting_orders d)"
  shows "booked used (d\<lparr>dm_matcher := eng\<rparr>)"
  using assms by (auto simp: booked_def)

text \<open>The end of the two handlers that can trade: the fills are booked and the context of the order is set.\<close>

lemma booked_fills:
  assumes "booked used d" and "engine_rep eng be" and "contexts_ok be ((resting_orders d)(k := c))"
    and "\<forall>f \<in> set fs. \<exists>c. resting_orders d (order_key (fe_maker_order f)) = Some c \<and> counterparty taker c" and "k \<in> used"
    and d3: "d3 = process_fills fs taker off ts (d\<lparr>dm_matcher := eng\<rparr>)"
  shows "booked used (d3\<lparr>resting_orders := (resting_orders d3)(k := c)\<rparr>)"
proof -
  have "balanced (dm_risk d3)" unfolding d3 using assms(1,4) by (intro process_fills_balanced) (auto simp: booked_def)
  then show ?thesis
    using assms(1-3,5) by (auto simp: booked_def d3 process_fills_shell(2,3) split: if_splits)
qed

lemma book_submitE:
  obtains (refused) res where "book_submit r be = (res, be)" "\<not> accepted res"
  | (placed) res bs where "book_place r (book_at (oid_market (rq_id r)) be) = (res, bs)"
      "book_submit r be = (res, be(oid_market (rq_id r) \<mapsto> bs))"
proof -
  obtain res bs where p: "book_place r (book_at (oid_market (rq_id r)) be) = (res, bs)" by (metis surj_pair)
  show thesis
  proof (cases "rq_quantity r \<le> 0 \<or> HasFlag (rq_flags r) kIceberg \<and> (rq_display_quantity r \<le> 0 \<or> rq_display_quantity r > rq_quantity r)")
    case True
    then show ?thesis by (intro refused [of "fst (book_submit r be)"]) (auto simp: book_submit_def empty_order_result_def)
  next
    case False
    then show ?thesis using p by (intro placed [of res bs]) (auto simp: book_submit_def Let_def)
  qed
qed

lemma handle_new_order_booked:
  assumes "booked used d" and "logs qs d" and "order_key (new_order_id (dm_default_market d) (fr_header f)) \<notin> used"
    and "handle_new_order full_io f d = Some (None, d')"
  shows "booked (insert (order_key (new_order_id (dm_default_market d) (fr_header f))) used) d'"
proof -
  let ?m = "dm_default_market d" let ?i = "new_order_id ?m (fr_header f)" let ?used = "insert (order_key ?i) used"
  obtain d1 where d1: "log_frame full_io f d = (ww_next_sequence (dm_wal d), None, d1)" "same_trading d d1"
    using log_frame_full [OF assms(2)] by blast
  have b1: "booked ?used d1" using assms(1) booked_same [OF d1(2)] by (auto intro: booked_mono)
  obtain be where be: "engine_rep (dm_matcher d1) be" "contexts_ok be (resting_orders d1)" using b1 by (auto simp: booked_def)
  show ?thesis
  proof (cases "decode_new_order (fr_payload f)")
    case (Inl e)
    then show ?thesis using assms(4) d1(1) b1 by (simp add: handle_new_order_def)
  next
    case (Inr order)
    let ?r = "new_order_request ?m (fr_header f) order"
    have r: "rq_id ?r = ?i" "oid_market ?i = ?m" "rq_side ?r = no_side order" "in64 (rq_quantity ?r)"
      using decode_new_order_in64 [OF Inr] by (simp_all add: new_order_request_def new_order_id_def)
    obtain eng where eng: "submit ?r (dm_matcher d1) = Some (fst (book_submit ?r be), eng)" "engine_rep eng (snd (book_submit ?r be))"
      using submit_refines [OF be(1) r(4)] by blast
    have free: "\<forall>q \<in> live (book_at ?m be). rq_id q \<noteq> ?i"
      using assms(1,3) d1(2) contexts_okD [OF be(2)] by (fastforce simp: booked_def same_trading_def has_context_def)
    show ?thesis
    proof (cases rule: book_submitE [of ?r be])
      case (refused res)
      then show ?thesis
        using assms(4) d1(1) b1 Inr eng booked_matcher [OF b1 _ be(2), of eng] by (auto simp: handle_new_order_def Let_def split: if_splits)
    next
      case (placed res bs)
      let ?taker = "\<lparr>ro_account = fh_account (fr_header f), ro_market = ?m, ro_side = no_side order\<rparr>"
      note pl = place_contexts [OF be(2) placed(1) book_at_wf [OF be(1)] refl order_refl, unfolded r, OF free, of ?taker, simplified]
      show ?thesis
        using assms(4) d1(1) b1 Inr eng placed(2) [unfolded r] booked_matcher [OF b1 _ pl(2), of eng]
          booked_fills [OF b1 _ pl(1) pl(3) insertI1 refl, of eng] by (auto simp: handle_new_order_def Let_def split: if_splits)
    qed
  qed
qed

lemma book_cancelE:
  obtains (refused) res where "book_cancel request be = (res, be)" "\<not> cancelled res"
  | (removed) res bs where "be (oid_market (cr_id request)) = Some bs" "cancelled res"
      "book_cancel request be = (res, be(oid_market (cr_id request) \<mapsto> spec_remove (order_key (cr_id request)) bs))"
proof (cases "be (oid_market (cr_id request))")
  case None
  then show thesis by (intro refused) (auto simp: book_cancel_def)
next
  case (Some bs)
  show thesis
  proof (cases "order_key (cr_id request) \<in> keys (all_orders bs)")
    case True
    with Some show ?thesis by (intro removed [of bs "\<lparr>cancelled = True, cancel_reject_code = 0\<rparr>"]) (simp_all add: book_cancel_def)
  next
    case False
    with Some show ?thesis
      by (intro refused [of "\<lparr>cancelled = False, cancel_reject_code = kRejectOrderNotFound\<rparr>"]) (simp_all add: book_cancel_def)
  qed
qed

lemma handle_cancel_booked:
  assumes "booked used d" and "logs qs d" and "handle_cancel full_io f d = Some (None, d')"
  shows "booked used d'"
proof -
  obtain d1 where d1: "log_frame full_io f d = (ww_next_sequence (dm_wal d), None, d1)" "same_trading d d1"
    using log_frame_full [OF assms(2)] by blast
  have b1: "booked used d1" using assms(1) booked_same [OF d1(2)] by simp
  obtain be where be: "engine_rep (dm_matcher d1) be" "contexts_ok be (resting_orders d1)" using b1 by (auto simp: booked_def)
  show ?thesis
  proof (cases "decode_cancel (fr_payload f)")
    case (Inl e)
    then show ?thesis using assms(3) d1(1) b1 by (simp add: handle_cancel_def)
  next
    case (Inr msg)
    let ?i = "decode_order_id (cm_order_id msg)"
    obtain eng where eng: "cancel \<lparr>cr_id = ?i\<rparr> (dm_matcher d1) = Some (fst (book_cancel \<lparr>cr_id = ?i\<rparr> be), eng)"
        "engine_rep eng (snd (book_cancel \<lparr>cr_id = ?i\<rparr> be))"
      using cancel_refines [OF be(1)] by blast
    show ?thesis
    proof (cases rule: book_cancelE [of "\<lparr>cr_id = ?i\<rparr>" be])
      case (refused res)
      then show ?thesis
        using assms(3) d1(1) Inr eng booked_matcher [OF b1 _ be(2), of eng] by (auto simp: handle_cancel_def Let_def)
    next
      case (removed res bs)
      note removed = removed [unfolded CancelRequest.select_convs]
      let ?be = "be(oid_market ?i \<mapsto> spec_remove (order_key ?i) bs)"
      have "contexts_ok ?be (resting_orders d1)"
        using removed(1) by (intro contexts_shrink be(2)) (auto simp: live_remove book_at_def)
      then have "contexts_ok ?be ((resting_orders d1)(order_key ?i := None))"
        by (rule contexts_upd) (auto simp: live_remove)
      then have "booked used (d1\<lparr>dm_matcher := eng, resting_orders := (resting_orders d1)(order_key ?i := None)\<rparr>)"
        using b1 eng(2) removed(3) by (auto simp: booked_def)
      then show ?thesis using assms(3) d1(1) Inr eng(1) removed(2,3) by (auto simp: handle_cancel_def Let_def)
    qed
  qed
qed

text \<open>A replace that finds its order finds the order's context too.\<close>

lemma book_replaceE:
  assumes "engine_rep eng be"
  obtains (refused) res where "book_replace request be = (res, be)" "\<not> rr_accepted res"
  | (placed) r res bs' where "r \<in> live (book_at (oid_market (rp_id request)) be)" "rq_id r = rp_id request"
      "book_place (replaced_request request r) (spec_remove (order_key (rp_id request)) (book_at (oid_market (rp_id request)) be)) = (res, bs')"
      "book_replace request be = (\<lparr>rr_accepted = accepted res, rr_resting = resting res, rr_reject_code = reject_code res,
         rr_fills = fills res\<rparr>, be(oid_market (rp_id request) \<mapsto> bs'))"
proof -
  let ?m = "oid_market (rp_id request)"
  show thesis
  proof (cases "be ?m")
    case None
    then show ?thesis by (intro refused) (auto simp: book_replace_def)
  next
    case (Some bs)
    show ?thesis
    proof (cases "find (\<lambda>ord. okey ord = order_key (rp_id request)) (all_orders bs)")
      case None
      then show ?thesis using Some by (intro refused) (auto simp: book_replace_def)
    next
      case (Some ord)
      have ord: "ord \<in> set (all_orders bs)" "okey ord = order_key (rp_id request)"
        using Some by (auto simp: find_Some_iff)
      obtain res bs' where "book_place (replaced_request request (rec_request ord)) (spec_remove (order_key (rp_id request)) bs) = (res, bs')"
        by (metis surj_pair)
      then show ?thesis
        using \<open>be ?m = Some bs\<close> Some ord by (intro placed [of "rec_request ord" res bs'])
          (auto simp: live_def okey_def book_at_def book_replace_def)
    qed
  qed
qed

lemma handle_replace_booked:
  assumes "booked used d" and "logs qs d" and "handle_replace full_io f d = Some (None, d')"
  shows "booked used d'"
proof -
  obtain d1 where d1: "log_frame full_io f d = (ww_next_sequence (dm_wal d), None, d1)" "same_trading d d1"
    using log_frame_full [OF assms(2)] by blast
  have b1: "booked used d1" using assms(1) booked_same [OF d1(2)] by simp
  obtain be where be: "engine_rep (dm_matcher d1) be" "contexts_ok be (resting_orders d1)" using b1 by (auto simp: booked_def)
  show ?thesis
  proof (cases "decode_replace (fr_payload f)")
    case (Inl e)
    then show ?thesis using assms(3) d1(1) b1 by (simp add: handle_replace_def)
  next
    case (Inr msg)
    let ?r = "replace_request msg" and ?i = "decode_order_id (rm_order_id msg)"
    have r: "rp_id ?r = ?i" "in64 (rp_new_quantity ?r)" using decode_replace_in64 [OF Inr] by (simp_all add: replace_request_def)
    obtain eng where eng: "replace ?r (dm_matcher d1) = Some (fst (book_replace ?r be), eng)" "engine_rep eng (snd (book_replace ?r be))"
      using replace_refines [OF be(1) r(2)] by blast
    from be(1) show ?thesis
    proof (cases rule: book_replaceE [where request = ?r])
      case (refused res)
      then show ?thesis
        using assms(3) d1(1) Inr eng booked_matcher [OF b1 _ be(2), of eng] by (auto simp: handle_replace_def Let_def)
    next
      case (placed q res bs')
      note placed = placed [unfolded r(1)]
      obtain c where c: "resting_orders d1 (order_key ?i) = Some c" "ro_market c = oid_market ?i" "ro_side c = kBuy \<longleftrightarrow> rq_side q = kBuy"
        using contexts_okD [OF be(2) placed(1)] placed(2) by (auto simp: has_context_def)
      have used: "order_key ?i \<in> used" using b1 c(1) by (auto simp: booked_def)
      have o: "rq_id (replaced_request ?r q) = ?i" "rq_side (replaced_request ?r q) = rq_side q"
        by (simp_all add: replaced_request_def r(1))
      have sub: "live (spec_remove (order_key ?i) (book_at (oid_market ?i) be)) \<subseteq> live (book_at (oid_market ?i) be)"
          "\<forall>r \<in> live (spec_remove (order_key ?i) (book_at (oid_market ?i) be)). rq_id r \<noteq> ?i"
        by (auto simp: live_remove)
      note pl = place_contexts [OF be(2) placed(3) spec_remove_wf [OF book_at_wf [OF be(1)]] refl, unfolded o, OF sub c(2,3)]
      show ?thesis
        using assms(3) d1(1) Inr eng placed(4) c(1) booked_matcher [OF b1 _ pl(2), of eng]
          booked_fills [OF b1 _ pl(1) pl(3) used refl, of eng] by (auto simp: handle_replace_def Let_def split: if_splits)
    qed
  qed
qed

section \<open>Runs\<close>

text \<open>The identifiers that the new-order frames of a list get.\<close>

definition new_ids :: "MarketId \<Rightarrow> OwnedFrame list \<Rightarrow> u64 list" where
  "new_ids m fs = map (\<lambda>f. order_key (new_order_id m (fr_header f))) (filter (is_kind kNewOrder) fs)"

definition trading_ok :: "MarketId \<Rightarrow> OwnedFrame list \<Rightarrow> Daemon \<Rightarrow> bool" where
  "trading_ok m fs d \<longleftrightarrow> dm_default_market d = m \<and> (distinct (new_ids m fs) \<longrightarrow> booked (set (new_ids m fs)) d)"

lemma handle_frame_booked:
  assumes "booked used d" and "logs qs d" and "handle_frame full_io f d = Some (None, d')"
    and "is_kind kNewOrder f \<Longrightarrow> order_key (new_order_id (dm_default_market d) (fr_header f)) \<notin> used"
  shows "booked (set (new_ids (dm_default_market d) [f]) \<union> used) d'"
proof (cases "fh_kind (fr_header f)")
  case kNewOrder
  then show ?thesis
    using handle_new_order_booked [OF assms(1,2)] assms(3,4) by (simp add: handle_frame_def new_ids_def is_kind_def)
next
  case kCancel
  then show ?thesis
    using handle_cancel_booked [OF assms(1,2)] assms(3) by (simp add: handle_frame_def new_ids_def is_kind_def)
next
  case kReplace
  then show ?thesis
    using handle_replace_booked [OF assms(1,2)] assms(3) by (simp add: handle_frame_def new_ids_def is_kind_def)
next
  case kHeartbeat
  then show ?thesis using assms(1,3) by (simp add: handle_frame_def new_ids_def is_kind_def)
qed

interpretation trading: frame_invariant "trading_ok m" for m
proof
  show "trading_ok m fs d'" if "trading_ok m fs d" "same_core d d'" for fs d d'
    using that booked_same [of d d'] by (auto simp: trading_ok_def same_core_def)
  fix fs d qs f d'
  assume a: "trading_ok m fs d" "engine_reachable (dm_matcher d)" "logs qs d" "fh_kind (fr_header f) \<noteq> kHeartbeat"
    "handle_frame full_io f d = Some (None, d')"
  have m: "dm_default_market d = m" "dm_default_market d' = m"
    using handle_frame_returns [OF a(2,3,4)] a(1,5) by (auto simp: trading_ok_def same_shell_def)
  have "booked (set (new_ids m (fs @ [f]))) d'" if "distinct (new_ids m (fs @ [f]))"
    using handle_frame_booked [OF _ a(3,5), of "set (new_ids m fs)"] a(1) that
    by (auto simp: trading_ok_def m(1) new_ids_def Un_commute)
  then show "trading_ok m (fs @ [f]) d'" by (simp add: trading_ok_def m(2))
qed

text \<open>A daemon that has just started has empty books and no positions.\<close>

lemma setup_markets_fresh:
  assumes "engine_rep eng be" and "contexts_ok be Map.empty"
  shows "\<exists>be'. engine_rep (fst (fold setup_market ms (eng, rk, fd))) be' \<and> contexts_ok be' Map.empty"
    "accounts (fst (snd (fold setup_market ms (eng, rk, fd)))) = accounts rk"
proof -
  have add: "engine_rep (add_market m eng) (if be m = None then be(m \<mapsto> new_book) else be)" if "engine_rep eng be" for m eng be
    using engine_sim [OF that, of "AddMarket m"] by (simp add: engine_step_def book_step_def)
  have new: "contexts_ok (be(m \<mapsto> new_book)) Map.empty" if "contexts_ok be Map.empty" for m be
    using that by (intro contexts_shrink) (simp_all add: live_def new_book_def all_orders_def)
  show "\<exists>be'. engine_rep (fst (fold setup_market ms (eng, rk, fd))) be' \<and> contexts_ok be' Map.empty"
    using assms
  proof (induction ms arbitrary: eng be rk fd)
    case (Cons mc ms)
    from Cons.IH [OF add [OF Cons.prems(1), of "ucast (mc_id mc)"]] Cons.prems(2) show ?case
      by (simp add: setup_market_def Let_def new)
  qed auto
  show "accounts (fst (snd (fold setup_market ms (eng, rk, fd)))) = accounts rk"
    by (induction ms arbitrary: eng rk fd)
      (simp_all add: setup_market_def Let_def set_mark_price_def ensure_risk_market_def configure_market_def split: option.splits)
qed

lemma boot_trading:
  assumes "boot env cfg = Inr d" and "prior_files env cfg qs ps"
  shows "trading_ok (dm_default_market d) [] d"
  using assms
proof (cases rule: boot_cases)
  case (1 ver)
  have "contexts_ok Map.empty Map.empty" by (simp add: contexts_ok_def book_at_def live_def new_book_def all_orders_def)
  note fresh = setup_markets_fresh [OF engine_rep_empty this, where ms = "cfg_markets cfg" and rk = new_risk_engine and fd = Map.empty]
  have "accounts (dm_risk d) = []" using fresh(2) 1(3) by (simp add: new_risk_engine_def)
  then have "balanced (dm_risk d)" by (simp add: balanced_def total_position_def get_all_accounts_def)
  then show ?thesis using fresh(1) 1(2,8) by (auto simp: trading_ok_def booked_def)
qed

text \<open>
  C11. The positions balance: on a daemon that started with any accepted configuration on the files of
  earlier runs, if any, with full writes to the log and no failing snapshot, after any datagrams and
  event-loop iterations in any interleaving, if the accepted
  new orders have different identifiers, then in every market the positions of all accounts sum to zero in
  64-bit arithmetic, whatever was traded, cancelled, replaced or rejected.
\<close>

theorem positions_balance:
  assumes "load_config args env = Inr cfg" and "boot env cfg = Inr d" and "prior_files env cfg qs ps" and "list_all daemon_op_ok ops"
  shows "\<exists>acc d'. run_daemon full_io ops d = Some (acc, None, d')
     \<and> (distinct (new_ids (dm_default_market d) acc) \<longrightarrow>
          (\<forall>m. i64 (\<Sum>a \<in> set (get_all_accounts (dm_risk d')). existing_quantity a m (dm_risk d')) = 0))"
proof -
  let ?m = "dm_default_market d"
  obtain ver where d: "daemon_ok (fresh_spec (ingress_config cfg) ver) qs ps d" using boot_ok [OF assms(1-3)] by blast
  then obtain acc d' fs s where run: "run_daemon full_io ops d = Some (acc, None, d')"
      "run_effect (fresh_spec (ingress_config cfg) ver) qs ps d acc fs s d'"
    using run_daemon_ok [OF _ assms(4)] by blast
  have "trading_ok ?m ([] @ fs) d'"
    using run(2) by (intro keepsD [OF _ trading.frame_invariant_axioms boot_trading [OF assms(2,3)]]) (simp add: run_effect_def)
  moreover have "filter (is_kind kNewOrder) acc = filter (is_kind kNewOrder) fs @ is_lane s kNewOrder"
    using run(2) by (simp add: run_effect_def fresh_spec_def)
  ultimately have "balanced (dm_risk d')" if "distinct (new_ids ?m acc)"
    using that by (auto simp: trading_ok_def booked_def new_ids_def)
  then show ?thesis using run(1) by (auto simp: balanced_def total_position_def)
qed

theorem positions_balance_witness:
  "\<exists>d acc d'. boot sample_environment sample_config = Inr d
     \<and> run_daemon full_io [Datagram 0 7 (wire_bytes 0 sample_order_frame), Iteration 9 [kNewOrder, kReplace, kCancel]] d
         = Some (acc, None, d')
     \<and> distinct (new_ids (dm_default_market d) acc)
     \<and> (\<forall>m. i64 (\<Sum>a \<in> set (get_all_accounts (dm_risk d')). existing_quantity a m (dm_risk d')) = 0)"
proof -
  let ?ops = "[Datagram 0 7 (wire_bytes 0 sample_order_frame), Iteration 9 [kNewOrder, kReplace, kCancel]]"
  obtain d where d: "boot sample_environment sample_config = Inr d" using sample_boot by blast
  then obtain acc d' where run: "run_daemon full_io ?ops d = Some (acc, None, d')"
      "distinct (new_ids (dm_default_market d) acc) \<longrightarrow>
        (\<forall>m. i64 (\<Sum>a \<in> set (get_all_accounts (dm_risk d')). existing_quantity a m (dm_risk d')) = 0)"
    using positions_balance [OF sample_load _ sample_prior, of d ?ops]
    by (auto simp: evaluation_order_def simp del: run_daemon.simps)
  then have "acc = accepted_frame 0 7 (wire_bytes 0 sample_order_frame) d" by (auto split: bind_splits if_splits)
  then have "length acc \<le> 1" by (auto simp: accepted_frame_def split: option.splits prod.splits bool.splits)
  then have "distinct (new_ids (dm_default_market d) acc)" by (cases acc) (auto simp: new_ids_def)
  with d run show ?thesis by blast
qed

end
