(* ===== verification/Daemon_Trading.thy ===== *)
theory Daemon_Trading
  imports Daemon_Runs
begin

text \<open>
  The trading machine of the daemon: what the handlers do to the books, the positions and the contexts of
  the resting orders, separated from the log, the feeds and the rings. It is a function of the frames
  alone, without time and priority, so the log is enough to rebuild the trading state.
\<close>

section \<open>The trading machine\<close>

type_synonym Trading = "MatchingEngine \<times> RiskEngine \<times> (u64 \<rightharpoonup> RestingOrderContext)"

definition trading_of :: "Daemon \<Rightarrow> Trading" where
  "trading_of d = (dm_matcher d, dm_risk d, resting_orders d)"

fun book_fills :: "RestingOrderContext \<Rightarrow> (u64 \<rightharpoonup> RestingOrderContext) \<Rightarrow> FillEvent list \<Rightarrow> RiskEngine \<Rightarrow> RiskEngine" where
  "book_fills taker ro [] r = r"
| "book_fills taker ro (f # fs) r = book_fills taker ro fs
     (case ro (order_key (fe_maker_order f)) of
        None \<Rightarrow> apply_fill (context_fill taker f) r
      | Some maker \<Rightarrow> apply_fill (context_fill maker f) (apply_fill (context_fill taker f) r))"

definition trade_order :: "MarketId \<Rightarrow> FrameHeader \<Rightarrow> NewOrder \<Rightarrow> Trading \<Rightarrow> Trading option" where
  "trade_order m h order t =
     (case t of (eng, r, ro) \<Rightarrow>
        if decision (evaluate_order (new_order_intent m h order) r) \<noteq> kAccepted then Some (eng, r, ro)
        else (case submit (new_order_request m h order) eng of
          None \<Rightarrow> None
        | Some (res, eng') \<Rightarrow>
            if \<not> accepted res then Some (eng', r, ro)
            else (let taker = \<lparr>ro_account = fh_account h, ro_market = m, ro_side = no_side order\<rparr>
                  in Some (eng', book_fills taker ro (fills res) r,
                       ro(order_key (new_order_id m h) := if resting res then Some taker else None)))))"

definition trade_cancel :: "CancelMsg \<Rightarrow> Trading \<Rightarrow> Trading option" where
  "trade_cancel msg t =
     (case t of (eng, r, ro) \<Rightarrow>
        (case cancel \<lparr>cr_id = decode_order_id (cm_order_id msg)\<rparr> eng of
           None \<Rightarrow> None
         | Some (res, eng') \<Rightarrow>
             Some (eng', r, if cancelled res then ro(order_key (decode_order_id (cm_order_id msg)) := None) else ro)))"

definition trade_replace :: "FrameHeader \<Rightarrow> ReplaceMsg \<Rightarrow> Trading \<Rightarrow> Trading option" where
  "trade_replace h msg t =
     (case t of (eng, r, ro) \<Rightarrow>
        (let order_id = decode_order_id (rm_order_id msg);
             taker = (case ro (order_key order_id) of
                 Some c \<Rightarrow> c
               | None \<Rightarrow> \<lparr>ro_account = fh_account h, ro_market = oid_market order_id, ro_side = kBuy\<rparr>)
         in case replace (replace_request msg) eng of
              None \<Rightarrow> None
            | Some (res, eng') \<Rightarrow>
                if \<not> rr_accepted res then Some (eng', r, ro)
                else Some (eng', book_fills taker ro (rr_fills res) r,
                       ro(order_key order_id := if rr_resting res then Some taker else None))))"

definition trade_frame :: "MarketId \<Rightarrow> OwnedFrame \<Rightarrow> Trading \<Rightarrow> Trading option" where
  "trade_frame m f t =
     (case fh_kind (fr_header f) of
        kNewOrder \<Rightarrow> (case decode_new_order (fr_payload f) of Inl _ \<Rightarrow> Some t | Inr order \<Rightarrow> trade_order m (fr_header f) order t)
      | kCancel \<Rightarrow> (case decode_cancel (fr_payload f) of Inl _ \<Rightarrow> Some t | Inr msg \<Rightarrow> trade_cancel msg t)
      | kReplace \<Rightarrow> (case decode_replace (fr_payload f) of Inl _ \<Rightarrow> Some t | Inr msg \<Rightarrow> trade_replace (fr_header f) msg t)
      | kHeartbeat \<Rightarrow> Some t)"

fun trade_frames :: "MarketId \<Rightarrow> OwnedFrame list \<Rightarrow> Trading \<Rightarrow> Trading option" where
  "trade_frames m [] t = Some t"
| "trade_frames m (f # fs) t = Option.bind (trade_frame m f t) (trade_frames m fs)"

lemma trade_frames_append: "trade_frames m (fs @ gs) t = Option.bind (trade_frames m fs t) (trade_frames m gs)"
  by (induction fs arbitrary: t) (auto split: bind_splits)

section \<open>The handlers refine it\<close>

lemma process_fills_risk: "dm_risk (process_fills fs taker off ts d) = book_fills taker (resting_orders d) fs (dm_risk d)"
  unfolding process_fills_def
  by (induction fs arbitrary: d) (simp_all add: process_fill_def Let_def split: option.splits)

lemma log_frame_trading:
  assumes "log_frame io f d = (off, e, d1)"
  shows "same_core d d1" "same_shell d d1"
  using assms by (auto simp: log_frame_def same_core_def same_trading_def same_shell_def split: prod.splits option.splits)

text \<open>
  Write-ahead: whatever the write to the log stores, a handler either ends with the exception of the log and
  has not traded, or the frame is logged and the trading state moves as the trading machine says.
\<close>

lemma handle_frame_trades:
  assumes "fh_kind (fr_header f) \<noteq> kHeartbeat" and "log_frame io f d = (off, None, d1)"
  shows "map_option (map_prod id trading_of) (handle_frame io f d)
     = map_option (Pair None) (trade_frame (dm_default_market d) f (trading_of d))"
proof -
  note same = log_frame_trading [OF assms(2)]
  have tr: "dm_matcher d1 = dm_matcher d" "dm_risk d1 = dm_risk d" "resting_orders d1 = resting_orders d"
    using same(1) by (simp_all add: same_core_def same_trading_def)
  note defs = handle_frame_def trade_frame_def trading_of_def assms(2) tr process_fills_risk process_fills_shell Let_def
  show ?thesis
  proof (cases "fh_kind (fr_header f)")
    case kNewOrder
    then show ?thesis by (simp add: defs handle_new_order_def trade_order_def split: sum.split option.split bind_split)
  next
    case kCancel
    then show ?thesis by (simp add: defs handle_cancel_def trade_cancel_def split: sum.split option.split bind_split)
  next
    case kReplace
    then show ?thesis by (simp add: defs handle_replace_def trade_replace_def split: sum.split option.split bind_split)
  qed (use assms(1) in simp)
qed

lemma handle_frame_log_error:
  assumes "fh_kind (fr_header f) \<noteq> kHeartbeat" and "log_frame io f d = (off, Some e, d1)"
  shows "handle_frame io f d = Some (Some e, d1)" "trading_of d1 = trading_of d"
  using assms log_frame_trading(1) [OF assms(2)]
  by (cases "fh_kind (fr_header f)", simp_all add: handle_frame_def handle_new_order_def handle_cancel_def handle_replace_def
      trading_of_def same_core_def same_trading_def)

section \<open>Every run refines it\<close>

definition traded :: "MarketId \<Rightarrow> Trading \<Rightarrow> OwnedFrame list \<Rightarrow> Daemon \<Rightarrow> bool" where
  "traded m t0 fs d \<longleftrightarrow> dm_default_market d = m \<and> trade_frames m fs t0 = Some (trading_of d)"

interpretation traded: frame_invariant "traded m t0" for m t0
proof
  show "traded m t0 fs d'" if "traded m t0 fs d" "same_core d d'" for fs d d'
    using that by (simp add: traded_def trading_of_def same_core_def same_trading_def)
  fix fs d qs f d'
  assume a: "traded m t0 fs d" "engine_reachable (dm_matcher d)" "logs qs d" "fh_kind (fr_header f) \<noteq> kHeartbeat"
    "handle_frame full_io f d = Some (None, d')"
  obtain d1 where d1: "log_frame full_io f d = (ww_next_sequence (dm_wal d), None, d1)" using log_frame_full [OF a(3)] by blast
  have "same_shell d d'" using handle_frame_returns [OF a(2,3,4)] a(5) by auto
  then have "dm_default_market d' = m" using a(1) by (simp add: traded_def same_shell_def)
  moreover have "trade_frame m f (trading_of d) = Some (trading_of d')"
    using handle_frame_trades [OF a(4) d1, symmetric] a(1,5) by (auto simp: traded_def)
  ultimately show "traded m t0 (fs @ [f]) d'" using a(1) by (simp add: traded_def trade_frames_append)
qed

lemma handle_frames_trade:
  assumes "engine_reachable (dm_matcher d)" and "logs qs d" and "list_all (\<lambda>f. fh_kind (fr_header f) \<noteq> kHeartbeat) fs"
  shows "\<exists>d'. handle_frames full_io fs d = Some (None, d') \<and> trade_frames (dm_default_market d) fs (trading_of d) = Some (trading_of d')"
proof -
  obtain d' where d': "handle_frames full_io fs d = Some (None, d')" using handle_frames_returns [OF assms] by blast
  from traded.frames [OF _ assms d', of "dm_default_market d" "trading_of d" "[]"] d' show ?thesis by (simp add: traded_def)
qed

section \<open>Frames of the log\<close>

text \<open>
  The frame that a payload of the log describes, the inverse of \<open>build_wal_payload\<close>; the priority is not
  logged. Trading does not depend on it, nor on the time.
\<close>

definition logged_frame :: "bytes \<Rightarrow> OwnedFrame" where
  "logged_frame b = \<lparr>fr_header = \<lparr>fh_account = get_le (take 8 (drop 1 b)), fh_nonce = get_le (take 8 (drop 9 b)),
     received_time_ns = sint (get_le (take 8 (drop 17 b)) :: u64), priority = 0, fh_kind = kind_of_byte (get_le (take 1 b))\<rparr>,
     fr_payload = drop 25 b\<rparr>"

lemma logged_frame_payload:
  "logged_frame (build_wal_payload f)
     = f\<lparr>fr_header := (fr_header f)\<lparr>priority := 0, received_time_ns := sint (i64_word (received_time_ns (fr_header f)))\<rparr>\<rparr>"
  by (simp add: logged_frame_def build_wal_payload_def append_primitive_def Let_def del: put_le.simps)

lemma trade_frame_logged: "trade_frame m (logged_frame (build_wal_payload f)) t = trade_frame m f t"
proof -
  have h: "trade_order m (h\<lparr>priority := p, received_time_ns := x\<rparr>) order t = trade_order m h order t"
      "trade_replace (h\<lparr>priority := p, received_time_ns := x\<rparr>) msg t = trade_replace h msg t" for h p x order msg
    by (cases t; simp add: trade_order_def trade_replace_def new_order_intent_def new_order_request_def new_order_id_def Let_def
        split: option.split)+
  have f: "fr_header (logged_frame (build_wal_payload f))
      = (fr_header f)\<lparr>priority := 0, received_time_ns := sint (i64_word (received_time_ns (fr_header f)))\<rparr>"
      "fr_payload (logged_frame (build_wal_payload f)) = fr_payload f" by (simp_all add: logged_frame_payload)
  show ?thesis by (simp add: f h trade_frame_def split: MessageKind.split sum.split)
qed

text \<open>Trading from the records of a log.\<close>

definition trade_log :: "MarketId \<Rightarrow> WalRecord list \<Rightarrow> Trading \<Rightarrow> Trading option" where
  "trade_log m rs t = trade_frames m (map (logged_frame \<circ> wr_payload) rs) t"

lemma trade_log_numbered: "trade_log m (numbered s (map log_entry fs)) t = trade_frames m fs t"
proof (induction fs arbitrary: s t)
  case (Cons f fs)
  have "trade_frames m (map (logged_frame \<circ> wr_payload) (numbered (s + 1) (map log_entry fs))) = trade_frames m fs"
    using Cons [of "s + 1"] by (intro ext) (simp add: trade_log_def)
  then show ?case by (simp add: trade_log_def log_entry_def [of f] trade_frame_logged wal_record_def)
qed (simp add: trade_log_def)

lemma trade_log_append: "trade_log m (rs @ ss) t = Option.bind (trade_log m rs t) (trade_log m ss)"
proof -
  have "trade_log m ss = trade_frames m (map (logged_frame \<circ> wr_payload) ss)" by (intro ext) (simp add: trade_log_def)
  then show ?thesis by (simp add: trade_log_def trade_frames_append)
qed

section \<open>The log rebuilds the trading state\<close>

text \<open>The state in which a daemon with this configuration starts to trade, whatever its files hold.\<close>

definition initial_trading :: "EngineConfig \<Rightarrow> Trading" where
  "initial_trading cfg = (case fold setup_market (cfg_markets cfg) (Map.empty, new_risk_engine, Map.empty) of (eng, rk, _) \<Rightarrow> (eng, rk, Map.empty))"

lemma boot_initial_trading:
  assumes "boot env cfg = Inr d" and "prior_files env cfg qs ps" shows "trading_of d = initial_trading cfg"
  using assms by (cases rule: boot_cases) (simp add: trading_of_def initial_trading_def split: prod.splits)

lemma kept_trading:
  assumes "boot env cfg = Inr d" and "prior_files env cfg qs ps" and "keeps d fs d'"
  shows "trade_log (dm_default_market d) (drop (length qs) (numbered 1 (qs @ map log_entry fs))) (initial_trading cfg) = Some (trading_of d')"
proof -
  let ?J = "traded (dm_default_market d) (initial_trading cfg)"
  have "?J [] d" by (simp add: traded_def boot_initial_trading [OF assms(1,2)])
  then have "?J ([] @ fs) d'" by (rule keepsD [where J = ?J, OF assms(3) traded.frame_invariant_axioms])
  then show ?thesis by (simp add: numbered_append trade_log_numbered traded_def)
qed

lemma logs_prefix: "logs qs d \<Longrightarrow> prefix (ww_file (dm_wal d)) (log_bytes (numbered 1 qs))"
  by (metis logs_def prefix_def wal_bytes_def)

text \<open>
  C14. The log rebuilds the trading state: after any run of a daemon that started on the files of earlier
  runs, if any, the records which the run has added to the log, traded again from the initial state of the
  configuration, give exactly the books, positions and contexts of the daemon. If instead the daemon dies
  and the file is cut off at any byte, the records that are left give a state from which the lost records
  lead to that of the daemon.
\<close>

theorem log_rebuilds_trading:
  assumes "load_config args env = Inr cfg" and "boot env cfg = Inr d" and "prior_files env cfg qs ps" and "list_all daemon_op_ok ops"
  defines "new_records \<equiv> drop (length qs)" and "m \<equiv> dm_default_market d"
  shows "\<exists>acc d' rs. run_daemon full_io ops d = Some (acc, None, d')
     \<and> read_all (open_reader (ww_file (dm_wal (snd (shutdown full_io fsync_ok d'))))) = (rs, None)
     \<and> trade_log m (new_records rs) (initial_trading cfg) = Some (trading_of d')
     \<and> (\<forall>n. \<exists>k e t. read_all (open_reader (take n (ww_file (dm_wal d')))) = (take k rs, e) \<and> e \<in> {None, Some ''truncated WAL record''}
            \<and> trade_log m (new_records (take k rs)) (initial_trading cfg) = Some t
            \<and> trade_log m (drop (k - length qs) (new_records rs)) t = Some (trading_of d'))"
proof -
  obtain ver where "daemon_ok (fresh_spec (ingress_config cfg) ver) qs ps d" using boot_ok [OF assms(1-3)] by blast
  from run_daemon_ok [OF this assms(4)] obtain acc d' fs s' where run: "run_daemon full_io ops d = Some (acc, None, d')"
      "run_effect (fresh_spec (ingress_config cfg) ver) qs ps d acc fs s' d'" by blast
  let ?rs = "numbered 1 (qs @ map log_entry fs)"
  have log: "logs (qs @ map log_entry fs) d'" "list_all payload_ok (qs @ map log_entry fs)"
    using run(2) by (auto simp: run_effect_def daemon_ok_def)
  have t: "trade_log m (new_records ?rs) (initial_trading cfg) = Some (trading_of d')"
    using kept_trading [OF assms(2,3)] run(2) by (simp add: run_effect_def new_records_def m_def)
  have "\<exists>k e t. read_all (open_reader (take n (ww_file (dm_wal d')))) = (take k ?rs, e) \<and> e \<in> {None, Some ''truncated WAL record''}
      \<and> trade_log m (new_records (take k ?rs)) (initial_trading cfg) = Some t
      \<and> trade_log m (drop (k - length qs) (new_records ?rs)) t = Some (trading_of d')" for n
  proof -
    obtain k e where k: "read_all (open_reader (take n (ww_file (dm_wal d')))) = (take k ?rs, e)" "e \<in> {None, Some ''truncated WAL record''}"
      using read_cut_prefix [OF log(2) logs_prefix [OF log(1)]] by blast
    have "new_records ?rs = new_records (take k ?rs) @ drop (k - length qs) (new_records ?rs)"
      by (simp add: new_records_def drop_take del: drop_drop)
    then have "Option.bind (trade_log m (new_records (take k ?rs)) (initial_trading cfg)) (trade_log m (drop (k - length qs) (new_records ?rs)))
        = Some (trading_of d')"
      using t by (simp flip: trade_log_append)
    then obtain u where "trade_log m (new_records (take k ?rs)) (initial_trading cfg) = Some u"
        "trade_log m (drop (k - length qs) (new_records ?rs)) u = Some (trading_of d')"
      by (auto simp: bind_eq_Some_conv)
    with k show ?thesis by blast
  qed
  with run(1) t shutdown_log [OF log] show ?thesis by blast
qed

text \<open>An order arrives and is handled; then a second one arrives, and the daemon dies.\<close>

theorem log_rebuilds_trading_witness:
  "\<exists>d acc d' rs. boot sample_environment sample_config = Inr d
     \<and> run_daemon full_io [Datagram 0 7 (wire_bytes 0 sample_order_frame), Iteration 5 [kCancel, kNewOrder, kReplace],
         Datagram 9 7 (wire_bytes 0 sample_order_frame)] d = Some (acc, None, d')
     \<and> read_all (open_reader (ww_file (dm_wal (snd (shutdown full_io True d'))))) = (rs, None)
     \<and> trade_log (dm_default_market d) rs (initial_trading sample_config) = Some (trading_of d')"
proof -
  obtain d where d: "boot sample_environment sample_config = Inr d" using sample_boot by blast
  let ?ops = "[Datagram 0 7 (wire_bytes 0 sample_order_frame), Iteration 5 [kCancel, kNewOrder, kReplace],
         Datagram 9 7 (wire_bytes 0 sample_order_frame)]"
  have "list_all daemon_op_ok ?ops" by (simp add: evaluation_order_def)
  from log_rebuilds_trading [OF sample_load d sample_prior this, of True] d show ?thesis
    by (auto simp del: read_all.simps run_daemon.simps)
qed

section \<open>The signed part of a frame\<close>

lemma trade_frame_payload:
  assumes "kSignatureSize \<le> length (fr_payload f)"
  shows "trade_frame m (f\<lparr>fr_payload := take kSignatureSize (fr_payload f) @ message\<rparr>) t = trade_frame m f t"
  by (simp add: trade_frame_def decode_first_bytes [OF assms] split: MessageKind.split sum.split)

text \<open>
  C38. The handlers do not trade what was signed: when the authenticator has accepted a frame, with its first 64
  bytes as the signature of the header and the bytes after them, the handler of its kind reads the order,
  cancel or replace from these first 64 bytes. Whatever message is put in the place of the signed one, the
  handler, if it can log the frame, leads to the same books, positions and contexts.
\<close>

theorem handlers_ignore_signed_message:
  fixes message :: bytes
  assumes "auth_verifier crypto_verify padding registry (fr_header f) (fr_payload f)" and "fh_kind (fr_header f) \<noteq> kHeartbeat"
  defines "g \<equiv> f\<lparr>fr_payload := take kSignatureSize (fr_payload f) @ message\<rparr>"
  assumes "log_frame io f d = (off, None, d1)" and "log_frame io g d = (off', None, d2)"
  shows "map_option (map_prod id trading_of) (handle_frame io g d) = map_option (map_prod id trading_of) (handle_frame io f d)"
proof -
  have "fh_kind (fr_header g) \<noteq> kHeartbeat" using assms(2) by (simp add: g_def)
  then show ?thesis
    using handle_frame_trades [OF assms(2,4)] handle_frame_trades [OF _ assms(5)] trade_frame_payload [OF verified_length [OF assms(1)]]
    by (simp add: g_def)
qed

text \<open>The order of the sample, on a machine whose crypto library accepts it, and the same frame with another signed part.\<close>

theorem handlers_ignore_signed_message_witness:
  "\<exists>d. boot sample_environment sample_config = Inr d
     \<and> map_option (map_prod id trading_of) (handle_frame full_io (sample_order_frame\<lparr>fr_payload := take kSignatureSize (fr_payload sample_order_frame) @ [7, 7]\<rparr>) d)
       = map_option (map_prod id trading_of) (handle_frame full_io sample_order_frame d)"
proof -
  obtain d where d: "boot sample_environment sample_config = Inr d" using sample_boot by blast
  obtain ver where "daemon_ok (fresh_spec (ingress_config sample_config) ver) [] [] d" using boot_ok [OF sample_load d sample_prior] by blast
  then have l: "logs [] d" by (simp add: daemon_ok_def)
  obtain d1 where d1: "log_frame full_io sample_order_frame d = (ww_next_sequence (dm_wal d), None, d1)" using log_frame_full [OF l] by blast
  obtain d2 where d2: "log_frame full_io (sample_order_frame\<lparr>fr_payload := take kSignatureSize (fr_payload sample_order_frame) @ [7, 7]\<rparr>) d
      = (ww_next_sequence (dm_wal d), None, d2)" using log_frame_full [OF l] by blast
  have "auth_verifier (\<lambda>_ _ _. True) (\<lambda>_. []) [(fh_account (fr_header sample_order_frame), [])] (fr_header sample_order_frame) (fr_payload sample_order_frame)"
    by (simp add: auth_verifier_def verify_frame_def verify_def get_public_key_def verify_with_key_def sample_order_frame_def kSignatureSize_def kNewOrderEncodedSize_def)
  from handlers_ignore_signed_message [OF this _ d1 d2] d show ?thesis by (simp add: sample_order_frame_def)
qed

end
