(* ===== verification/Daemon_Duplicates.thy ===== *)
theory Daemon_Duplicates
  imports Daemon_Balance Daemon_Trading
begin

text \<open>
  Why the balance of the positions needs different identifiers: the daemon accepts a new order with the
  identifier of a resting one if it is filled at once, and then forgets the context of the resting order.
  The trading machine is evaluated on four frames.
\<close>

section \<open>A duplicate identifier\<close>

definition order_frame :: "AccountId \<Rightarrow> u64 \<Rightarrow> Side \<Rightarrow> int \<Rightarrow> OwnedFrame" where
  "order_frame account nonce side price = \<lparr>fr_header = \<lparr>fh_account = account, fh_nonce = nonce, received_time_ns = 0, priority = 0, fh_kind = kNewOrder\<rparr>,
     fr_payload = encode_new_order \<lparr>no_side = side, no_quantity = 10, no_price = price, no_flags = 0\<rparr>\<rparr>"

text \<open>Two sells, a buy with the identifier of the first that trades with the second, and a buy of the first.\<close>

definition duplicate_orders :: "OwnedFrame list" where
  "duplicate_orders = [order_frame 1 5 kSell 100, order_frame 2 6 kSell 90, order_frame 1 5 kBuy 90, order_frame 3 7 kBuy 100]"

definition free_market :: RiskEngine where
  "free_market = set_mark_price 1 100 (configure_market 1 \<lparr>contract_size = 1, initial_margin_basis_points = 0,
     maintenance_margin_basis_points = 0\<rparr> new_risk_engine)"

lemma duplicate_orders_effect:
  "(case trade_frames 1 duplicate_orders (Map.empty, free_market, Map.empty) of
      None \<Rightarrow> False
    | Some (eng, r, ro) \<Rightarrow> map (\<lambda>a. existing_quantity a 1 r) [1, 2, 3] = [10, - 10, 10] \<and> get_all_accounts r = [1, 2, 3])"
  by code_simp

text \<open>On a daemon that has just started with such a market, the four frames leave positions that sum to 10.\<close>

lemma duplicate_id_unbalances:
  assumes "logs qs d" and "trading_of d = (Map.empty, free_market, Map.empty)" and "dm_default_market d = 1"
  shows "\<exists>d'. handle_frames full_io duplicate_orders d = Some (None, d') \<and> total_position 1 (dm_risk d') = 10"
proof -
  obtain eng r ro where t: "trade_frames 1 duplicate_orders (Map.empty, free_market, Map.empty) = Some (eng, r, ro)"
      "map (\<lambda>a. existing_quantity a 1 r) [1, 2, 3] = [10, - 10, 10]" "get_all_accounts r = [1, 2, 3]"
    using duplicate_orders_effect by (auto split: option.splits)
  have "engine_reachable (dm_matcher d)" using assms(2) engine_reachable.start by (simp add: trading_of_def)
  from handle_frames_trade [OF this assms(1), of duplicate_orders] t(1) assms(2,3) obtain d' where
    "handle_frames full_io duplicate_orders d = Some (None, d')" "dm_risk d' = r"
    by (auto simp: trading_of_def duplicate_orders_def order_frame_def)
  then show ?thesis using t(2,3) by (simp add: total_position_def)
qed

end
