(* ===== verification/Daemon_Collateral.thy ===== *)
theory Daemon_Collateral
  imports Daemon_Balance
begin

text \<open>
  What the missing deposit path means: nothing in the daemon credits collateral, so every account starts
  with equity 0, and the risk check refuses every order whose margin is positive. With a positive mark
  price the books of a running daemon stay empty.
\<close>

section \<open>The risk check without accounts\<close>

definition margin_basis :: "MarketState \<Rightarrow> int" where
  "margin_basis ms = mark_price ms * contract_size (mk_config ms) * initial_margin_basis_points (mk_config ms)"

text \<open>A market with positive margin, and orders that are small enough for 64-bit arithmetic.\<close>

definition margin_positive :: "MarketState \<Rightarrow> bool" where
  "margin_positive ms \<longleftrightarrow> 0 < mark_price ms \<and> 0 < contract_size (mk_config ms) \<and> 0 < initial_margin_basis_points (mk_config ms)"

definition small_order :: "MarketState \<Rightarrow> int \<Rightarrow> bool" where
  "small_order ms q \<longleftrightarrow> \<bar>q\<bar> * margin_basis ms < 2 ^ 62"

lemma in64_below: "0 \<le> x \<Longrightarrow> x < 2 ^ 62 \<Longrightarrow> in64 x"
  by (simp add: in64_def)

lemma small_order_factors:
  assumes "margin_positive ms" and "small_order ms q"
  shows "\<bar>q\<bar> < 2 ^ 62" "\<bar>q\<bar> * mark_price ms < 2 ^ 62" "\<bar>q\<bar> * mark_price ms * contract_size (mk_config ms) < 2 ^ 62"
    "\<bar>q\<bar> * mark_price ms * contract_size (mk_config ms) * initial_margin_basis_points (mk_config ms) < 2 ^ 62"
proof -
  let ?p = "mark_price ms" and ?c = "contract_size (mk_config ms)" and ?b = "initial_margin_basis_points (mk_config ms)"
  have grow: "x \<le> x * y" if "0 \<le> x" "0 < y" for x y :: int using that by (simp add: mult_le_cancel_left1)
  have pos: "0 < ?p" "0 < ?c" "0 < ?b" using assms(1) by (simp_all add: margin_positive_def)
  show 4: "\<bar>q\<bar> * ?p * ?c * ?b < 2 ^ 62" using assms(2) by (simp add: small_order_def margin_basis_def mult.assoc)
  show 3: "\<bar>q\<bar> * ?p * ?c < 2 ^ 62" using grow [of "\<bar>q\<bar> * ?p * ?c" ?b] pos 4 by simp
  show 2: "\<bar>q\<bar> * ?p < 2 ^ 62" using grow [of "\<bar>q\<bar> * ?p" ?c] pos 3 by simp
  show "\<bar>q\<bar> < 2 ^ 62" using grow [of "\<bar>q\<bar>" ?p] pos 2 by simp
qed

lemma small_order_margin:
  assumes "margin_positive ms" and "small_order ms q" and "q \<noteq> 0"
  shows "0 < i64 (0 + apply_basis_points (i64 (i64 (llabs q * mark_price ms) * contract_size (mk_config ms)))
      (initial_margin_basis_points (mk_config ms)))"
proof -
  let ?p = "mark_price ms" and ?c = "contract_size (mk_config ms)" and ?b = "initial_margin_basis_points (mk_config ms)"
  let ?x = "\<bar>q\<bar> * ?p * ?c * ?b"
  note f = small_order_factors [OF assms(1,2)]
  have pos: "0 < ?p" "0 < ?c" "0 < ?b" using assms(1) by (simp_all add: margin_positive_def)
  have "in64 q" "q \<noteq> - (2 ^ 63)" using f(1) by (auto simp: in64_def)
  then have l: "llabs q = \<bar>q\<bar>" by (rule llabs_eq)
  have "i64 (i64 (llabs q * ?p) * ?c) = \<bar>q\<bar> * ?p * ?c" "i64 (\<bar>q\<bar> * ?p * ?c * ?b) = ?x"
    using f pos by (simp_all add: l in64_below)
  moreover have x: "0 < ?x" using pos assms(3) by simp
  moreover have "i64 (?x + 9999) = ?x + 9999" using x f(4) by (simp add: in64_def)
  moreover have "(?x + 9999) sdiv 10000 = (?x + 9999) div 10000" using x by (simp add: signed_divide_int_def)
  moreover have "1 \<le> (?x + 9999) div 10000" "(?x + 9999) div 10000 \<le> ?x + 9999" using x by linarith+
  ultimately show ?thesis
    using f(4) by (simp add: apply_basis_points_def kBasisPointDenominator_def in64_def)
qed

lemma refused_without_accounts:
  assumes "accounts eng = []" and "find_market (oi_market i) eng = Some ms" and "margin_positive ms"
    and "small_order ms (oi_quantity i)" and "oi_quantity i \<noteq> 0"
  shows "decision (evaluate_order i eng) \<noteq> kAccepted"
proof -
  let ?q = "signed_quantity (oi_side i) (oi_quantity i)"
  have "in64 (- oi_quantity i)" using small_order_factors(1) [OF assms(3,4)] by (auto simp: in64_def)
  then have q: "\<bar>?q\<bar> = \<bar>oi_quantity i\<bar>" by (simp add: signed_quantity_def)
  then have "small_order ms ?q" "?q \<noteq> 0" using assms(4,5) by (auto simp: small_order_def)
  note m = small_order_margin [OF assms(3) this]
  have "mark_price ms \<noteq> 0" using assms(3) by (simp add: margin_positive_def)
  with m assms(1,2) \<open>?q \<noteq> 0\<close> show ?thesis
    by (simp add: evaluate_order_def account_summary_with_delta_def find_account_def add_exposure_def exposure_mark_def
        intent_fill_def empty_risk_result_def Let_def)
qed

section \<open>Idle books\<close>

definition small_frame :: "MarketState \<Rightarrow> OwnedFrame \<Rightarrow> bool" where
  "small_frame ms f \<longleftrightarrow> (case decode_new_order (fr_payload f) of Inl _ \<Rightarrow> True | Inr order \<Rightarrow> small_order ms (no_quantity order))"

text \<open>No accounts, no orders, and the default market has its configuration.\<close>

definition untouched :: "MarketState \<Rightarrow> Daemon \<Rightarrow> bool" where
  "untouched ms d \<longleftrightarrow> accounts (dm_risk d) = [] \<and> find_market (dm_default_market d) (dm_risk d) = Some ms
     \<and> (\<exists>be. engine_rep (dm_matcher d) be \<and> (\<forall>m. live (book_at m be) = {}))"

lemma untouched_same: "same_trading d d' \<Longrightarrow> dm_default_market d' = dm_default_market d \<Longrightarrow> untouched ms d' = untouched ms d"
  by (simp add: untouched_def same_trading_def)

lemma untouched_matcher:
  "untouched ms d \<Longrightarrow> engine_rep eng be \<Longrightarrow> \<forall>m. live (book_at m be) = {} \<Longrightarrow> untouched ms (d\<lparr>dm_matcher := eng\<rparr>)"
  by (auto simp: untouched_def)

lemma handle_new_order_untouched:
  assumes "untouched ms d1" and "log_frame full_io f d = (off, None, d1)" and "dm_default_market d1 = dm_default_market d"
    and "margin_positive ms" and "small_frame ms f" and "handle_new_order full_io f d = Some (None, d')"
  shows "untouched ms d'"
proof (cases "decode_new_order (fr_payload f)")
  case (Inl e)
  then show ?thesis using assms(1,2,6) by (simp add: handle_new_order_def)
next
  case (Inr order)
  let ?i = "new_order_intent (dm_default_market d) (fr_header f) order"
  show ?thesis
  proof (cases "no_quantity order = 0")
    case True
    have "submit (new_order_request (dm_default_market d) (fr_header f) order) eng
        = Some (empty_order_result\<lparr>reject_code := kRejectInvalidQuantity\<rparr>, eng)" for eng
      using True by (simp add: submit_def new_order_request_def)
    then show ?thesis
      using assms(1,2,6) Inr by (auto simp: handle_new_order_def empty_order_result_def Let_def split: if_splits)
  next
    case False
    have "decision (evaluate_order ?i (dm_risk d1)) \<noteq> kAccepted"
      using assms(1,3,5) Inr False
      by (intro refused_without_accounts [OF _ _ assms(4)]) (simp_all add: untouched_def small_frame_def new_order_intent_def)
    then show ?thesis using assms(1,2,6) Inr by (simp add: handle_new_order_def Let_def)
  qed
qed

lemma handle_cancel_untouched:
  assumes "untouched ms d1" and "log_frame full_io f d = (off, None, d1)" and "handle_cancel full_io f d = Some (None, d')"
  shows "untouched ms d'"
proof (cases "decode_cancel (fr_payload f)")
  case (Inl e)
  then show ?thesis using assms by (simp add: handle_cancel_def)
next
  case (Inr msg)
  let ?r = "\<lparr>cr_id = decode_order_id (cm_order_id msg)\<rparr>"
  obtain be where be: "engine_rep (dm_matcher d1) be" "\<forall>m. live (book_at m be) = {}" using assms(1) by (auto simp: untouched_def)
  have "\<not> cancelled (fst (book_cancel ?r be)) \<and> snd (book_cancel ?r be) = be"
    using be(2) by (auto simp: book_cancel_def live_def book_at_def keys_def split: option.splits dest: spec [of _ "oid_market (cr_id ?r)"])
  then show ?thesis
    using cancel_refines [OF be(1), of ?r] assms Inr untouched_matcher [OF assms(1) _ be(2)]
    by (auto simp: handle_cancel_def Let_def)
qed

lemma handle_replace_untouched:
  assumes "untouched ms d1" and "log_frame full_io f d = (off, None, d1)" and "handle_replace full_io f d = Some (None, d')"
  shows "untouched ms d'"
proof (cases "decode_replace (fr_payload f)")
  case (Inl e)
  then show ?thesis using assms by (simp add: handle_replace_def)
next
  case (Inr msg)
  let ?r = "replace_request msg"
  obtain be where be: "engine_rep (dm_matcher d1) be" "\<forall>m. live (book_at m be) = {}" using assms(1) by (auto simp: untouched_def)
  have q: "in64 (rp_new_quantity ?r)" using decode_replace_in64 [OF Inr] by (simp add: replace_request_def)
  from be(1) have "\<not> rr_accepted (fst (book_replace ?r be)) \<and> snd (book_replace ?r be) = be"
    by (cases rule: book_replaceE [where request = ?r]) (use be(2) in auto)
  then show ?thesis
    using replace_refines [OF be(1) q] assms Inr untouched_matcher [OF assms(1) _ be(2)]
    by (auto simp: handle_replace_def Let_def)
qed

definition idle :: "MarketState \<Rightarrow> OwnedFrame list \<Rightarrow> Daemon \<Rightarrow> bool" where
  "idle ms fs d \<longleftrightarrow> (margin_positive ms \<longrightarrow> list_all (small_frame ms) (filter (is_kind kNewOrder) fs) \<longrightarrow> untouched ms d)"

interpretation idle: frame_invariant "idle ms" for ms
proof
  show "idle ms fs d'" if "idle ms fs d" "same_core d d'" for fs d d'
    using that untouched_same [of d d'] by (auto simp: idle_def same_core_def)
  fix fs d qs f d'
  assume a: "idle ms fs d" "engine_reachable (dm_matcher d)" "logs qs d" "fh_kind (fr_header f) \<noteq> kHeartbeat"
    "handle_frame full_io f d = Some (None, d')"
  obtain d1 where d1: "log_frame full_io f d = (ww_next_sequence (dm_wal d), None, d1)" "same_shell d d1" "same_trading d d1"
    using log_frame_full [OF a(3)] by blast
  have m: "dm_default_market d1 = dm_default_market d" using d1(2) by (simp add: same_shell_def)
  show "idle ms (fs @ [f]) d'"
    unfolding idle_def
  proof (intro impI)
    assume s: "margin_positive ms" "list_all (small_frame ms) (filter (is_kind kNewOrder) (fs @ [f]))"
    then have u: "untouched ms d1" using a(1) untouched_same [OF d1(3) m] by (simp add: idle_def)
    show "untouched ms d'"
      using a(4,5) s(2) handle_new_order_untouched [OF u d1(1) m s(1)] handle_cancel_untouched [OF u d1(1)] handle_replace_untouched [OF u d1(1)]
      by (cases "fh_kind (fr_header f)") (simp_all add: handle_frame_def is_kind_def)
  qed
qed

section \<open>Runs\<close>

definition boot_market :: "MarketConfig \<Rightarrow> MarketState" where
  "boot_market mc = \<lparr>mk_config = \<lparr>contract_size = ec_contract_size (mc_risk mc),
       initial_margin_basis_points = ec_initial_margin_basis_points (mc_risk mc),
       maintenance_margin_basis_points = ec_maintenance_margin_basis_points (mc_risk mc)\<rparr>,
     mark_price = ec_initial_mark_price (mc_risk mc)\<rparr>"

lemma boot_untouched:
  assumes "boot env cfg = Inr d" and "prior_files env cfg qs ps" and "cfg_markets cfg = [mc]"
  shows "untouched (boot_market mc) d"
  using assms(1,2)
proof (cases rule: boot_cases)
  case (1 ver)
  let ?m = "ucast (mc_id mc) :: MarketId"
  have "engine_rep (dm_matcher d) [?m \<mapsto> new_book]"
    using 1(2) engine_rep_upd [OF engine_rep_empty new_book_rep, of ?m] by (simp add: assms(3) setup_market_def add_market_def Let_def)
  moreover have "\<forall>m. live (book_at m [?m \<mapsto> new_book]) = {}"
    by (simp add: book_at_def live_def new_book_def all_orders_def)
  moreover have "accounts (dm_risk d) = []" "find_market ?m (dm_risk d) = Some (boot_market mc)"
    using 1(3) by (simp_all add: assms(3) setup_market_def Let_def set_mark_price_def ensure_risk_market_def configure_market_def
        find_market_def new_risk_engine_def boot_market_def)
  ultimately show ?thesis using 1(9) assms(3) by (auto simp: untouched_def)
qed

text \<open>
  C18. The daemon never trades: nothing credits collateral, so with one market of positive initial mark price
  (as in the default configuration), with full writes to the log and no failing snapshot, after any datagrams and event-loop iterations in any interleaving in
  which the quantities of the accepted new orders keep the margin below \<open>2 ^ 62\<close>, no account has been
  created and every book is empty.
\<close>

theorem no_collateral_no_trade:
  assumes "load_config args env = Inr cfg" and "boot env cfg = Inr d" and "prior_files env cfg qs ps" and "list_all daemon_op_ok ops"
    and "cfg_markets cfg = [mc]" and "0 < ec_initial_mark_price (mc_risk mc)"
  shows "\<exists>acc d'. run_daemon full_io ops d = Some (acc, None, d')
     \<and> (list_all (small_frame (boot_market mc)) (filter (is_kind kNewOrder) acc) \<longrightarrow>
          accounts (dm_risk d') = [] \<and> (\<forall>m s. dm_matcher d' m = Some s \<longrightarrow> book_orders s = Map.empty))"
proof -
  let ?ms = "boot_market mc"
  obtain ver where d: "daemon_ok (fresh_spec (ingress_config cfg) ver) qs ps d" using boot_ok [OF assms(1-3)] by blast
  then obtain acc d' fs s where run: "run_daemon full_io ops d = Some (acc, None, d')"
      "run_effect (fresh_spec (ingress_config cfg) ver) qs ps d acc fs s d'"
    using run_daemon_ok [OF _ assms(4)] by blast
  have "idle ?ms [] d" using boot_untouched [OF assms(2,3,5)] by (simp add: idle_def)
  then have "idle ?ms ([] @ fs) d'"
    using run(2) by (intro keepsD [OF _ idle.frame_invariant_axioms]) (simp_all add: run_effect_def)
  moreover have "filter (is_kind kNewOrder) acc = filter (is_kind kNewOrder) fs @ is_lane s kNewOrder"
    using run(2) by (simp add: run_effect_def fresh_spec_def)
  moreover have "margin_positive ?ms"
    using load_config_ok [OF assms(1)] assms(5,6) by (simp add: config_ok_def market_config_ok_def margin_positive_def boot_market_def)
  ultimately have u: "untouched ?ms d'" if "list_all (small_frame ?ms) (filter (is_kind kNewOrder) acc)"
    using that by (simp add: idle_def)
  have "book_orders sh = Map.empty" if idle: "untouched ?ms d'" and sh: "dm_matcher d' m = Some sh" for m sh
  proof -
    obtain be where be: "engine_rep (dm_matcher d') be" "live (book_at m be) = {}" using idle by (auto simp: untouched_def)
    from be(1) obtain bs where "be m = Some bs" "shard_rep sh bs" using sh by (cases rule: engine_rep_cases [of _ _ m]) auto
    then have "dom (book_orders sh) = {}" using be(2) shard_repD(10) by (auto simp: book_at_def live_def keys_def)
    then show ?thesis by simp
  qed
  with u run(1) show ?thesis by (auto simp: untouched_def)
qed

lemma sample_order_small: "small_frame (boot_market default_market) sample_order_frame"
proof -
  have "decode_new_order (fr_payload sample_order_frame) = Inr \<lparr>no_side = kBuy, no_quantity = 10, no_price = 900, no_flags = 0\<rparr>"
    unfolding sample_order_frame_def OwnedFrame.select_convs by (rule decode_encode_new_order) (simp_all add: side_ok_def in64_def)
  then show ?thesis
    by (simp add: small_frame_def small_order_def margin_basis_def boot_market_def default_market_def default_engine_risk_def)
qed

theorem no_collateral_no_trade_witness:
  "\<exists>d acc d'. boot sample_environment sample_config = Inr d
     \<and> run_daemon full_io [Datagram 0 7 (wire_bytes 0 sample_order_frame), Iteration 9 [kNewOrder, kReplace, kCancel]] d = Some (acc, None, d')
     \<and> accounts (dm_risk d') = [] \<and> (\<forall>m s. dm_matcher d' m = Some s \<longrightarrow> book_orders s = Map.empty)"
proof -
  let ?ops = "[Datagram 0 7 (wire_bytes 0 sample_order_frame), Iteration 9 [kNewOrder, kReplace, kCancel]]"
  have f: "parse_frame (wire_bytes 0 sample_order_frame) = Some sample_order_frame"
    using parse_wire_bytes [of sample_order_frame 0 "[]"] by (simp add: sample_order_frame_def kNewOrderEncodedSize_def)
  obtain d where d: "boot sample_environment sample_config = Inr d" using sample_boot by blast
  then obtain acc d' where run: "run_daemon full_io ?ops d = Some (acc, None, d')"
      "list_all (small_frame (boot_market default_market)) (filter (is_kind kNewOrder) acc) \<longrightarrow>
        accounts (dm_risk d') = [] \<and> (\<forall>m s. dm_matcher d' m = Some s \<longrightarrow> book_orders s = Map.empty)"
    using no_collateral_no_trade [OF sample_load _ sample_prior, of d ?ops default_market]
    by (auto simp: evaluation_order_def sample_config_def default_market_def default_engine_risk_def simp del: run_daemon.simps)
  then have acc: "acc = accepted_frame 0 7 (wire_bytes 0 sample_order_frame) d" by (auto split: bind_splits if_splits)
  have "set acc \<subseteq> {sample_order_frame}"
    by (auto simp: acc accepted_frame_def receive_datagram_def f Let_def split: option.splits prod.splits bool.splits if_splits)
  then have "list_all (small_frame (boot_market default_market)) (filter (is_kind kNewOrder) acc)"
    using sample_order_small by (auto simp: list_all_iff)
  with d run show ?thesis by blast
qed

end
