(* ===== verification/Daemon_Recovery.thy ===== *)
theory Daemon_Recovery
  imports Daemon_Trading
begin

text \<open>
  The daemon and the replay driver together: what the driver delivers from the files that a run of the
  daemon has left.
\<close>

section \<open>The newest snapshot\<close>

definition recovery_driver :: "Daemon \<Rightarrow> ReplayDriver" where
  "recovery_driver d = set_event_handler True (set_snapshot_handler True (dm_replay d))"

definition files_after :: "string \<Rightarrow> bool \<Rightarrow> Daemon \<Rightarrow> FileSystem" where
  "files_after path fsync_ok d = (dm_files d)(path \<mapsto> ww_file (dm_wal (snd (shutdown full_io fsync_ok d))))"

lemma snapshot_sequence_nat: "k < 2 ^ 32 - 1 \<Longrightarrow> snapshot_sequence (of_nat k) = of_nat k"
proof -
  assume k: "k < 2 ^ 32 - 1"
  then have u: "unat (of_nat k :: u64) = k" by (simp add: unat_of_nat)
  moreover have "unat (ucast (- 1 :: SequenceId) :: u64) = 2 ^ 32 - 1" by (simp add: unsigned_ucast_eq unsigned_minus_1_eq_mask mask_eq_exp_minus_1 take_bit_nat_eq_self)
  ultimately have "(of_nat k :: u64) \<le> ucast (- 1 :: SequenceId)" using k by (simp add: word_le_nat_alt)
  moreover have "ucast (of_nat k :: u64) = (of_nat k :: SequenceId)" using u by (metis of_nat_unat)
  ultimately show "snapshot_sequence (of_nat k) = of_nat k" by (simp add: snapshot_sequence_def min_def)
qed

text \<open>What the driver finds as the newest snapshot.\<close>

lemma newest_snapshot:
  assumes "daemon_ok s qs ps d" and "snaps store cid n ps d" and "n < 2 ^ 32 - 1"
    and "ss_file_path st = ss_file_path store" and "ss_file_path store \<noteq> []" and "ss_file_path store \<noteq> path"
  shows "\<exists>k \<le> n. n - k < 256 \<and> latest st (files_after path fsync_ok d)
     = Inr (if k = 0 then None else Some \<lparr>sr_sequence = of_nat k, sr_payload = snapshot_payload cid (of_nat k)\<rparr>)"
proof -
  obtain k where k: "k \<le> n" "(of_nat (n - k) :: u64) < kSnapshotInterval" "newest cid k ps" using assms(2) by (auto simp: snaps_def)
  have "n - k < 256" using k(2) assms(3) by (simp add: word_less_nat_alt kSnapshotInterval_def unat_of_nat)
  moreover have "(case files_after path fsync_ok d (ss_file_path st) of None \<Rightarrow> [] | Some b \<Rightarrow> b) = snapshot_file ps" "list_all saved_ok ps"
    using assms(1,2,4,6) by (simp_all add: files_after_def daemon_ok_def snaps_def)
  then have "latest st (files_after path fsync_ok d)
     = Inr (if k = 0 then None else Some \<lparr>sr_sequence = of_nat k, sr_payload = snapshot_payload cid (of_nat k)\<rparr>)"
    using latest_file [of st _ ps] assms(3-5) k(1,3) by (auto simp: newest_def snapshot_sequence_nat)
  ultimately show ?thesis using k(1) by blast
qed

text \<open>A run handles at most one frame per datagram.\<close>

lemma length_by_kind:
  "length fs = length (filter (is_kind kNewOrder) fs) + length (filter (is_kind kCancel) fs)
     + length (filter (is_kind kReplace) fs) + length (filter (is_kind kHeartbeat) fs)"
proof (induction fs)
  case (Cons f fs)
  then show ?case by (cases "fh_kind (fr_header f)") (simp_all add: is_kind_def)
qed simp

lemma accepted_at_most: "run_daemon io ops d = Some (acc, e, d') \<Longrightarrow> length acc \<le> length ops"
proof (induction ops arbitrary: d acc)
  case (Cons op ops)
  have one: "length (accepted_frame now key data x) \<le> 1" for now key data x
    by (simp add: accepted_frame_def split: option.splits bool.splits)
  show ?case
  proof (cases op)
    case (Datagram now key data)
    then obtain d1 acc1 where "run_daemon io ops d1 = Some (acc1, e, d')" "acc = accepted_frame now key data d @ acc1"
      using Cons.prems by (auto simp: bind_eq_Some_conv)
    with Cons.IH one [of now key data d] show ?thesis by fastforce
  next
    case (Iteration now ks)
    then obtain e1 d1 where "acc = [] \<or> run_daemon io ops d1 = Some (acc, e, d')"
      using Cons.prems by (auto simp: bind_eq_Some_conv split: if_splits)
    with Cons.IH show ?thesis by fastforce
  qed
qed simp

lemma handled_at_most:
  assumes "run_daemon full_io ops d = Some (acc, None, d')" and "run_effect s qs ps d acc fs s' d'" and "\<forall>k. is_lane s k = []"
  shows "length fs \<le> length ops"
proof -
  have "length (filter (is_kind k) fs) \<le> length (filter (is_kind k) acc)" for k
    using assms(2,3) by (auto simp: run_effect_def)
  then have "length fs \<le> length acc" unfolding length_by_kind [of fs] length_by_kind [of acc] by (intro add_mono)
  with accepted_at_most [OF assms(1)] show ?thesis by simp
qed

section \<open>Recovery\<close>

text \<open>
  C17. Recovery after the first run: when a daemon that started without a log or a snapshot from earlier runs, and
  whose log is not the file of the snapshots, has made fewer than \<open>2 ^ 32 - 1\<close> steps (datagrams and iterations)
  with full writes and is shut down, the replay driver it configured delivers, from the files it left, the
  snapshot of a block \<open>k\<close> among the last 256 (or none, if no snapshot was due yet), and then exactly the
  logged frames after the first \<open>k\<close>, in order and without an error.
\<close>

theorem replay_after_shutdown:
  assumes "load_config args env = Inr cfg" and "boot env cfg = Inr d" and "prior_files env cfg [] []" and "list_all daemon_op_ok ops"
    and "length ops < 2 ^ 32 - 1" and "wal_path (cfg_persistence cfg) \<noteq> path_join (snapshot_dir (cfg_persistence cfg)) ''snapshot.tc''"
  shows "\<exists>acc d' fs. run_daemon full_io ops d = Some (acc, None, d') \<and> dm_block_number d' = of_nat (length fs)
     \<and> read_all (open_reader (ww_file (dm_wal (snd (shutdown full_io fsync_ok d'))))) = (numbered 1 (map log_entry fs), None)
     \<and> (\<exists>k \<le> length fs. length fs - k < 256
          \<and> execute (recovery_driver d) (files_after (wal_path (cfg_persistence cfg)) fsync_ok d')
            = ((if k = 0 then [] else [SnapshotHandler (of_nat k) (snapshot_payload (dm_chain_id d) (of_nat k))])
                @ map EventHandler (drop k (numbered 1 (map log_entry fs))), None))"
proof -
  let ?wal = "wal_path (cfg_persistence cfg)" and ?store = "open_store (snapshot_dir (cfg_persistence cfg)) default_store_options"
  obtain ver where ok: "daemon_ok (fresh_spec (ingress_config cfg) ver) [] [] d" using boot_ok [OF assms(1-3)] by blast
  have boot: "dm_block_number d = 0" "dm_last_snapshot_block d = 0" "dm_snapshot d = ?store"
      "dm_replay d = configure_replay (snapshot_dir (cfg_persistence cfg)) ?wal new_driver"
    using assms(2,3) by (cases rule: boot_cases, simp)+
  obtain acc d' fs s' ps' where run: "run_daemon full_io ops d = Some (acc, None, d')" "daemon_ok s' (map log_entry fs) ps' d'"
      "snaps_step [] d (length fs) ps' d'" "dm_block_number d' = of_nat (length fs)"
      and eff: "run_effect (fresh_spec (ingress_config cfg) ver) [] [] d acc fs s' d'"
    using run_daemon_ok [OF ok assms(4)] boot(1) by (fastforce simp: run_effect_def)
  have small: "length fs < 2 ^ 32 - 1"
    using handled_at_most [OF run(1) eff] assms(5) by (simp add: fresh_spec_def)
  have log: "logs (map log_entry fs) d'" "list_all payload_ok (map log_entry fs)" using run(2) by (simp_all add: daemon_ok_def)
  have "snaps ?store (dm_chain_id d) 0 [] d" using boot by (simp add: snaps_def kSnapshotInterval_def newest_def)
  then have sn: "snaps ?store (dm_chain_id d) (length fs) ps' d'" using run(3) by (fastforce simp: snaps_step_def)
  note driver = recovery_driver_def set_event_handler_def set_snapshot_handler_def configure_replay_def boot(4)
  have "ss_file_path (rd_store (recovery_driver d)) = ss_file_path ?store" "ss_file_path ?store \<noteq> []" "ss_file_path ?store \<noteq> ?wal"
    using assms(6) by (auto simp: driver open_store_def prepare_def path_join_def)
  from newest_snapshot [OF run(2) sn small this] obtain k where k: "k \<le> length fs" "length fs - k < 256"
      "latest (rd_store (recovery_driver d)) (files_after ?wal fsync_ok d')
         = Inr (if k = 0 then None else Some \<lparr>sr_sequence = of_nat k, sr_payload = snapshot_payload (dm_chain_id d) (of_nat k)\<rparr>)" by blast
  let ?snap = "if k = 0 then None else Some \<lparr>sr_sequence = of_nat k, sr_payload = snapshot_payload (dm_chain_id d) (of_nat k)\<rparr>"
  have num: "unat (snapshot_number ?snap) = k" using k(1) small by (simp add: snapshot_number_def unat_of_nat)
  have "execute (recovery_driver d) (files_after ?wal fsync_ok d') = ((case ?snap of None \<Rightarrow> [] | Some s \<Rightarrow> [SnapshotHandler (sr_sequence s) (sr_payload s)])
      @ map EventHandler (drop (unat (snapshot_number ?snap)) (numbered 1 (map log_entry fs))), None)"
    using num k(1) small shutdown_file [OF log(1)]
    by (intro execute_log [OF _ _ k(3) _ _ log(2)]) (simp_all add: driver files_after_def word_less_nat_alt)
  then have "execute (recovery_driver d) (files_after ?wal fsync_ok d')
      = ((if k = 0 then [] else [SnapshotHandler (of_nat k) (snapshot_payload (dm_chain_id d) (of_nat k))])
          @ map EventHandler (drop k (numbered 1 (map log_entry fs))), None)" using num by simp
  with run(1,4) shutdown_log [OF log] k(1,2) show ?thesis by blast
qed

theorem replay_after_shutdown_witness:
  "\<exists>d acc d' fs k. boot sample_environment sample_config = Inr d
     \<and> run_daemon full_io [Datagram 0 7 (wire_bytes 0 sample_order_frame), Iteration 5 [kCancel, kNewOrder, kReplace]] d = Some (acc, None, d')
     \<and> read_all (open_reader (ww_file (dm_wal (snd (shutdown full_io True d'))))) = (numbered 1 (map log_entry fs), None)
     \<and> k \<le> length fs \<and> execute (recovery_driver d) (files_after (wal_path default_persistence) True d')
           = ((if k = 0 then [] else [SnapshotHandler (of_nat k) (snapshot_payload (dm_chain_id d) (of_nat k))])
               @ map EventHandler (drop k (numbered 1 (map log_entry fs))), None)"
proof -
  obtain d where d: "boot sample_environment sample_config = Inr d" using sample_boot by blast
  let ?ops = "[Datagram 0 7 (wire_bytes 0 sample_order_frame), Iteration 5 [kCancel, kNewOrder, kReplace]]"
  have ops: "list_all daemon_op_ok ?ops" "length ?ops < 2 ^ 32 - 1" by (simp_all add: evaluation_order_def)
  have p: "cfg_persistence sample_config = default_persistence" by (simp add: sample_config_def empty_config_def)
  have "wal_path default_persistence \<noteq> path_join (snapshot_dir default_persistence) ''snapshot.tc''"
    by (simp add: default_persistence_def path_join_def)
  from replay_after_shutdown [OF sample_load d sample_prior ops, unfolded p, OF this, of True] d show ?thesis by blast
qed

end
