(* ===== verification/Daemon_Failures.thy ===== *)
theory Daemon_Failures
  imports Daemon_Trading
begin

text \<open>
  Failures while the daemon runs: short writes to the log, flushes of its stream that store only a part, and
  snapshots that cannot be persisted. Up to the first exception the daemon trades as if nothing failed, and
  the exception ends it before the frame it was about to handle has traded, or between two iterations.
  What has been handed to the log is then enough to rebuild the state it ended in.
\<close>

section \<open>Trading always returns\<close>

lemma trade_frame_returns:
  assumes "engine_reachable (dm_matcher d)" and "fh_kind (fr_header f) \<noteq> kHeartbeat"
  shows "\<exists>t. trade_frame (dm_default_market d) f (trading_of d) = Some t \<and> engine_reachable (fst t)"
proof -
  let ?w = "\<lparr>ww_file = [], ww_stream = [], ww_buffer = [], flush_threshold = 0, ww_next_sequence = 1\<rparr>"
  let ?d = "d\<lparr>dm_wal := ?w\<rparr>"
  have l: "logs [] ?d" by (simp add: logs_def wal_bytes_def)
  have r: "engine_reachable (dm_matcher ?d)" using assms(1) by simp
  obtain d' where d': "handle_frame full_io f ?d = Some (None, d')" "engine_reachable (dm_matcher d')"
    using handle_frame_returns [OF r l assms(2)] by blast
  obtain d1 where d1: "log_frame full_io f ?d = (ww_next_sequence (dm_wal ?d), None, d1)" using log_frame_full [OF l] by blast
  have "trading_of ?d = trading_of d" by (simp add: trading_of_def)
  with handle_frame_trades [OF assms(2) d1, symmetric] d' show ?thesis by (auto simp: trading_of_def)
qed

section \<open>One frame\<close>

abbreviation write_failed :: string where "write_failed \<equiv> ''failed to write WAL buffer''"

text \<open>
  The daemon in a state \<open>d\<close> has handled the frames \<open>fs\<close> since the state \<open>d0\<close>, when the log was \<open>qs\<close>: all of them are
  in the log, or still in a buffer, and have traded.
\<close>

definition handled :: "DaemonIo \<Rightarrow> (u16 \<times> bytes) list \<Rightarrow> Daemon \<Rightarrow> OwnedFrame list \<Rightarrow> Daemon \<Rightarrow> bool" where
  "handled io qs d0 fs d \<longleftrightarrow> list_all payload_ok (qs @ map log_entry fs) \<and> engine_reachable (dm_matcher d)
     \<and> wal_total (dm_wal d) = log_bytes (numbered 1 (qs @ map log_entry fs))
     \<and> ww_next_sequence (dm_wal d) = 1 + of_nat (length (qs @ map log_entry fs))
     \<and> (stores_all (di_log io) \<longrightarrow> ww_stream (dm_wal d) = [])
     \<and> dm_snapshot d = dm_snapshot d0 \<and> dm_default_market d = dm_default_market d0
     \<and> trade_frames (dm_default_market d0) fs (trading_of d0) = Some (trading_of d)"

text \<open>
  It has stopped at the frame \<open>f\<close>: that frame has not traded, and nothing but a part of its record has been handed
  to the log after those of the handled frames.
\<close>

definition stopped :: "(u16 \<times> bytes) list \<Rightarrow> Daemon \<Rightarrow> OwnedFrame list \<Rightarrow> OwnedFrame \<Rightarrow> Daemon \<Rightarrow> bool" where
  "stopped qs d0 fs f d \<longleftrightarrow> list_all payload_ok (qs @ map log_entry (fs @ [f]))
     \<and> prefix (wal_handed (dm_wal d)) (log_bytes (numbered 1 (qs @ map log_entry (fs @ [f]))))
     \<and> trade_frames (dm_default_market d0) fs (trading_of d0) = Some (trading_of d)"

lemma handled_same:
  assumes "handled io qs d0 fs d" and "dm_wal d' = dm_wal d" and "same_core d d'" and "dm_snapshot d' = dm_snapshot d"
  shows "handled io qs d0 fs d'"
  using assms by (simp add: handled_def same_core_def same_trading_def trading_of_def)

lemma handled_ingress [simp]: "handled io qs d0 fs (d\<lparr>dm_ingress := p\<rparr>) = handled io qs d0 fs d"
  by (simp add: handled_def trading_of_def)

lemma handler_after_log:
  assumes "log_frame io f d = (off, None, d1)" and "handle_frame io f d = Some (e, d')" and "fh_kind (fr_header f) \<noteq> kHeartbeat"
  shows "dm_wal d' = dm_wal d1" "same_shell d1 d'" "e = None"
proof -
  have "pred_option (\<lambda>(e, d'). dm_wal d' = dm_wal d1 \<and> same_shell d1 d' \<and> e = None) (handle_frame io f d)"
  proof (cases "fh_kind (fr_header f)")
    case kNewOrder
    then show ?thesis by (simp add: handle_frame_def handle_new_order_def assms(1) shell_simps Let_def split: sum.split option.split bind_split)
  next
    case kCancel
    then show ?thesis by (simp add: handle_frame_def handle_cancel_def assms(1) shell_simps Let_def split: sum.split option.split bind_split)
  next
    case kReplace
    then show ?thesis by (simp add: handle_frame_def handle_replace_def assms(1) shell_simps Let_def split: sum.split option.split bind_split)
  qed (use assms(3) in simp)
  then show "dm_wal d' = dm_wal d1" "same_shell d1 d'" "e = None" by (simp_all add: assms(2))
qed

lemma handle_frame_any:
  assumes "handled io qs d0 fs d" and "fh_kind (fr_header f) \<noteq> kHeartbeat" and "length (fr_payload f) < 2 ^ 16"
  obtains (handled) d' where "handle_frame io f d = Some (None, d')" "handled io qs d0 (fs @ [f]) d'" "dm_ingress d' = dm_ingress d"
  | (stopped) d' where "handle_frame io f d = Some (Some write_failed, d')" "stopped qs d0 fs f d'"
proof -
  let ?log = "qs @ map log_entry fs" and ?m = "dm_default_market d0"
  have h: "list_all payload_ok ?log" "engine_reachable (dm_matcher d)" "wal_total (dm_wal d) = log_bytes (numbered 1 ?log)"
      "ww_next_sequence (dm_wal d) = 1 + of_nat (length ?log)" "dm_default_market d = ?m"
      "trade_frames ?m fs (trading_of d0) = Some (trading_of d)"
    using assms(1) by (simp_all add: handled_def)
  have ok: "list_all payload_ok (qs @ map log_entry (fs @ [f]))" using h(1) log_entry_ok [OF assms(3)] by simp
  have n: "log_bytes (numbered 1 (qs @ map log_entry (fs @ [f])))
      = wal_total (dm_wal d) @ record_bytes (wal_record (ww_next_sequence (dm_wal d)) 0 (build_wal_payload f))"
    using h(3,4) by (simp add: numbered_append log_entry_def [of f] add.assoc)
  obtain e w where w: "wal_append (di_log io) 0 (build_wal_payload f) (dm_wal d) = (e, w)" by (metis surj_pair)
  note any = wal_append_any [OF w]
  show thesis
  proof (cases e)
    case None
    then obtain d1 where l: "log_frame io f d = (ww_next_sequence (dm_wal d), None, d1)" "dm_wal d1 = w"
      using w by (auto simp: log_frame_def append_ingress_wal_record_def)
    obtain t where t: "trade_frame ?m f (trading_of d) = Some t" "engine_reachable (fst t)"
      using trade_frame_returns [OF h(2) assms(2)] h(5) by auto
    with handle_frame_trades [OF assms(2) l(1)] h(5) obtain d' where d': "handle_frame io f d = Some (None, d')" "t = trading_of d'" by auto
    note after = handler_after_log [OF l(1) d'(1) assms(2)]
    have "same_shell d d'" using same_shell_trans [OF log_frame_trading(2) [OF l(1)] after(2)] .
    moreover have "stores_all (di_log io) \<longrightarrow> ww_stream w = []" using any(4) [OF None] assms(1) by (simp add: handled_def)
    ultimately have "handled io qs d0 (fs @ [f]) d'"
      using assms(1) ok n any(2) any(3) [OF None] after(1) l(2) t d'(2) h(4,6)
      by (simp add: handled_def same_shell_def trade_frames_append trading_of_def)
    moreover have "dm_ingress d' = dm_ingress d" using \<open>same_shell d d'\<close> by (simp add: same_shell_def)
    ultimately show thesis using that(1) [OF d'(1)] by blast
  next
    case (Some x)
    then have x: "x = write_failed" using w by (auto simp: wal_append_def wal_flush_def Let_def split: if_splits)
    have l: "log_frame io f d = (ww_next_sequence (dm_wal d), Some x, d\<lparr>dm_wal := w\<rparr>)"
      using w Some by (simp add: log_frame_def append_ingress_wal_record_def)
    have "stopped qs d0 fs f (d\<lparr>dm_wal := w\<rparr>)"
      using ok n any(1) h(6) by (simp add: stopped_def trading_of_def)
    then show thesis using that(2) handle_frame_log_error(1) [OF assms(2) l] x by simp
  qed
qed

section \<open>Lanes and iterations\<close>

text \<open>The frames \<open>gs\<close> in the queue have been handled, or the daemon has stopped at one of them.\<close>

inductive stopped_in :: "(u16 \<times> bytes) list \<Rightarrow> Daemon \<Rightarrow> OwnedFrame list \<Rightarrow> OwnedFrame list \<Rightarrow> Daemon \<Rightarrow> bool" where
  at: "stopped qs d0 (fs @ hs) f d \<Longrightarrow> stopped_in qs d0 fs (hs @ f # rest) d"

lemma stopped_in_more: "stopped_in qs d0 fs gs d \<Longrightarrow> stopped_in qs d0 fs (gs @ gs') d"
  by (auto elim!: stopped_in.cases intro: stopped_in.at)

lemma stopped_in_later:
  assumes "stopped_in qs d0 (fs @ gs) gs' d" shows "stopped_in qs d0 fs (gs @ gs') d"
  using assms
proof cases
  case (at hs f rest)
  then show ?thesis using stopped_in.at [of qs d0 fs "gs @ hs" f d rest] by simp
qed

lemma process_lane_any:
  assumes "ingress_rep (dm_ingress d) s" and "lanes_ok s" and "k \<noteq> kHeartbeat" and "is_lane s k = gs" and "handled io qs d0 fs d"
  shows "(\<exists>d1. process_lane (lane_next k) (lane_handler io k) n d = Some (None, n + of_nat (length gs), d1)
            \<and> ingress_rep (dm_ingress d1) (emptied k s) \<and> handled io qs d0 (fs @ gs) d1)
     \<or> (\<exists>m d1. process_lane (lane_next k) (lane_handler io k) n d = Some (Some write_failed, m, d1) \<and> stopped_in qs d0 fs gs d1)"
  using assms
proof (induction gs arbitrary: d s fs n)
  case Nil
  then obtain p where "lane_next k (dm_ingress d) = Some (None, p)" "ingress_rep p (emptied k s)"
    using lane_next_rep [OF Nil.prems(1,3)] by (auto simp: spec_next_simps)
  then show ?case using Nil.prems(5) by (subst process_lane.simps, subst (2) process_lane.simps) simp
next
  case (Cons f gs)
  let ?s = "s\<lparr>is_lane := (is_lane s)(k := gs)\<rparr>"
  obtain p where p: "lane_next k (dm_ingress d) = Some (Some f, p)" "ingress_rep p ?s"
    using lane_next_rep [OF Cons.prems(1,3)] by (auto simp: spec_next_simps(2) [OF Cons.prems(4)])
  have f: "fh_kind (fr_header f) = k" "length (fr_payload f) < 2 ^ 16" using Cons.prems(2,4)
    by (metis lanes_ok_def list.set_intros(1))+
  have step: "process_lane (lane_next k) (lane_handler io k) n d = Option.bind (handle_frame io f (d\<lparr>dm_ingress := p\<rparr>))
      (\<lambda>(e, d1). if e \<noteq> None then Some (e, n + 1, d1) else process_lane (lane_next k) (lane_handler io k) (n + 1) d1)"
    by (subst process_lane.simps) (simp add: p(1) lane_handler_frame [OF f(1)])
  have "handled io qs d0 fs (d\<lparr>dm_ingress := p\<rparr>)" "fh_kind (fr_header f) \<noteq> kHeartbeat" using Cons.prems(3,5) f(1) by simp_all
  then consider (handled) d1 where "handle_frame io f (d\<lparr>dm_ingress := p\<rparr>) = Some (None, d1)" "handled io qs d0 (fs @ [f]) d1" "dm_ingress d1 = p"
    | (stopped) d1 where "handle_frame io f (d\<lparr>dm_ingress := p\<rparr>) = Some (Some write_failed, d1)" "stopped qs d0 fs f d1"
    by (rule handle_frame_any [OF _ _ f(2)]) simp_all
  then show ?case
  proof cases
    case (handled d1)
    have "lanes_ok ?s" using lanes_ok_sub [OF Cons.prems(2) Cons.prems(3)] Cons.prems(4) by auto
    moreover have "ingress_rep (dm_ingress d1) ?s" "is_lane ?s k = gs" using handled(3) p(2) by simp_all
    moreover have "emptied k ?s = emptied k s" by (simp add: emptied_def)
    ultimately show ?thesis
      using Cons.IH [of d1 ?s "fs @ [f]" "n + 1"] Cons.prems(3) handled(1,2) stopped_in_later [of qs d0 fs "[f]" gs]
      by (auto simp: step ac_simps)
  next
    case (stopped d1)
    then have "stopped_in qs d0 fs (f # gs) d1" using stopped_in.at [of qs d0 fs "[]" f d1 gs] by simp
    then show ?thesis using stopped(1) by (auto simp: step)
  qed
qed

lemma process_lanes_any:
  assumes "ingress_rep (dm_ingress d) s" and "lanes_ok s" and "distinct ks" and "kHeartbeat \<notin> set ks" and "handled io qs d0 fs d"
  defines "gs \<equiv> concat (map (is_lane s) ks)"
  shows "(\<exists>d1. process_lanes io ks d = Some (None, of_nat (length gs), d1)
            \<and> ingress_rep (dm_ingress d1) (fold emptied ks s) \<and> handled io qs d0 (fs @ gs) d1)
     \<or> (\<exists>m d1. process_lanes io ks d = Some (Some write_failed, m, d1) \<and> stopped_in qs d0 fs gs d1)"
  using assms(1-5) unfolding gs_def
proof (induction ks arbitrary: d s fs)
  case (Cons k ks)
  have k: "k \<noteq> kHeartbeat" using Cons.prems(4) by auto
  have same: "map (is_lane (emptied k s)) ks = map (is_lane s) ks" using Cons.prems(3) by (auto simp: emptied_def)
  consider (finished) d1 where "process_kind io k d = Some (None, of_nat (length (is_lane s k)), d1)"
      "ingress_rep (dm_ingress d1) (emptied k s)" "handled io qs d0 (fs @ is_lane s k) d1"
    | (stop) m d1 where "process_kind io k d = Some (Some write_failed, m, d1)" "stopped_in qs d0 fs (is_lane s k) d1"
    using process_lane_any [OF Cons.prems(1,2) k refl Cons.prems(5), of 0] process_kind_lane [OF k] by auto
  then show ?case
  proof cases
    case finished
    from Cons.IH [OF finished(2) lanes_ok_emptied [OF Cons.prems(2)] _ _ finished(3)] Cons.prems(3,4) finished(1)
    show ?thesis unfolding same by (auto dest: stopped_in_later)
  next
    case stop
    then show ?thesis using stopped_in_more by auto
  qed
qed simp

lemma advance_block_any:
  assumes "advance_block io n d = (e, d')" and "handled io qs d0 fs d"
  shows "handled io qs d0 fs d'" "dm_ingress d' = dm_ingress d" "e = None \<or> (\<exists>x \<in> set (snapshot_errors (ss_file_path (dm_snapshot d0))). e = Some x)"
proof -
  have same: "dm_wal d' = dm_wal d \<and> same_core d d' \<and> dm_snapshot d' = dm_snapshot d \<and> dm_ingress d' = dm_ingress d"
    using assms(1)
    by (auto simp: advance_block_def same_core_def same_trading_def Let_def split: if_splits prod.splits Ending.splits)
  then show "handled io qs d0 fs d'" "dm_ingress d' = dm_ingress d" using handled_same [OF assms(2)] by simp_all
  have "dm_snapshot d = dm_snapshot d0" using assms(2) by (simp add: handled_def)
  then show "e = None \<or> (\<exists>x \<in> set (snapshot_errors (ss_file_path (dm_snapshot d0))). e = Some x)"
    using assms(1) by (auto simp: advance_block_def Let_def split: if_splits prod.splits Ending.splits dest!: persist_io_threw)
qed

text \<open>How an operation of the event loop ends: normally or with the exception of a snapshot, or stopped at a frame.\<close>

definition snapshot_error :: "Daemon \<Rightarrow> string option \<Rightarrow> bool" where
  "snapshot_error d0 e \<longleftrightarrow> (\<exists>x \<in> set (snapshot_errors (ss_file_path (dm_snapshot d0))). e = Some x)"

lemma event_loop_iteration_any:
  assumes "ingress_rep (dm_ingress d) s" and "lanes_ok s" and "evaluation_order ks" and "handled io qs d0 fs d"
  defines "gs \<equiv> concat (map (is_lane s) ks)"
  shows "(\<exists>e d1. event_loop_iteration io now ks d = Some (e, d1) \<and> (e = None \<or> snapshot_error d0 e)
            \<and> ingress_rep (dm_ingress d1) (fold emptied ks s) \<and> handled io qs d0 (fs @ gs) d1)
     \<or> (\<exists>d1. event_loop_iteration io now ks d = Some (Some write_failed, d1) \<and> stopped_in qs d0 fs gs d1)"
  using process_lanes_any [OF assms(1,2) evaluation_order_facts(1,2) [OF assms(3)] assms(4)]
proof (elim disjE exE conjE)
  fix d1
  assume d1: "process_lanes io ks d = Some (None, of_nat (length (concat (map (is_lane s) ks))), d1)"
    "ingress_rep (dm_ingress d1) (fold emptied ks s)" "handled io qs d0 (fs @ concat (map (is_lane s) ks)) d1"
  obtain e d2 where d2: "advance_block io (of_nat (length gs)) d1 = (e, d2)" by (metis surj_pair)
  note any = advance_block_any [OF d2 d1(3)]
  let ?d = "if e = None then report_status now d2 else d2"
  have "event_loop_iteration io now ks d = Some (e, ?d)"
    using d1(1) d2 by (simp add: event_loop_iteration_def gs_def split: option.split)
  moreover have "handled io qs d0 (fs @ gs) ?d" "dm_ingress ?d = dm_ingress d2"
    using any(1) by (auto simp: gs_def report_status_def handled_def trading_of_def Let_def split: prod.splits)
  ultimately show ?thesis using any(2,3) d1(2) by (auto simp: snapshot_error_def)
qed (auto simp: event_loop_iteration_def gs_def)

section \<open>Runs\<close>

lemma on_datagram_any:
  assumes "ingress_rep (dm_ingress d) s" and "lanes_ok s" and "handled io qs d0 fs d"
  shows "\<exists>s' d1. on_datagram now key data d = Some d1 \<and> ingress_rep (dm_ingress d1) s' \<and> lanes_ok s' \<and> handled io qs d0 fs d1
     \<and> (\<forall>k. is_lane s' k = is_lane s k @ filter (is_kind k) (accepted_frame now key data d))"
proof -
  obtain fr t where r: "receive_datagram now key data (qt_transport (dm_transport d)) = (fr, t)" by (metis surj_pair)
  let ?d1 = "d\<lparr>dm_transport := (dm_transport d)\<lparr>qt_transport := t\<rparr>\<rparr>"
  have h: "handled io qs d0 fs ?d1" using assms(3) by (simp add: handled_def trading_of_def)
  show ?thesis
  proof (cases fr)
    case None
    then show ?thesis using r h assms(1,2) by (auto simp: on_datagram_def accepted_frame_def)
  next
    case (Some f)
    have small: "length (fr_payload f) < 2 ^ 16" using received_payload [of now key data "qt_transport (dm_transport d)" f] r Some by simp
    obtain p where p: "ingress_submit f (dm_ingress d) = Some (fst (spec_submit f s), p)" "ingress_rep p (snd (spec_submit f s))"
      using ingress_submit_rep [OF assms(1)] by blast
    note lanes = spec_submit_lanes [OF assms(2) small]
    have "is_lane (snd (spec_submit f s)) k = is_lane s k @ filter (is_kind k) (accepted_frame now key data d)" for k
      using r Some p(1) by (auto simp: accepted_frame_def is_kind_def lanes(2) split: bool.splits)
    with r Some p h lanes(1) show ?thesis
      by (intro exI [of _ "snd (spec_submit f s)"] exI [of _ "?d1\<lparr>dm_ingress := p\<rparr>"]) (simp add: on_datagram_def)
  qed
qed

text \<open>In each lane, the frames \<open>hs\<close> are the first of those that were queued or have been accepted.\<close>

definition first_of_lanes :: "IngressSpec \<Rightarrow> OwnedFrame list \<Rightarrow> OwnedFrame list \<Rightarrow> bool" where
  "first_of_lanes s acc hs \<longleftrightarrow> (\<forall>k. prefix (filter (is_kind k) hs) (is_lane s k @ filter (is_kind k) acc))"

lemma queue_by_kind:
  assumes "lanes_ok s" and "evaluation_order ks"
  shows "is_lane s k = filter (is_kind k) (concat (map (is_lane s) ks)) @ is_lane (fold emptied ks s) k"
  by (simp add: lanes_by_kind [OF assms(1) evaluation_order_facts(1) [OF assms(2)]] fold_emptied_lane)

lemma first_of_queue:
  assumes "lanes_ok s" and "evaluation_order ks" and "prefix hs (concat (map (is_lane s) ks))"
  shows "first_of_lanes s acc hs"
proof -
  have "prefix (filter (is_kind k) hs) (is_lane s k)" for k
    using assms(3) by (subst queue_by_kind [OF assms(1,2)]) (auto simp: prefix_def)
  then show ?thesis by (auto simp: first_of_lanes_def intro: prefix_prefix)
qed

lemma first_of_lanes_iteration:
  assumes "lanes_ok s" and "evaluation_order ks" and "first_of_lanes (fold emptied ks s) acc hs"
  shows "first_of_lanes s acc (concat (map (is_lane s) ks) @ hs)"
proof -
  have "prefix (filter (is_kind k) (concat (map (is_lane s) ks) @ hs)) (is_lane s k @ filter (is_kind k) acc)" for k
    using assms(3) by (subst queue_by_kind [OF assms(1,2)]) (simp add: first_of_lanes_def)
  then show ?thesis by (simp add: first_of_lanes_def)
qed

text \<open>
  Every run returns. It has handled the first of the accepted frames and has ended normally or with the
  exception of a snapshot; or it has stopped at the frame after them.
\<close>

definition run_outcome :: "DaemonIo \<Rightarrow> (u16 \<times> bytes) list \<Rightarrow> Daemon \<Rightarrow> OwnedFrame list \<Rightarrow> string option \<Rightarrow> Daemon \<Rightarrow> bool" where
  "run_outcome io qs d0 hs e d \<longleftrightarrow> (e = None \<or> snapshot_error d0 e) \<and> handled io qs d0 hs d
     \<or> e = Some write_failed \<and> (\<exists>f. stopped qs d0 hs f d)"

lemma run_daemon_any:
  assumes "ingress_rep (dm_ingress d) s" and "lanes_ok s" and "handled io qs d0 fs d" and "list_all daemon_op_ok ops"
  shows "\<exists>acc e d' hs. run_daemon io ops d = Some (acc, e, d') \<and> first_of_lanes s acc hs \<and> run_outcome io qs d0 (fs @ hs) e d'"
  using assms
proof (induction ops arbitrary: d s fs)
  case Nil
  then show ?case by (intro exI [of _ "[]"] exI [of _ None] exI [of _ d]) (simp add: run_outcome_def first_of_lanes_def)
next
  case (Cons op ops)
  show ?case
  proof (cases op)
    case (Datagram now key data)
    obtain s1 d1 where d1: "on_datagram now key data d = Some d1" "ingress_rep (dm_ingress d1) s1" "lanes_ok s1" "handled io qs d0 fs d1"
        "\<forall>k. is_lane s1 k = is_lane s k @ filter (is_kind k) (accepted_frame now key data d)"
      using on_datagram_any [OF Cons.prems(1-3)] by blast
    with Cons.IH [OF d1(2-4)] Cons.prems(4) show ?thesis by (fastforce simp: Datagram first_of_lanes_def)
  next
    case (Iteration now ks)
    let ?gs = "concat (map (is_lane s) ks)"
    have ks: "evaluation_order ks" using Cons.prems(4) Iteration by simp
    from event_loop_iteration_any [OF Cons.prems(1,2) ks Cons.prems(3), of now]
    consider (ends) d1 x where "event_loop_iteration io now ks d = Some (Some x, d1)" "snapshot_error d0 (Some x)" "handled io qs d0 (fs @ ?gs) d1"
      | (goes) d1 where "event_loop_iteration io now ks d = Some (None, d1)" "ingress_rep (dm_ingress d1) (fold emptied ks s)" "handled io qs d0 (fs @ ?gs) d1"
      | (stops) d1 where "event_loop_iteration io now ks d = Some (Some write_failed, d1)" "stopped_in qs d0 fs ?gs d1"
      by (auto simp: snapshot_error_def)
    then show ?thesis
    proof cases
      case ends
      then have "run_outcome io qs d0 (fs @ ?gs) (Some x) d1" by (simp add: run_outcome_def)
      with ends(1) first_of_queue [OF Cons.prems(2) ks, of ?gs "[]"] show ?thesis
        by (intro exI [of _ "[]"] exI [of _ "Some x"] exI [of _ d1] exI [of _ ?gs]) (simp add: Iteration)
    next
      case goes
      from Cons.IH [OF goes(2) fold_emptied_ok [OF Cons.prems(2)] goes(3)] Cons.prems(4) obtain acc e d' hs where
        "run_daemon io ops d1 = Some (acc, e, d')" "first_of_lanes (fold emptied ks s) acc hs" "run_outcome io qs d0 ((fs @ ?gs) @ hs) e d'" by auto
      with goes(1) first_of_lanes_iteration [OF Cons.prems(2) ks] show ?thesis
        by (intro exI [of _ acc] exI [of _ e] exI [of _ d'] exI [of _ "?gs @ hs"]) (simp add: Iteration)
    next
      case stops
      from stops(2) obtain hs f rest where at: "?gs = hs @ f # rest" "stopped qs d0 (fs @ hs) f d1" by (auto elim: stopped_in.cases)
      with stops(1) first_of_queue [OF Cons.prems(2) ks, of hs "[]"] show ?thesis
        by (intro exI [of _ "[]"] exI [of _ "Some write_failed"] exI [of _ d1] exI [of _ hs]) (auto simp: Iteration run_outcome_def)
    qed
  qed
qed

lemma boot_handled:
  assumes "load_config args env = Inr cfg" and "boot env cfg = Inr d" and "prior_files env cfg qs ps"
  obtains ver where "ingress_rep (dm_ingress d) (fresh_spec (ingress_config cfg) ver)" "lanes_ok (fresh_spec (ingress_config cfg) ver)"
    "handled io qs d [] d"
proof -
  obtain ver where "daemon_ok (fresh_spec (ingress_config cfg) ver) qs ps d" using boot_ok [OF assms(1-3)] by blast
  then show thesis by (intro that [of ver]) (auto simp: daemon_ok_def handled_def logs_def wal_bytes_def wal_total_def wal_handed_def)
qed

lemma boot_run:
  assumes "load_config args env = Inr cfg" and "boot env cfg = Inr d" and "prior_files env cfg qs ps" and "list_all daemon_op_ok ops"
  obtains acc e d' hs where "run_daemon io ops d = Some (acc, e, d')" "run_outcome io qs d hs e d'"
    "\<forall>k. prefix (filter (is_kind k) hs) (filter (is_kind k) acc)"
proof -
  obtain ver where ok: "ingress_rep (dm_ingress d) (fresh_spec (ingress_config cfg) ver)" "lanes_ok (fresh_spec (ingress_config cfg) ver)"
      "handled io qs d [] d" by (rule boot_handled [OF assms(1-3), of io])
  from run_daemon_any [OF ok assms(4)] that show thesis by (auto simp: first_of_lanes_def fresh_spec_def)
qed

text \<open>What has been handed to the log, cut off anywhere, reads back as a prefix of the records.\<close>

lemma read_handed:
  assumes "list_all payload_ok qs" and "prefix (wal_handed w) (log_bytes (numbered 1 qs))"
  shows "\<exists>k e'. read_all (open_reader (take n (ww_file w @ ww_stream w))) = (take k (numbered 1 qs), e') \<and> e' \<in> {None, Some ''truncated WAL record''}"
  using read_cut_prefix [OF assms(1), of "ww_file w @ ww_stream w"] assms(2) by (simp add: wal_handed_def)

lemma handled_prefix: "handled io qs d0 fs d \<Longrightarrow> prefix (wal_handed (dm_wal d)) (log_bytes (numbered 1 (qs @ map log_entry fs)))"
  unfolding handled_def wal_total_def by (metis prefix_def)


text \<open>The machine of the sample, on a full disk.\<close>

definition full_disk :: DaemonIo where
  "full_disk = \<lparr>di_log = \<lparr>st_fwrite = (\<lambda>_. 0), st_fflush = (\<lambda>_. 0)\<rparr>, di_snapshot = (\<lambda>_. no_faults\<lparr>sf_at := (\<lambda>_. Some 0)\<rparr>)\<rparr>"


end
