(* ===== verification/Daemon_Main.thy ===== *)
theory Daemon_Main
  imports Daemon_Failures
begin

text \<open>
  The whole program: the \<open>main\<close> function from its arguments to its exit code. What happens between the
  start and the signal that ends the event loop is a sequence of datagrams and iterations.
\<close>

datatype Outcome = ExitCode int | Uncaught string

text \<open>The errors of the start-up for which \<open>main\<close> returns 1; the others are exceptions that nothing catches.\<close>

definition reported_error :: "string \<Rightarrow> bool" where
  "reported_error e \<longleftrightarrow> e = ''failed to start transport'' \<or> e = ''invalid MONMOUTH_CHAIN_ID''"

definition tradecored ::
  "DaemonIo \<Rightarrow> bool \<Rightarrow> DaemonOp list \<Rightarrow> string list \<Rightarrow> Environment \<Rightarrow> (Outcome \<times> Daemon option) option" where
  "tradecored io fsync_ok ops args env =
     (case load_config args env of
        Inl e \<Rightarrow> Some (ExitCode 1, None)
      | Inr cfg \<Rightarrow>
          (case boot env cfg of
             Inl e \<Rightarrow> Some (if reported_error e then ExitCode 1 else Uncaught e, None)
           | Inr d \<Rightarrow> do {
               (acc, e, d1) \<leftarrow> run_daemon io ops d;
               case e of
                 Some msg \<Rightarrow> Some (Uncaught msg, Some d1)
               | None \<Rightarrow>
                   (case shutdown io fsync_ok d1 of
                      (Some msg, d2) \<Rightarrow> Some (Uncaught msg, Some d2)
                    | (None, d2) \<Rightarrow> Some (ExitCode 0, Some d2))
             }))"

lemma shutdown_error:
  assumes "shutdown io fsync_ok d = (Some e, d')"
  shows "e \<in> {''failed to write WAL buffer'', ''fsync failed''}"
  using assms by (auto simp: shutdown_def wal_sync_def wal_flush_def Let_def split: if_splits prod.splits option.splits)

text \<open>A shutdown that does not throw has handed everything to the log.\<close>

lemma shutdown_handed:
  assumes "shutdown io fsync_ok d = (None, d')" and "handled io qs d0 fs d"
  shows "ww_file (dm_wal d') @ ww_stream (dm_wal d') = log_bytes (numbered 1 (qs @ map log_entry fs))"
    "stores_all (di_log io) \<Longrightarrow> ww_stream (dm_wal d') = []" "trading_of d' = trading_of d"
proof -
  obtain e w where w: "wal_flush (di_log io) (dm_wal d) = (e, w)" by (metis surj_pair)
  with assms(1) have e: "e = None" "dm_wal d' = w" and t: "trading_of d' = trading_of d"
    by (auto simp: shutdown_def wal_sync_def trading_of_def split: option.splits if_splits)
  note any = wal_flush_any [OF w]
  show "ww_file (dm_wal d') @ ww_stream (dm_wal d') = log_bytes (numbered 1 (qs @ map log_entry fs))"
    using any(3) e assms(2) by (auto simp: handled_def wal_total_def wal_handed_def)
  show "stores_all (di_log io) \<Longrightarrow> ww_stream (dm_wal d') = []" using any(4) e assms(2) by (simp add: handled_def)
  show "trading_of d' = trading_of d" by (rule t)
qed

text \<open>
  A log with which a run has ended: it reads back as what was there before and the handled frames,
  which rebuild the trading state; in each lane the handled frames are the first of the accepted ones.
\<close>

definition complete_log :: "(u16 \<times> bytes) list \<Rightarrow> EngineConfig \<Rightarrow> Daemon \<Rightarrow> OwnedFrame list \<Rightarrow> bytes \<Rightarrow> Daemon \<Rightarrow> bool" where
  "complete_log qs cfg d acc log d' \<longleftrightarrow> (\<exists>fs. read_all (open_reader log) = (numbered 1 (qs @ map log_entry fs), None)
     \<and> (\<forall>k. prefix (filter (is_kind k) fs) (filter (is_kind k) acc))
     \<and> trade_log (dm_default_market d) (numbered (1 + of_nat (length qs)) (map log_entry fs)) (initial_trading cfg) = Some (trading_of d'))"

lemma run_complete:
  assumes "boot env cfg = Inr d" and "prior_files env cfg qs ps" and "handled io qs d hs d1"
    and "\<forall>k. prefix (filter (is_kind k) hs) (filter (is_kind k) acc)" and "shutdown io fsync_ok d1 = (None, d')"
  shows "complete_log qs cfg d acc (ww_file (dm_wal d') @ ww_stream (dm_wal d')) d'"
    "stores_all (di_log io) \<Longrightarrow> complete_log qs cfg d acc (ww_file (dm_wal d')) d'"
proof -
  note sh = shutdown_handed [OF assms(5,3)]
  have "list_all record_ok (numbered 1 (qs @ map log_entry hs))" using assms(3) by (intro numbered_ok) (simp add: handled_def)
  from read_log [OF this]
  show "complete_log qs cfg d acc (ww_file (dm_wal d') @ ww_stream (dm_wal d')) d'"
    using assms(3,4) sh(3) boot_initial_trading [OF assms(1,2)] unfolding sh(1) complete_log_def
    by (intro exI [of _ hs]) (simp add: handled_def trade_log_numbered del: read_all.simps)
  then show "stores_all (di_log io) \<Longrightarrow> complete_log qs cfg d acc (ww_file (dm_wal d')) d'" using sh(2) by simp
qed

text \<open>
  C16. The exit code tells the truth: on the files of earlier runs, whatever the writes, the flushes, the snapshots
  and the final \<open>fsync\<close> do, the program ends. It returns 0 only if it has started, no operation has thrown and
  the log that has been handed to the stream is complete; if moreover \<open>fflush\<close>, whose result the code does not
  look at, has always stored what it was given, the log in the file is complete. It returns 1 only without
  having started, so that the log is as before; and after the start the only exceptions that can end it are
  those of a failed write or \<open>fsync\<close> of the log and those of a snapshot that cannot be persisted.
\<close>

theorem exit_code_sound:
  assumes "\<And>cfg. load_config args env = Inr cfg \<Longrightarrow> prior_files env cfg qs ps" and "list_all daemon_op_ok ops"
  shows "\<exists>out final. tradecored io fsync_ok ops args env = Some (out, final)
     \<and> (out = ExitCode 0 \<longrightarrow> (\<exists>cfg d acc d1 d'. load_config args env = Inr cfg \<and> boot env cfg = Inr d
          \<and> run_daemon io ops d = Some (acc, None, d1) \<and> final = Some d'
          \<and> complete_log qs cfg d acc (ww_file (dm_wal d') @ ww_stream (dm_wal d')) d'
          \<and> ((\<forall>bs. st_fflush (di_log io) bs = length bs) \<longrightarrow> complete_log qs cfg d acc (ww_file (dm_wal d')) d')))
     \<and> (out = ExitCode 1 \<longrightarrow> final = None)
     \<and> (\<forall>d'. final = Some d' \<longrightarrow> out \<in> {ExitCode 0, Uncaught ''failed to write WAL buffer'', Uncaught ''fsync failed''}
          \<or> (\<exists>cfg d x. load_config args env = Inr cfg \<and> boot env cfg = Inr d
               \<and> x \<in> set (snapshot_errors (ss_file_path (dm_snapshot d))) \<and> out = Uncaught x))"
proof (cases "load_config args env")
  case (Inl e)
  then show ?thesis by (simp add: tradecored_def)
next
  case (Inr cfg)
  note cfg = this assms(1) [OF this]
  show ?thesis
  proof (cases "boot env cfg")
    case (Inl e)
    then show ?thesis using cfg(1) by (simp add: tradecored_def)
  next
    case (Inr d)
    obtain acc e d1 hs where run: "run_daemon io ops d = Some (acc, e, d1)" "run_outcome io qs d hs e d1"
        "\<forall>k. prefix (filter (is_kind k) hs) (filter (is_kind k) acc)"
      by (rule boot_run [OF cfg(1) Inr cfg(2) assms(2), of io])
    obtain e2 d2 where sh: "shutdown io fsync_ok d1 = (e2, d2)" by (metis surj_pair)
    consider (log) "e = Some write_failed" | (snapshot) "snapshot_error d e" | (sync) x where "e = None" "e2 = Some x"
      | (normal) "e = None" "e2 = None" "handled io qs d hs d1" using run(2) by (cases e2) (auto simp: run_outcome_def)
    then show ?thesis
    proof cases
      case log
      then show ?thesis using cfg(1) Inr run(1) by (simp add: tradecored_def)
    next
      case snapshot
      then show ?thesis using cfg(1) Inr run(1) by (auto simp: tradecored_def snapshot_error_def)
    next
      case (sync x)
      then show ?thesis using cfg(1) Inr run(1) sh shutdown_error [of io fsync_ok d1 x d2] by (auto simp: tradecored_def)
    next
      case normal
      then have "shutdown io fsync_ok d1 = (None, d2)" using sh by simp
      note complete = run_complete [OF Inr cfg(2) normal(3) run(3) this]
      from normal have "tradecored io fsync_ok ops args env = Some (ExitCode 0, Some d2)" using cfg(1) Inr run(1) sh by (simp add: tradecored_def)
      with complete cfg(1) Inr run(1) normal(1) show ?thesis by (auto simp: stores_all_def)
    qed
  qed
qed

text \<open>The machine of the sample: an order arrives, an iteration, and the signal.\<close>

theorem exit_code_sound_witness:
  "\<exists>cfg d acc d1 d'. tradecored full_io True [Datagram 0 7 (wire_bytes 0 sample_order_frame), Iteration 5 [kCancel, kNewOrder, kReplace]]
       [''tradecore.toml''] sample_environment = Some (ExitCode 0, Some d')
     \<and> boot sample_environment cfg = Inr d \<and> run_daemon full_io [Datagram 0 7 (wire_bytes 0 sample_order_frame), Iteration 5 [kCancel, kNewOrder, kReplace]] d
         = Some (acc, None, d1) \<and> complete_log [] cfg d acc (ww_file (dm_wal d')) d'"
proof -
  let ?ops = "[Datagram 0 7 (wire_bytes 0 sample_order_frame), Iteration 5 [kCancel, kNewOrder, kReplace]]"
  have ops: "list_all daemon_op_ok ?ops" by (simp add: evaluation_order_def)
  obtain d where d: "boot sample_environment sample_config = Inr d" using sample_boot by blast
  obtain ver where ok: "daemon_ok (fresh_spec (ingress_config sample_config) ver) [] [] d" using boot_ok [OF sample_load d sample_prior] by blast
  obtain acc d1 where run: "run_daemon full_io ?ops d = Some (acc, None, d1)" using run_daemon_ok [OF ok ops] by blast
  have "ww_stream (dm_wal d1) = []" using run_daemon_ok [OF ok ops] run by (auto simp: run_effect_def daemon_ok_def logs_def)
  then have "fst (shutdown full_io True d1) = None" by (simp add: shutdown_def wal_sync_def wal_flush_full Let_def)
  then obtain d2 where "shutdown full_io True d1 = (None, d2)" by (cases "shutdown full_io True d1") simp
  then have "tradecored full_io True ?ops [''tradecore.toml''] sample_environment = Some (ExitCode 0, Some d2)"
    using d run by (simp add: tradecored_def sample_load del: run_daemon.simps)
  with exit_code_sound [where args = "[''tradecore.toml'']" and io = full_io and fsync_ok = True, OF sample_prior ops]
  show ?thesis by (auto simp del: run_daemon.simps)
qed

end
