(* ===== verification/Daemon_Interleaving.thy ===== *)
theory Daemon_Interleaving
  imports Daemon_Trading
begin

text \<open>
  The receive thread and the event loop, interleaved frame by frame: datagrams arrive between any two pops
  of the event loop, also while it works on a lane. A step of the loop is one test of the current lane with
  the handling of the frame found there, or, when all lanes have been found empty, the end of the
  iteration. The operations of a ring are atomic here, which the theory of the ring justifies.
\<close>

section \<open>Steps of the event loop\<close>

record Loop =
  lp_daemon :: Daemon
  lp_lanes :: "MessageKind list"
  lp_processed :: u64

text \<open>The result: the frame handled, if any, the exception that ends the daemon, and the state.\<close>

definition loop_step :: "DaemonIo \<Rightarrow> int \<Rightarrow> MessageKind list \<Rightarrow> Loop \<Rightarrow> (OwnedFrame list \<times> string option \<times> Loop) option" where
  "loop_step io now order st =
     (let d = lp_daemon st in
      case lp_lanes st of
        [] \<Rightarrow>
          (case advance_block io (lp_processed st) d of
             (Some e, d1) \<Rightarrow> Some ([], Some e, st\<lparr>lp_daemon := d1\<rparr>)
           | (None, d1) \<Rightarrow> Some ([], None, \<lparr>lp_daemon = report_status now d1, lp_lanes = order, lp_processed = 0\<rparr>))
      | k # ks \<Rightarrow> do {
          (out, p) \<leftarrow> lane_next k (dm_ingress d);
          case out of
            None \<Rightarrow> Some ([], None, st\<lparr>lp_daemon := d\<lparr>dm_ingress := p\<rparr>, lp_lanes := ks\<rparr>)
          | Some f \<Rightarrow> do {
              (e, d1) \<leftarrow> lane_handler io k f (d\<lparr>dm_ingress := p\<rparr>);
              Some ([f], e, st\<lparr>lp_daemon := d1, lp_processed := lp_processed st + 1\<rparr>)
            }
        })"

datatype Event = Received int u64 bytes | LoopStep int "MessageKind list"

text \<open>A schedule of both threads: the frames accepted, the frames handled, the exception and the state.\<close>

fun run_events :: "DaemonIo \<Rightarrow> Event list \<Rightarrow> Loop \<Rightarrow> (OwnedFrame list \<times> OwnedFrame list \<times> string option \<times> Loop) option" where
  "run_events io [] st = Some ([], [], None, st)"
| "run_events io (Received now key data # evs) st = do {
     d1 \<leftarrow> on_datagram now key data (lp_daemon st);
     (acc, fs, e, st1) \<leftarrow> run_events io evs (st\<lparr>lp_daemon := d1\<rparr>);
     Some (accepted_frame now key data (lp_daemon st) @ acc, fs, e, st1)
   }"
| "run_events io (LoopStep now order # evs) st = do {
     (f, e, st1) \<leftarrow> loop_step io now order st;
     if e \<noteq> None then Some ([], f, e, st1)
     else do {
       (acc, fs, e2, st2) \<leftarrow> run_events io evs st1;
       Some (acc, f @ fs, e2, st2)
     }
   }"

fun event_ok :: "Event \<Rightarrow> bool" where
  "event_ok (Received now key data) = True"
| "event_ok (LoopStep now order) = evaluation_order order"

lemma run_events_append:
  assumes "run_events io evs st = Some (acc, fs, None, st1)" and "run_events io evs' st1 = Some (acc', fs', e, st2)"
  shows "run_events io (evs @ evs') st = Some (acc @ acc', fs @ fs', e, st2)"
  using assms
proof (induction evs arbitrary: st acc fs)
  case (Cons ev evs)
  then show ?case by (cases ev) (auto split: bind_splits if_splits)
qed simp

section \<open>The invariant\<close>

definition loop_ok :: "IngressSpec \<Rightarrow> (u16 \<times> bytes) list \<Rightarrow> Loop \<Rightarrow> bool" where
  "loop_ok s qs st \<longleftrightarrow> (\<exists>ps. daemon_ok s qs ps (lp_daemon st)) \<and> kHeartbeat \<notin> set (lp_lanes st) \<and> length (lp_lanes st) \<le> 3"

lemma evaluation_order_length: "evaluation_order order \<Longrightarrow> length order = 3"
  using mset_eq_length [of order "[kNewOrder, kCancel, kReplace]"] by (simp add: evaluation_order_def)

text \<open>
  What a schedule has done from lanes \<open>s\<close> and log \<open>qs\<close>: frames leave a lane in the order in which they
  entered it; the handled ones are logged and counted; invariants of the trading state are kept.
\<close>

definition loop_effect :: "IngressSpec \<Rightarrow> (u16 \<times> bytes) list \<Rightarrow> Loop \<Rightarrow> OwnedFrame list \<Rightarrow> OwnedFrame list \<Rightarrow> IngressSpec \<Rightarrow> Loop \<Rightarrow> bool" where
  "loop_effect s qs st acc fs s' st' \<longleftrightarrow> loop_ok s' (qs @ map log_entry fs) st'
     \<and> (\<forall>k. is_lane s k @ filter (is_kind k) acc = filter (is_kind k) fs @ is_lane s' k)
     \<and> keeps (lp_daemon st) fs (lp_daemon st')
     \<and> dm_block_number (lp_daemon st') + lp_processed st' = dm_block_number (lp_daemon st) + lp_processed st + of_nat (length fs)"

lemma loop_effect_trans:
  assumes "loop_effect s qs st acc fs s1 st1" and "loop_effect s1 (qs @ map log_entry fs) st1 acc' fs' s2 st2"
  shows "loop_effect s qs st (acc @ acc') (fs @ fs') s2 st2"
proof -
  have "is_lane s k @ filter (is_kind k) (acc @ acc') = filter (is_kind k) (fs @ fs') @ is_lane s2 k" for k
    using assms unfolding loop_effect_def by (metis append_assoc filter_append)
  moreover have "keeps (lp_daemon st) (fs @ fs') (lp_daemon st2)"
    using assms keeps_trans unfolding loop_effect_def by blast
  ultimately show ?thesis using assms by (simp add: loop_effect_def)
qed

lemma lane_step:
  assumes "loop_ok s qs st" and "lp_lanes st = k # ks"
  obtains (empty) p where "is_lane s k = []" "loop_step full_io now order st = Some ([], None, st\<lparr>lp_daemon := (lp_daemon st)\<lparr>dm_ingress := p\<rparr>, lp_lanes := ks\<rparr>)"
      "loop_effect s qs st [] [] s (st\<lparr>lp_daemon := (lp_daemon st)\<lparr>dm_ingress := p\<rparr>, lp_lanes := ks\<rparr>)"
  | (frame) f fs d' where "is_lane s k = f # fs" "loop_step full_io now order st = Some ([f], None, st\<lparr>lp_daemon := d', lp_processed := lp_processed st + 1\<rparr>)"
      "loop_effect s qs st [] [f] (s\<lparr>is_lane := (is_lane s)(k := fs)\<rparr>) (st\<lparr>lp_daemon := d', lp_processed := lp_processed st + 1\<rparr>)"
proof -
  let ?d = "lp_daemon st"
  obtain ps where ok: "daemon_ok s qs ps ?d" using assms(1) by (auto simp: loop_ok_def)
  have nh: "k \<noteq> kHeartbeat" "kHeartbeat \<notin> set ks" "length ks \<le> 2" using assms by (auto simp: loop_ok_def)
  have inv: "ingress_rep (dm_ingress ?d) s" "lanes_ok s" "engine_reachable (dm_matcher ?d)" "logs qs ?d" using ok by (simp_all add: daemon_ok_def)
  show thesis
  proof (cases "is_lane s k")
    case Nil
    have s: "emptied k s = s" using Nil by (simp add: emptied_def fun_upd_idem)
    obtain p where p: "lane_next k (dm_ingress ?d) = Some (None, p)" "ingress_rep p s"
      using lane_next_rep [OF inv(1) nh(1)] by (auto simp: spec_next_simps(1) [OF Nil] s)
    have "daemon_ok s qs ps (?d\<lparr>dm_ingress := p\<rparr>)" using ok p(2) by (simp add: daemon_ok_def)
    moreover have "same_core ?d (?d\<lparr>dm_ingress := p\<rparr>)" by (simp add: same_core_def same_trading_def)
    ultimately show thesis using Nil p(1) nh(2,3) keeps_core assms(2)
      by (intro empty [of p]) (auto simp: loop_step_def loop_effect_def loop_ok_def)
  next
    case (Cons f fs)
    let ?s = "s\<lparr>is_lane := (is_lane s)(k := fs)\<rparr>"
    obtain p where p: "lane_next k (dm_ingress ?d) = Some (Some f, p)" "ingress_rep p ?s"
      using lane_next_rep [OF inv(1) nh(1)] by (auto simp: spec_next_simps(2) [OF Cons])
    have f: "fh_kind (fr_header f) = k" "length (fr_payload f) < 2 ^ 16" using inv(2) Cons by (metis lanes_ok_def list.set_intros(1))+
    have l: "lanes_ok ?s" using lanes_ok_sub [OF inv(2) nh(1)] Cons by auto
    let ?d1 = "?d\<lparr>dm_ingress := p\<rparr>"
    have reach: "engine_reachable (dm_matcher ?d1)" "logs qs ?d1" using inv by simp_all
    have nhf: "fh_kind (fr_header f) \<noteq> kHeartbeat" using f(1) nh(1) by simp
    obtain d' where d': "handle_frame full_io f ?d1 = Some (None, d')" "engine_reachable (dm_matcher d')"
        "logs (qs @ [log_entry f]) d'" "same_shell ?d1 d'"
      using handle_frame_returns [OF reach nhf] by blast
    have "daemon_ok ?s (qs @ [log_entry f]) ps d'"
      using ok d'(2-4) p(2) l log_entry_ok [OF f(2)] by (simp add: daemon_ok_def same_shell_def)
    moreover have "keeps ?d1 [f] d'" using keeps_frames [OF reach, of "[f]"] nhf d'(1) by simp
    then have "keeps ?d [f] d'"
      using keeps_trans [OF keeps_core [of ?d ?d1]] by (simp add: same_core_def same_trading_def)
    moreover have "filter (is_kind j) [f] @ is_lane ?s j = is_lane s j" for j using f(1) Cons by (simp add: is_kind_def)
    ultimately show thesis
      using Cons p(1) d'(1,4) nh assms(2)
      by (intro frame [of f fs d'])
        (auto simp: loop_step_def loop_effect_def loop_ok_def lane_handler_frame [OF f(1)] same_shell_def simp flip: add.assoc)
  qed
qed

lemma iteration_end:
  assumes "loop_ok s qs st" and "evaluation_order order" and "lp_lanes st = []"
  obtains d' where "advance_block full_io (lp_processed st) (lp_daemon st) = (None, d')"
    "loop_step full_io now order st = Some ([], None, \<lparr>lp_daemon = report_status now d', lp_lanes = order, lp_processed = 0\<rparr>)"
    "loop_effect s qs st [] [] s \<lparr>lp_daemon = report_status now d', lp_lanes = order, lp_processed = 0\<rparr>"
proof -
  obtain ps where ok: "daemon_ok s qs ps (lp_daemon st)" using assms(1) by (auto simp: loop_ok_def)
  have "lp_processed st = of_nat (unat (lp_processed st))" by simp
  with advance_block_ok [OF ok] obtain ps' d' where d': "advance_block full_io (lp_processed st) (lp_daemon st) = (None, d')" "daemon_ok s qs ps' d'"
      "dm_block_number d' = dm_block_number (lp_daemon st) + lp_processed st" "same_core (lp_daemon st) d'" by metis
  show thesis
  proof (rule that [OF d'(1)])
    show "loop_effect s qs st [] [] s \<lparr>lp_daemon = report_status now d', lp_lanes = order, lp_processed = 0\<rparr>"
      using d'(2-4) evaluation_order_facts(2) [OF assms(2)] evaluation_order_length [OF assms(2)] keeps_core [of "lp_daemon st" "report_status now d'"]
      by (auto simp: loop_effect_def loop_ok_def report_status_ok)
  qed (simp add: loop_step_def assms(3) d'(1))
qed

lemma loop_step_ok:
  assumes "loop_ok s qs st" and "evaluation_order order"
  shows "\<exists>fs s' st'. loop_step full_io now order st = Some (fs, None, st') \<and> loop_effect s qs st [] fs s' st'"
proof (cases "lp_lanes st")
  case Nil
  show ?thesis by (rule iteration_end [OF assms Nil, of now]) blast
next
  case (Cons k ks)
  show ?thesis by (rule lane_step [OF assms(1) Cons, of now order]) blast+
qed

lemma received_effect:
  assumes "loop_ok s qs st"
  shows "\<exists>s' d'. on_datagram now key data (lp_daemon st) = Some d'
     \<and> loop_effect s qs st (accepted_frame now key data (lp_daemon st)) [] s' (st\<lparr>lp_daemon := d'\<rparr>)"
proof -
  obtain ps where "daemon_ok s qs ps (lp_daemon st)" using assms by (auto simp: loop_ok_def)
  from on_datagram_ok [OF this] assms show ?thesis
    by (fastforce simp: loop_effect_def loop_ok_def intro: keeps_core)
qed

lemma run_events_ok:
  assumes "loop_ok s qs st" and "list_all event_ok evs"
  shows "\<exists>acc fs s' st'. run_events full_io evs st = Some (acc, fs, None, st') \<and> loop_effect s qs st acc fs s' st'"
  using assms
proof (induction evs arbitrary: s qs st)
  case Nil
  then show ?case by (auto simp: loop_effect_def keeps_def)
next
  case (Cons ev evs)
  show ?case
  proof (cases ev)
    case (Received now key data)
    obtain s1 d1 where d1: "on_datagram now key data (lp_daemon st) = Some d1"
        "loop_effect s qs st (accepted_frame now key data (lp_daemon st)) [] s1 (st\<lparr>lp_daemon := d1\<rparr>)"
      using received_effect [OF Cons.prems(1)] by blast
    then have "loop_ok s1 qs (st\<lparr>lp_daemon := d1\<rparr>)" by (simp add: loop_effect_def)
    from Cons.IH [OF this] Cons.prems(2) obtain acc fs s' st' where
      r: "run_events full_io evs (st\<lparr>lp_daemon := d1\<rparr>) = Some (acc, fs, None, st')" "loop_effect s1 qs (st\<lparr>lp_daemon := d1\<rparr>) acc fs s' st'" by auto
    with loop_effect_trans [OF d1(2), of acc fs s' st'] d1(1) show ?thesis by (auto simp: Received)
  next
    case (LoopStep now order)
    obtain f s1 st1 where st1: "loop_step full_io now order st = Some (f, None, st1)" "loop_effect s qs st [] f s1 st1"
      using loop_step_ok [OF Cons.prems(1)] Cons.prems(2) LoopStep by fastforce
    then have "loop_ok s1 (qs @ map log_entry f) st1" by (simp add: loop_effect_def)
    from Cons.IH [OF this] Cons.prems(2) obtain acc fs s' st' where
      r: "run_events full_io evs st1 = Some (acc, fs, None, st')" "loop_effect s1 (qs @ map log_entry f) st1 acc fs s' st'" by auto
    with loop_effect_trans [OF st1(2) r(2)] st1(1) show ?thesis by (auto simp: LoopStep)
  qed
qed

section \<open>The rest of an iteration\<close>

lemma process_lane_shift:
  assumes "process_lane nxt h n d = Some (e, c, d')"
  shows "process_lane nxt h (n + m) d = Some (e, c + m, d')"
proof -
  have "process_lane nxt h (n + m) d = Some (case r of (e, c, d') \<Rightarrow> (e, c + m, d'))" if "process_lane nxt h n d = Some r" for r
  proof (rule process_lane.raw_induct [OF _ that], goal_cases)
    case (1 rec nxt h n d r)
    from 1(2) obtain out p where p: "nxt (dm_ingress d) = Some (out, p)" by (auto simp: bind_eq_Some_conv)
    show ?case
    proof (cases out)
      case None
      with 1(2) p show ?thesis by (subst process_lane.simps) auto
    next
      case (Some f)
      with 1(2) p obtain e d1 where d1: "h f (d\<lparr>dm_ingress := p\<rparr>) = Some (e, d1)" by (auto simp: bind_eq_Some_conv)
      show ?thesis
      proof (cases e)
        case None
        with 1(2) p Some d1 have "rec nxt h (n + 1) d1 = Some r" by simp
        from 1(1) [OF this] show ?thesis using p Some d1 None by (subst process_lane.simps) (simp add: add_ac)
      next
        case (Some x)
        with 1(2) p \<open>out = Some f\<close> d1 show ?thesis by (subst process_lane.simps) (auto simp: add_ac)
      qed
    qed
  qed
  from this [OF assms] show ?thesis by simp
qed

text \<open>
  Without datagrams the loop runs to the end of its iteration: the number of steps is that of the frames in
  the lanes still to come and of these lanes, and the steps do what the loops over the lanes do.
\<close>

lemma process_lanes_frame:
  assumes "lane_next k (dm_ingress d) = Some (Some f, p)" and "lane_handler full_io k f (d\<lparr>dm_ingress := p\<rparr>) = Some (None, d1)"
    and "k \<noteq> kHeartbeat" and "process_lanes full_io (k # ks) d1 = Some (None, n, d')"
  shows "process_lanes full_io (k # ks) d = Some (None, n + 1, d')"
proof -
  have "process_lane (lane_next k) (lane_handler full_io k) 0 d = process_lane (lane_next k) (lane_handler full_io k) (0 + 1) d1"
    using assms(1,2) by (subst process_lane.simps) simp
  then show ?thesis
    using assms(3,4) process_lane_shift [of "lane_next k" "lane_handler full_io k" 0 d1 _ _ _ 1]
    by (fastforce simp: process_kind_lane bind_eq_Some_conv split: if_splits)
qed

lemma process_lanes_empty:
  assumes "lane_next k (dm_ingress d) = Some (None, p)" and "k \<noteq> kHeartbeat"
  shows "process_lanes full_io (k # ks) d = process_lanes full_io ks (d\<lparr>dm_ingress := p\<rparr>)"
proof -
  have "process_lane (lane_next k) (lane_handler full_io k) 0 d = Some (None, 0, d\<lparr>dm_ingress := p\<rparr>)"
    using assms(1) by (subst process_lane.simps) simp
  then show ?thesis using assms(2) by (simp add: process_kind_lane case_prod_unfold)
qed

text \<open>The two kinds of steps on a lane, as steps of the loops over the lanes.\<close>

lemma loop_step_lanes:
  assumes "lp_lanes st = k # ks" and "k \<noteq> kHeartbeat" and "loop_step full_io now order st = Some (fs, None, st')"
  shows "fs = [] \<Longrightarrow> process_lanes full_io (k # ks) (lp_daemon st) = process_lanes full_io ks (lp_daemon st')"
    and "fs \<noteq> [] \<Longrightarrow> process_lanes full_io (k # ks) (lp_daemon st') = Some (None, n, d')
      \<Longrightarrow> process_lanes full_io (k # ks) (lp_daemon st) = Some (None, n + 1, d')"
proof -
  from assms(1,3) obtain out p where p: "lane_next k (dm_ingress (lp_daemon st)) = Some (out, p)"
    by (auto simp: loop_step_def Let_def bind_eq_Some_conv)
  show "fs = [] \<Longrightarrow> process_lanes full_io (k # ks) (lp_daemon st) = process_lanes full_io ks (lp_daemon st')"
    using assms(1,3) p process_lanes_empty [OF _ assms(2)]
    by (auto simp: loop_step_def Let_def bind_eq_Some_conv simp del: process_lanes.simps split: option.splits)
  show "fs \<noteq> [] \<Longrightarrow> process_lanes full_io (k # ks) (lp_daemon st') = Some (None, n, d')
      \<Longrightarrow> process_lanes full_io (k # ks) (lp_daemon st) = Some (None, n + 1, d')"
    using assms(1,3) p process_lanes_frame [OF _ _ assms(2)]
    by (auto simp: loop_step_def Let_def bind_eq_Some_conv simp del: process_lanes.simps split: option.splits)
qed

definition lane_work :: "IngressSpec \<Rightarrow> MessageKind list \<Rightarrow> nat" where
  "lane_work s ks = (\<Sum>k\<leftarrow>ks. length (is_lane s k) + 1)"

lemma rest_of_lanes:
  assumes "loop_ok s qs st"
  shows "\<exists>fs s' st'. run_events full_io (replicate (length fs + length (lp_lanes st)) (LoopStep now order)) st = Some ([], fs, None, st')
     \<and> loop_effect s qs st [] fs s' st' \<and> lp_lanes st' = []
     \<and> (\<forall>k. is_lane s' k = (if k \<in> set (lp_lanes st) then [] else is_lane s k))
     \<and> process_lanes full_io (lp_lanes st) (lp_daemon st) = Some (None, of_nat (length fs), lp_daemon st')
     \<and> lp_processed st' = lp_processed st + of_nat (length fs)"
  using assms
proof (induction "lane_work s (lp_lanes st)" arbitrary: s qs st rule: less_induct)
  case less
  show ?case
  proof (cases "lp_lanes st")
    case Nil
    with less.prems show ?thesis by (intro exI [of _ "[]"] exI [of _ s] exI [of _ st]) (simp add: loop_effect_def keeps_def)
  next
    case (Cons k ks)
    have k: "k \<noteq> kHeartbeat" using less.prems Cons by (auto simp: loop_ok_def)
    from less.prems Cons show ?thesis
    proof (cases rule: lane_step [of s qs st k ks now order])
      case (empty p)
      let ?st = "st\<lparr>lp_daemon := (lp_daemon st)\<lparr>dm_ingress := p\<rparr>, lp_lanes := ks\<rparr>"
      have "loop_ok s qs ?st" "lane_work s (lp_lanes ?st) < lane_work s (lp_lanes st)"
        using empty(3) Cons by (simp_all add: loop_effect_def lane_work_def)
      from less.hyps [OF this(2,1)] obtain fs s' st' where r:
          "run_events full_io (replicate (length fs + length ks) (LoopStep now order)) ?st = Some ([], fs, None, st')"
          "loop_effect s qs ?st [] fs s' st'" "lp_lanes st' = []" "\<forall>j. is_lane s' j = (if j \<in> set ks then [] else is_lane s j)"
          "process_lanes full_io ks (lp_daemon ?st) = Some (None, of_nat (length fs), lp_daemon st')"
          "lp_processed st' = lp_processed st + of_nat (length fs)" by auto
      have "loop_effect s qs st [] fs s' st'" using loop_effect_trans [OF empty(3), of "[]" fs s' st'] r(2) by simp
      moreover have "process_lanes full_io (k # ks) (lp_daemon st) = Some (None, of_nat (length fs), lp_daemon st')"
        using loop_step_lanes(1) [OF Cons k empty(2)] r(5) by simp
      ultimately show ?thesis using r(1,3,4,6) Cons empty(1,2) by (intro exI [of _ fs] exI [of _ s'] exI [of _ st']) auto
    next
      case (frame f gs d')
      let ?st = "st\<lparr>lp_daemon := d', lp_processed := lp_processed st + 1\<rparr>" and ?s = "s\<lparr>is_lane := (is_lane s)(k := gs)\<rparr>"
      have "length (is_lane ?s j) \<le> length (is_lane s j)" for j using frame(1) by simp
      then have "lane_work ?s ks \<le> lane_work s ks" by (auto simp: lane_work_def intro: sum_list_mono)
      then have "loop_ok ?s (qs @ map log_entry [f]) ?st" "lane_work ?s (lp_lanes ?st) < lane_work s (lp_lanes st)"
        using frame(1,3) Cons by (simp_all add: loop_effect_def lane_work_def)
      from less.hyps [OF this(2,1)] obtain fs s' st' where r:
          "run_events full_io (replicate (length fs + length (lp_lanes st)) (LoopStep now order)) ?st = Some ([], fs, None, st')"
          "loop_effect ?s (qs @ map log_entry [f]) ?st [] fs s' st'" "lp_lanes st' = []"
          "\<forall>j. is_lane s' j = (if j \<in> set (lp_lanes st) then [] else is_lane ?s j)"
          "process_lanes full_io (k # ks) (lp_daemon ?st) = Some (None, of_nat (length fs), lp_daemon st')"
          "lp_processed st' = lp_processed st + 1 + of_nat (length fs)" using Cons by auto
      have "loop_effect s qs st [] (f # fs) s' st'" using loop_effect_trans [OF frame(3) r(2)] by simp
      moreover have "process_lanes full_io (k # ks) (lp_daemon st) = Some (None, of_nat (length (f # fs)), lp_daemon st')"
        using loop_step_lanes(2) [OF Cons k frame(2) _ r(5)] by (simp add: add_ac)
      moreover have "run_events full_io (replicate (length (f # fs) + length (lp_lanes st)) (LoopStep now order)) st = Some ([], f # fs, None, st')"
        using frame(2) r(1) by simp
      ultimately show ?thesis using r(3,4,6) Cons frame(1)
        by (intro exI [of _ "f # fs"] exI [of _ s'] exI [of _ st']) (simp add: add_ac)
    qed
  qed
qed

text \<open>
  The end of the iteration follows, and the next one starts. From the start of an iteration these steps
  are exactly \<open>event_loop_iteration\<close>.
\<close>

lemma rest_of_iteration:
  assumes "loop_ok s qs st" and "evaluation_order order"
  shows "\<exists>fs s' d'. run_events full_io (replicate (length fs + length (lp_lanes st) + 1) (LoopStep now order)) st
       = Some ([], fs, None, \<lparr>lp_daemon = d', lp_lanes = order, lp_processed = 0\<rparr>)
     \<and> loop_effect s qs st [] fs s' \<lparr>lp_daemon = d', lp_lanes = order, lp_processed = 0\<rparr>
     \<and> (\<forall>k. is_lane s' k = (if k \<in> set (lp_lanes st) then [] else is_lane s k))
     \<and> (st = \<lparr>lp_daemon = lp_daemon st, lp_lanes = order, lp_processed = 0\<rparr>
          \<longrightarrow> event_loop_iteration full_io now order (lp_daemon st) = Some (None, d'))"
proof -
  obtain fs s' st1 where r: "run_events full_io (replicate (length fs + length (lp_lanes st)) (LoopStep now order)) st = Some ([], fs, None, st1)"
      "loop_effect s qs st [] fs s' st1" "lp_lanes st1 = []" "\<forall>k. is_lane s' k = (if k \<in> set (lp_lanes st) then [] else is_lane s k)"
      "process_lanes full_io (lp_lanes st) (lp_daemon st) = Some (None, of_nat (length fs), lp_daemon st1)"
      "lp_processed st1 = lp_processed st + of_nat (length fs)"
    using rest_of_lanes [OF assms(1)] by blast
  have ok: "loop_ok s' (qs @ map log_entry fs) st1" using r(2) by (simp add: loop_effect_def)
  let ?st = "\<lambda>d1. \<lparr>lp_daemon = report_status now d1, lp_lanes = order, lp_processed = 0\<rparr>"
  obtain d1 where d1: "advance_block full_io (lp_processed st1) (lp_daemon st1) = (None, d1)" "loop_step full_io now order st1 = Some ([], None, ?st d1)"
      "loop_effect s' (qs @ map log_entry fs) st1 [] [] s' (?st d1)"
    using iteration_end [OF ok assms(2) r(3)] by blast
  from loop_effect_trans [OF r(2) d1(3)] have "loop_effect s qs st [] fs s' (?st d1)" by simp
  moreover have "run_events full_io (replicate (length fs + length (lp_lanes st) + 1) (LoopStep now order)) st = Some ([], fs, None, ?st d1)"
    using run_events_append [OF r(1), of "[LoopStep now order]"] d1(2) by (simp add: replicate_append_same flip: replicate_Suc)
  moreover have "st = \<lparr>lp_daemon = lp_daemon st, lp_lanes = order, lp_processed = 0\<rparr>
      \<Longrightarrow> event_loop_iteration full_io now order (lp_daemon st) = Some (None, report_status now d1)"
    using r(5,6) d1(1) by (cases st) (simp add: event_loop_iteration_def)
  ultimately show ?thesis using r(4) by blast
qed

section \<open>Nothing is lost between the threads\<close>

lemma frames_by_kind:
  assumes "\<And>k. filter (is_kind k) xs = filter (is_kind k) ys"
  shows "mset xs = mset ys"
proof (rule multiset_eqI)
  fix f
  have "count (mset zs) f = count (mset (filter (is_kind (fh_kind (fr_header f))) zs)) f" for zs by (simp add: is_kind_def)
  then show "count (mset xs) f = count (mset ys) f" using assms by metis
qed

lemma loop_boot_ok:
  assumes "load_config args env = Inr cfg" and "boot env cfg = Inr d" and "prior_files env cfg qs ps" and "evaluation_order order"
  shows "\<exists>ver. loop_ok (fresh_spec (ingress_config cfg) ver) qs \<lparr>lp_daemon = d, lp_lanes = order, lp_processed = 0\<rparr> \<and> dm_block_number d = 0"
  using boot_ok [OF assms(1-3)] evaluation_order_facts(2) [OF assms(4)] evaluation_order_length [OF assms(4)] by (auto simp: loop_ok_def)

text \<open>What is left in the lanes is handled in at most two iterations once no more datagrams arrive.\<close>

lemma drain_steps:
  assumes "loop_ok s qs st" and "evaluation_order order"
  shows "\<exists>fs s' st'. run_events full_io (replicate (length fs + length (lp_lanes st) + 5) (LoopStep now order)) st = Some ([], fs, None, st')
     \<and> loop_effect s qs st [] fs s' st' \<and> (\<forall>k. is_lane s' k = []) \<and> lp_lanes st' = order \<and> lp_processed st' = 0"
proof -
  let ?steps = "\<lambda>n. replicate n (LoopStep now order)" and ?st = "\<lambda>d. \<lparr>lp_daemon = d, lp_lanes = order, lp_processed = 0\<rparr>"
  obtain fs1 s1 d1 where r1: "run_events full_io (?steps (length fs1 + length (lp_lanes st) + 1)) st = Some ([], fs1, None, ?st d1)"
      "loop_effect s qs st [] fs1 s1 (?st d1)"
    using rest_of_iteration [OF assms] by blast
  then have "loop_ok s1 (qs @ map log_entry fs1) (?st d1)" by (simp add: loop_effect_def)
  from rest_of_iteration [OF this assms(2), of now] obtain fs2 s2 d2 where
    r2: "run_events full_io (?steps (4 + length fs2)) (?st d1) = Some ([], fs2, None, ?st d2)"
      "loop_effect s1 (qs @ map log_entry fs1) (?st d1) [] fs2 s2 (?st d2)" "\<forall>k. is_lane s2 k = (if k \<in> set order then [] else is_lane s1 k)"
    using evaluation_order_length [OF assms(2)] by auto
  have "is_lane s2 k = []" for k
    using r2(2,3) evaluation_order_facts(3) [OF assms(2)] by (cases k) (auto simp: loop_effect_def loop_ok_def daemon_ok_def lanes_ok_def)
  moreover have "?steps (length fs1 + length (lp_lanes st) + 1) @ ?steps (4 + length fs2) = ?steps (length (fs1 @ fs2) + length (lp_lanes st) + 5)"
    unfolding replicate_add [symmetric] by (intro arg_cong2 [of _ _ _ _ replicate]) simp_all
  ultimately show ?thesis
    using run_events_append [OF r1(1) r2(1)] loop_effect_trans [OF r1(2) r2(2)]
    by (intro exI [of _ "fs1 @ fs2"] exI [of _ s2] exI [of _ "?st d2"]) (metis (no_types, lifting) Loop.select_convs(2,3) append_Nil)
qed

text \<open>
  C12. Both threads interleaved frame by frame: on a daemon that started with any accepted configuration on the
  files of earlier runs, if any, datagrams may arrive between any two tests of a lane, also while the event
  loop is in the middle of a lane or between the lanes and the end of its iteration. For full writes no
  such schedule ends the daemon. At its end the handled frames of each kind are the first accepted ones of
  that kind, in the order of their arrival and each once; the books, positions and contexts are those of trading exactly the
  handled frames from the initial state; and a shutdown at this moment leaves a log that reads back as the
  records held before and then exactly the handled frames, numbered without a gap from 1.
\<close>

theorem interleaved_frames_once:
  assumes "load_config args env = Inr cfg" and "boot env cfg = Inr d" and "prior_files env cfg qs ps"
    and "evaluation_order order" and "list_all event_ok evs"
  shows "\<exists>acc fs st. run_events full_io evs \<lparr>lp_daemon = d, lp_lanes = order, lp_processed = 0\<rparr> = Some (acc, fs, None, st)
     \<and> (\<forall>k. prefix (filter (is_kind k) fs) (filter (is_kind k) acc))
     \<and> dm_block_number (lp_daemon st) + lp_processed st = of_nat (length fs)
     \<and> trade_frames (dm_default_market d) fs (initial_trading cfg) = Some (trading_of (lp_daemon st))
     \<and> read_all (open_reader (ww_file (dm_wal (snd (shutdown full_io fsync_ok (lp_daemon st)))))) = (numbered 1 (qs @ map log_entry fs), None)"
proof -
  obtain ver where ok: "loop_ok (fresh_spec (ingress_config cfg) ver) qs \<lparr>lp_daemon = d, lp_lanes = order, lp_processed = 0\<rparr>" "dm_block_number d = 0"
    using loop_boot_ok [OF assms(1-4)] by blast
  from run_events_ok [OF ok(1) assms(5)] obtain acc fs s st where r:
    "run_events full_io evs \<lparr>lp_daemon = d, lp_lanes = order, lp_processed = 0\<rparr> = Some (acc, fs, None, st)"
    "loop_effect (fresh_spec (ingress_config cfg) ver) qs \<lparr>lp_daemon = d, lp_lanes = order, lp_processed = 0\<rparr> acc fs s st" by blast
  have "\<forall>k. prefix (filter (is_kind k) fs) (filter (is_kind k) acc)" using r(2) by (auto simp: loop_effect_def fresh_spec_def)
  moreover have "trade_frames (dm_default_market d) fs (initial_trading cfg) = Some (trading_of (lp_daemon st))"
    using kept_trading [OF assms(2,3), of fs] r(2) by (simp add: loop_effect_def numbered_append trade_log_numbered)
  moreover have "read_all (open_reader (ww_file (dm_wal (snd (shutdown full_io fsync_ok (lp_daemon st)))))) = (numbered 1 (qs @ map log_entry fs), None)"
    using r(2) by (intro shutdown_log) (auto simp: loop_effect_def loop_ok_def daemon_ok_def)
  ultimately show ?thesis using r ok(2) by (auto simp: loop_effect_def)
qed

definition sample_schedule :: "Event list" where
  "sample_schedule = (let frame = wire_bytes 0 sample_order_frame; step = LoopStep 5 [kCancel, kNewOrder, kReplace]
     in [Received 0 7 frame, step, step, Received 3 7 frame, step, step, step, step])"

theorem interleaved_frames_once_witness:
  "\<exists>d acc fs st. boot sample_environment sample_config = Inr d
     \<and> run_events full_io sample_schedule \<lparr>lp_daemon = d, lp_lanes = [kNewOrder, kCancel, kReplace], lp_processed = 0\<rparr> = Some (acc, fs, None, st)
     \<and> (\<forall>k. prefix (filter (is_kind k) fs) (filter (is_kind k) acc))
     \<and> read_all (open_reader (ww_file (dm_wal (snd (shutdown full_io True (lp_daemon st)))))) = (numbered 1 (map log_entry fs), None)"
proof -
  obtain d where d: "boot sample_environment sample_config = Inr d" using sample_boot by blast
  have "evaluation_order [kNewOrder, kCancel, kReplace]" "list_all event_ok sample_schedule"
    by (simp_all add: evaluation_order_def sample_schedule_def Let_def)
  from interleaved_frames_once [OF sample_load d sample_prior this, of True] d show ?thesis
    by (auto simp del: read_all.simps run_events.simps)
qed

text \<open>
  C13. No accepted frame waits for ever: after any such schedule, once no more datagrams arrive, the event
  loop handles every frame accepted so far within as many steps as frames have been accepted and eight
  more; then the handled frames are, for each kind, exactly the accepted ones in the order of
  their arrival, the block number is their count, the loop stands at the start of an iteration, and a
  shutdown leaves a log that reads back as the records held before and then exactly these frames.
\<close>

theorem interleaving_drains:
  assumes "load_config args env = Inr cfg" and "boot env cfg = Inr d" and "prior_files env cfg qs ps"
    and "evaluation_order order" and "list_all event_ok evs"
  shows "\<exists>acc n fs st. n \<le> length acc + 8
     \<and> run_events full_io (evs @ replicate n (LoopStep now order)) \<lparr>lp_daemon = d, lp_lanes = order, lp_processed = 0\<rparr> = Some (acc, fs, None, st)
     \<and> (\<forall>k. filter (is_kind k) fs = filter (is_kind k) acc)
     \<and> dm_block_number (lp_daemon st) = of_nat (length fs) \<and> lp_lanes st = order \<and> lp_processed st = 0
     \<and> read_all (open_reader (ww_file (dm_wal (snd (shutdown full_io fsync_ok (lp_daemon st)))))) = (numbered 1 (qs @ map log_entry fs), None)"
proof -
  let ?st = "\<lparr>lp_daemon = d, lp_lanes = order, lp_processed = 0\<rparr>"
  obtain ver where ok: "loop_ok (fresh_spec (ingress_config cfg) ver) qs ?st" "dm_block_number d = 0"
    using loop_boot_ok [OF assms(1-4)] by blast
  from run_events_ok [OF ok(1) assms(5)] obtain acc fs s st where r:
    "run_events full_io evs ?st = Some (acc, fs, None, st)" "loop_effect (fresh_spec (ingress_config cfg) ver) qs ?st acc fs s st" by blast
  then have ok1: "loop_ok s (qs @ map log_entry fs) st" by (simp add: loop_effect_def)
  obtain fs' s' st' where r': "run_events full_io (replicate (length fs' + length (lp_lanes st) + 5) (LoopStep now order)) st = Some ([], fs', None, st')"
      "loop_effect s (qs @ map log_entry fs) st [] fs' s' st'" "\<forall>k. is_lane s' k = []" "lp_lanes st' = order" "lp_processed st' = 0"
    using drain_steps [OF ok1 assms(4)] by blast
  have e: "loop_effect (fresh_spec (ingress_config cfg) ver) qs ?st acc (fs @ fs') s' st'" using loop_effect_trans [OF r(2) r'(2)] by simp
  have k: "filter (is_kind k) (fs @ fs') = filter (is_kind k) acc" for k
    using e r'(3) by (auto simp: loop_effect_def fresh_spec_def)
  from mset_eq_length [OF frames_by_kind [OF k]] have "length fs' + length (lp_lanes st) + 5 \<le> length acc + 8"
    using ok1 by (simp add: loop_ok_def)
  moreover have "read_all (open_reader (ww_file (dm_wal (snd (shutdown full_io fsync_ok (lp_daemon st')))))) = (numbered 1 (qs @ map log_entry (fs @ fs')), None)"
    using e by (intro shutdown_log) (auto simp: loop_effect_def loop_ok_def daemon_ok_def)
  ultimately show ?thesis
    using run_events_append [OF r(1) r'(1)] k e ok(2) r'(4,5)
    by (intro exI [of _ acc] exI [of _ "length fs' + length (lp_lanes st) + 5"] exI [of _ "fs @ fs'"] exI [of _ st'])
      (simp add: loop_effect_def del: read_all.simps)
qed

theorem interleaving_drains_witness:
  "\<exists>d acc n fs st. boot sample_environment sample_config = Inr d \<and> n \<le> length acc + 8
     \<and> run_events full_io (sample_schedule @ replicate n (LoopStep 9 [kNewOrder, kCancel, kReplace])) \<lparr>lp_daemon = d, lp_lanes = [kNewOrder, kCancel, kReplace], lp_processed = 0\<rparr> = Some (acc, fs, None, st)
     \<and> (\<forall>k. filter (is_kind k) fs = filter (is_kind k) acc) \<and> dm_block_number (lp_daemon st) = of_nat (length fs)"
proof -
  obtain d where d: "boot sample_environment sample_config = Inr d" using sample_boot by blast
  have "evaluation_order [kNewOrder, kCancel, kReplace]" "list_all event_ok sample_schedule"
    by (simp_all add: evaluation_order_def sample_schedule_def Let_def)
  from interleaving_drains [OF sample_load d sample_prior this, of 9 True] d show ?thesis by blast
qed

end
