(* ===== verification/Spec2Isabelle.thy ===== *)
theory Spec2Isabelle
  imports Matching_Replace Matching_Priority Snapshot_Crash Daemon_Start Daemon_Duplicates Daemon_Collateral Daemon_Recovery
    Daemon_Main Daemon_Interleaving
begin

text \<open>
  TradeCore (MMPerp): a verification library for the C++ exchange core under \<open>src/libs\<close> and its daemon
  \<open>src/apps/tradecored/src/main.cpp\<close>.

  \<^bold>\<open>The program.\<close> Clients send frames in UDP datagrams. The transport parses them, the ingress pipeline
  authenticates and limits them and puts them into one ring per message kind. The event loop takes frames
  out of the rings, appends each to the write-ahead log, decodes the order message, asks the risk engine,
  runs the matching engine, books the fills as positions of taker and maker, and publishes frames and trades
  on the API feeds. After every 256 frames it stores a snapshot; a replay driver can deliver the latest
  snapshot and the log after it. Funding, ledger, liquidation test and telemetry are components that the
  daemon creates and does not drive yet.

  \<^bold>\<open>The theories\<close>, each with the source it translates.
  \<^item> \<open>Prelude\<close>: 64-bit arithmetic (\<open>i64\<close>, the value of \<open>std::int64_t\<close> after wrap-around), ordered and
    unordered maps of the standard library, and the locale \<open>simulation\<close> for functional refinement.
  \<^item> \<open>Types\<close>: identifiers, sides, flags (\<open>common/types.hpp\<close>) and the packing of an order identifier.
  \<^item> \<open>Matching_Engine\<close>: every operation of \<open>matcher/matching_engine.cpp\<close> on an explicit store of orders
    whose intrusive lists are pointers into that store. \<open>Book_Spec\<close> and \<open>Book_Invariants\<close> give the
    specification, books as sorted lists of queues, and its invariant; \<open>Matching_Levels\<close>,
    \<open>Matching_Refinement\<close> and \<open>Matching_Properties\<close> prove that the code refines it for every sequence of
    operations; \<open>Matching_Guarantees\<close> states on the code's own state what clients rely on:
    conservation, no crossed book, exact level totals, the order flags, cancel and replace;
    \<open>Matching_Priority\<close>: best price first and, by the sequence numbers of the orders, oldest first;
    \<open>Matching_Replace\<close>: a replace by valid terms is a cancel and a new order.
  \<^item> \<open>Risk_Engine\<close>, \<open>Risk_Properties\<close>: \<open>risk/risk_engine.cpp\<close> and \<open>liquidation_engine.cpp\<close>; positions as
    net fills, the pre-trade check against the state after the fill, reduce-only, liquidation.
  \<^item> \<open>Funding\<close>: \<open>funding/funding_engine.cpp\<close> and \<open>ledger/ledger_state.cpp\<close>.
  \<^item> \<open>Spsc_Ring\<close>: \<open>common/spsc_ring.hpp\<close>, once as sequential operations and once as the single memory
    accesses of a producer and a consumer in any interleaving.
  \<^item> \<open>Wire\<close>: little-endian encoding, order messages (\<open>ingest/sbe_messages.hpp\<close>), frames. \<open>Ingress\<close>:
    \<open>ingest/ingress_pipeline.cpp\<close>, which uses the ring through the contract of a bounded queue.
    \<open>Transport\<close>: \<open>ingest/transport.cpp\<close> and \<open>quic_transport.cpp\<close>. \<open>Auth\<close>: \<open>auth/authenticator.cpp\<close>.
  \<^item> \<open>Wal\<close>, \<open>Wal_Integrity\<close>, \<open>Wal_Crash\<close>: \<open>wal/wal_writer.cpp\<close> with its buffer, the buffer of the C stream
    and the bytes of the file; round trip over any number of writer sessions, detection of damaged payloads,
    torn tails, and, for writes that take any number of bytes, flushes that store any number of them and a
    file cut off anywhere, that the log stays a prefix of what was appended. The writer does not look at the
    result of \<open>fflush\<close>, so that after a sync the records are in the file or still in the stream.
    \<open>Snapshot\<close>: \<open>snapshot/snapshot_store.cpp\<close> with its compaction, a persist as steps on files, each of which
    may fail or be the last of the process, and what it does if none fails; \<open>Snapshot_Crash\<close>: what the
    failures leave behind. \<open>Replay\<close>: \<open>replay/replay_driver.cpp\<close>.
  \<^item> \<open>Api_Router\<close>, \<open>Telemetry\<close>, \<open>Config\<close>: \<open>api/api_router.cpp\<close>, \<open>telemetry/telemetry_sink.cpp\<close>,
    \<open>config/config_loader.cpp\<close>.
  \<^item> \<open>Daemon\<close>: \<open>main.cpp\<close>, its local variables as the record \<open>Daemon\<close>, its lambdas as handlers.
    \<open>Daemon_Properties\<close> and \<open>Daemon_Runs\<close> compose the components: every accepted frame is handled and
    logged exactly once in any run, on the files of earlier runs or on none. \<open>Daemon_Start\<close>: when the daemon
    starts, which needs more of the configuration than its loader checks. \<open>Daemon_Interleaving\<close>: runs with
    the receive thread and the event loop interleaved frame by frame, and that the steps of an undisturbed
    iteration are \<open>event_loop_iteration\<close>. \<open>Daemon_Trading\<close>: the handlers refine a trading machine that is a
    function of the logged frames, so that the log rebuilds books and positions; the message they decode is
    the beginning of the payload, which the signature occupies, so that what was signed plays no part.
    \<open>Daemon_Failures\<close>: writes to the log, flushes of its stream and snapshots that fail at any time; an
    exception ends the daemon before the frame at hand has traded or between two iterations.
    \<open>Daemon_Main\<close>: the \<open>main\<close> function from arguments to exit code. \<open>Daemon_Recovery\<close>: what the replay
    driver delivers from the files of a first run. \<open>Daemon_Balance\<close>: the positions sum to zero as long as
    identifiers differ;
    \<open>Daemon_Duplicates\<close>: four frames with a repeated identifier after which they do not. \<open>Daemon_Collateral\<close>:
    nothing credits collateral, so that with a positive mark price no order passes the risk check.

  \<^bold>\<open>Interfaces.\<close> The locale \<open>simulation\<close> is interpreted for the matching engine and for the ingress
  pipeline against their specifications; the contract of a bounded queue is interpreted for the ring and
  used by the pipeline; \<open>dictionary\<close> for the two maps of the standard library, \<open>comparator\<close> and \<open>price_book\<close>
  for bids and asks; \<open>frame_invariant\<close>, the contract of an invariant of the trading state over runs of the
  daemon, for the balance of books, contexts and positions, for the trading machine and for the idle books.

  \<^bold>\<open>Conventions.\<close> A record stands for a class or struct, an option or a sum for a result that can fail; an
  exception is its message; \<open>None\<close> as the result of an operation is undefined behaviour (a null or dangling
  pointer) or a loop that does not end, and the theorems show that it does not occur. Loops over the pointer
  lists are \<open>partial_function (option)\<close>; there is no fuel. Unsigned integers are words; signed 64-bit values
  are integers reduced by \<open>i64\<close> after each operation, which is what the hardware computes where the language
  leaves overflow undefined. Sizes of buffers in memory are natural numbers.

  \<^bold>\<open>Parameters\<close> stand for code outside the repository: how many bytes \<open>fwrite\<close> takes and how many \<open>fflush\<close>
  stores (\<open>StdioCalls\<close>; \<open>full_stdio\<close> is the case of everything), for the daemon together with the steps that fail
  in the persist of a snapshot (\<open>DaemonIo\<close>; \<open>full_io\<close> is the case in which nothing fails), the other socket and
  file system calls, clocks, the libsodium functions, the TOML parser,
  the padding bytes of a C++ object, the rank that floating-point arithmetic yields for a percentile, and the
  order in which the operands of a sum are evaluated.

  \<^bold>\<open>Not modelled:\<close> console output and sleeping, the delivery of signals (a run may end anywhere), thread
  creation (what the receive thread does is the operation \<open>on_datagram\<close>, atomic between two tests of a lane by the
  event loop; the ring alone is modelled at the granularity of memory accesses, with sequentially consistent
  interleaving), failures while \<open>latest\<close> or the replay driver reads a file that could be opened (those of the compaction are modelled),
  the reasons the system gives in its exceptions, floating-point values, the deterministic arena of the
  matcher configuration (it is validated and not used by the code), the web interface and the tests.
  Every operation of the libraries and of the daemon that changes state is a definition; what is left of the
  sources is includes, declarations whose definitions are modelled, and the items of this list.
\<close>

end
